(* ===== verification/Prelude.thy ===== *)
theory Prelude
  imports Main "HOL-Library.Word" "HOL-Library.Sublist" "HOL-Library.Product_Lexorder"
begin

text \<open>
  Shared vocabulary of the development: machine-integer types, bytes and
  \<^verbatim>\<open>std::string\<close>s, the little-endian memory image of an unsigned integer, the
  half-open binary search every reader of the engine uses, and
  \<^verbatim>\<open>std::stable_sort\<close>.
  The collection \<open>codec\<close> gathers the length and round-trip equations of the
  encoders; \<open>layout\<close> gathers the equations that compute a field of a struct image.
\<close>

unbundle bit_operations_syntax

named_theorems codec
named_theorems layout

type_synonym byte = "8 word"
type_synonym bytes = "byte list"
type_synonym u8 = "8 word"
type_synonym u16 = "16 word"
type_synonym u32 = "32 word"
type_synonym u64 = "64 word"

section \<open>Definitions\<close>

subsection \<open>Bytes and strings\<close>

text \<open>A \<^verbatim>\<open>std::string\<close> is a list of characters; a character is one byte.\<close>

definition bytes_of :: "string \<Rightarrow> bytes" where
  "bytes_of s = map (\<lambda>c. word_of_nat (of_char c)) s"

definition string_of :: "bytes \<Rightarrow> string" where
  "string_of bs = map (\<lambda>b. char_of (unat b)) bs"

text \<open>The memory image of an unsigned integer of \<open>n\<close> bytes on a little-endian
  machine, and the integer \<^verbatim>\<open>memcpy\<close> reads back from such an image.\<close>

primrec le_bytes :: "nat \<Rightarrow> 'a::len word \<Rightarrow> bytes" where
  "le_bytes 0 w = []"
| "le_bytes (Suc n) w = ucast w # le_bytes n (drop_bit 8 w)"

primrec le_word :: "bytes \<Rightarrow> 'a::len word" where
  "le_word [] = 0"
| "le_word (b # bs) = ucast b OR push_bit 8 (le_word bs)"

text \<open>The \<open>n\<close> bytes at offset \<open>off\<close> of a memory image.\<close>

definition slice :: "nat \<Rightarrow> nat \<Rightarrow> 'a list \<Rightarrow> 'a list" where
  "slice off n bs = take n (drop off bs)"

subsection \<open>Binary search\<close>

text \<open>
  The loop \<^verbatim>\<open>while (low < high) { middle = low + (high - low) / 2; if (p(middle))
  low = middle + 1; else high = middle; } return low;\<close>, the partition point of \<open>p\<close>.
\<close>

function bsearch :: "(nat \<Rightarrow> bool) \<Rightarrow> nat \<Rightarrow> nat \<Rightarrow> nat" where
  "bsearch p low high =
     (if low < high
      then let middle = low + (high - low) div 2
           in if p middle then bsearch p (middle + 1) high else bsearch p low middle
      else low)"
  by pat_completeness auto
termination
  by (relation "measure (\<lambda>(p, low, high). high - low)") auto

declare bsearch.simps [simp del]

subsection \<open>Stable sorting\<close>

text \<open>\<^verbatim>\<open>std::stable_sort\<close> with a strict comparison: insertion that puts an element
  in front of the first element that is not smaller than it.\<close>

primrec sinsert :: "('a \<Rightarrow> 'a \<Rightarrow> bool) \<Rightarrow> 'a \<Rightarrow> 'a list \<Rightarrow> 'a list" where
  "sinsert lt x [] = [x]"
| "sinsert lt x (y # ys) = (if lt y x then y # sinsert lt x ys else x # y # ys)"

definition stable_sort :: "('a \<Rightarrow> 'a \<Rightarrow> bool) \<Rightarrow> 'a list \<Rightarrow> 'a list" where
  "stable_sort lt xs = foldr (sinsert lt) xs []"

section \<open>Lemmas\<close>

subsection \<open>Bytes\<close>

lemma string_of_bytes_of [simp, codec]: "string_of (bytes_of s) = s"
  by (induction s) (simp_all add: string_of_def bytes_of_def unat_of_nat)

lemma length_bytes_of [simp, codec]: "length (bytes_of s) = length s"
  by (simp add: bytes_of_def)

lemma length_string_of [simp, codec]: "length (string_of bs) = length bs"
  by (simp add: string_of_def)

lemma length_le_bytes [simp, codec]: "length (le_bytes n w) = n"
  by (induction n arbitrary: w) simp_all

lemma bit_le_word: "bit (le_word bs :: 'a::len word) i \<longleftrightarrow>
    i < LENGTH('a) \<and> i div 8 < length bs \<and> bit (bs ! (i div 8)) (i mod 8)"
proof (induction bs arbitrary: i)
  case Nil
  then show ?case by simp
next
  case (Cons b bs)
  show ?case
  proof (cases "i < 8")
    case True
    then show ?thesis
      by (auto simp: bit_or_iff bit_push_bit_iff bit_ucast_iff)
  next
    case False
    then obtain k where k: "i = k + 8"
      using le_Suc_ex by (metis add.commute not_less)
    have "\<not> bit b i"
      using False bit_imp_le_length [of b i] by auto
    moreover have "i div 8 = Suc (k div 8)" "i mod 8 = k mod 8"
      using k by simp_all
    ultimately show ?thesis
      using k Cons.IH [of k]
      by (auto simp: bit_or_iff bit_push_bit_iff bit_ucast_iff simp del: div_add_self2)
  qed
qed

lemma nth_le_bytes: "i < n \<Longrightarrow> le_bytes n w ! i = ucast (drop_bit (8 * i) w)"
proof (induction n arbitrary: w i)
  case 0
  then show ?case by simp
next
  case (Suc n)
  then show ?case
    by (cases i) (simp_all add: drop_bit_drop_bit algebra_simps)
qed

lemma le_word_le_bytes: "le_word (le_bytes n w) = take_bit (8 * n) (w :: 'a::len word)"
proof (rule bit_word_eqI)
  fix i assume "i < LENGTH('a)"
  then show "bit (le_word (le_bytes n w) :: 'a word) i = bit (take_bit (8 * n) w) i"
    by (auto simp: bit_le_word nth_le_bytes bit_take_bit_iff bit_ucast_iff bit_drop_bit_eq
        less_mult_imp_div_less div_less_iff_less_mult mult.commute)
qed

lemma le_word_le_bytes_ucast:
  "le_word (le_bytes n w) = (ucast (take_bit (8 * n) (w :: 'a::len word)) :: 'b::len word)"
proof (rule bit_word_eqI)
  fix i assume i: "i < LENGTH('b)"
  show "bit (le_word (le_bytes n w) :: 'b word) i = bit (ucast (take_bit (8 * n) w) :: 'b word) i"
    using i
    by (auto simp: bit_le_word nth_le_bytes bit_take_bit_iff bit_ucast_iff bit_drop_bit_eq
        div_less_iff_less_mult mult.commute)
qed

lemma le_word_append:
  "le_word (xs @ ys) = (le_word xs OR push_bit (8 * length xs) (le_word ys) :: 'a::len word)"
  by (induction xs) (simp_all add: push_bit_or or.assoc)

lemma le_word_le_bytes_full [simp, codec]:
  "LENGTH('a) \<le> 8 * n \<Longrightarrow> le_word (le_bytes n w) = (w :: 'a::len word)"
  by (simp add: le_word_le_bytes take_bit_word_eq_self)

lemma le_bytes_le_word [codec]:
  assumes "8 * length bs \<le> LENGTH('a)"
  shows "le_bytes (length bs) (le_word bs :: 'a::len word) = bs"
proof (rule nth_equalityI)
  fix i assume "i < length (le_bytes (length bs) (le_word bs :: 'a word))"
  then have i: "i < length bs" by simp
  show "le_bytes (length bs) (le_word bs :: 'a word) ! i = bs ! i"
  proof (rule bit_word_eqI)
    fix j :: nat assume "j < LENGTH(8)"
    then have j: "j < 8" by simp
    from i j assms have "8 * i + j < LENGTH('a)" by linarith
    with i j show "bit (le_bytes (length bs) (le_word bs :: 'a word) ! i) j = bit (bs ! i) j"
      by (simp add: nth_le_bytes bit_ucast_iff bit_drop_bit_eq bit_le_word)
  qed
qed simp

text \<open>The overflow guards of the readers: a sum whose guard passed did not wrap.\<close>

lemma unat_add_guard:
  fixes a b :: "'a::len word"
  assumes "unat a + unat b < 2 ^ LENGTH('a)"
  shows "unat (a + b) = unat a + unat b"
  using assms by (simp add: unat_word_ariths)

lemma unat_minus_one_minus:
  fixes a :: "'a::len word"
  shows "unat (- 1 - a) = 2 ^ LENGTH('a) - 1 - unat a"
  by (simp add: unat_sub unsigned_minus_1_eq_mask mask_eq_exp_minus_1)

lemma unat_add_le_guard:
  fixes a b :: "'a::len word"
  assumes "b \<le> - 1 - a"
  shows "unat (a + b) = unat a + unat b"
proof (rule unat_add_guard)
  have "unat b \<le> 2 ^ LENGTH('a) - 1 - unat a"
    using assms by (simp add: word_le_nat_alt unat_minus_one_minus)
  moreover have "unat a < 2 ^ LENGTH('a)" by (rule unsigned_less)
  ultimately show "unat a + unat b < 2 ^ LENGTH('a)" by linarith
qed

lemma word_le_one: "(w :: 'a::len word) \<le> 1 \<longleftrightarrow> w = 0 \<or> w = 1"
proof
  assume "w \<le> 1"
  then have "unat w \<le> 1" by (metis unsigned_1 word_le_nat_alt)
  then have "unat w = 0 \<or> unat w = unat (1 :: 'a word)" by auto
  then show "w = 0 \<or> w = 1" by (metis unsigned_0 word_unat_eq_iff)
qed auto

lemma sint_eq_iff [simp]: "sint a = sint b \<longleftrightarrow> a = b"
  by (auto intro: signed_word_eqI)

lemma unat_ucast_widen:
  fixes w :: "'a::len word"
  assumes "LENGTH('a) \<le> LENGTH('b::len)"
  shows "unat (ucast w :: 'b word) = unat w"
proof -
  have "unat w < 2 ^ LENGTH('b)"
    using unsigned_less [of w] assms power_increasing [of "LENGTH('a)" "LENGTH('b)" "2::nat"]
    by (meson less_le_trans one_le_numeral)
  then show ?thesis by (simp add: unsigned_ucast_eq take_bit_nat_eq_self)
qed

subsection \<open>Slices\<close>

lemma length_slice [simp]: "length (slice off n bs) = min n (length bs - off)"
  by (simp add: slice_def)

lemma slice_0_append [simp, layout]: "length xs = n \<Longrightarrow> slice 0 n (xs @ ys) = xs"
  by (simp add: slice_def)

lemma slice_skip [layout]: "length xs \<le> off \<Longrightarrow> slice off n (xs @ ys) = slice (off - length xs) n ys"
  by (simp add: slice_def)

lemma slice_0_self [simp, layout]: "length xs = n \<Longrightarrow> slice 0 n xs = xs"
  by (simp add: slice_def)

lemma slice_Cons [layout]:
  "slice (Suc off) n (x # xs) = slice off n xs"
  "slice (numeral k) n (x # xs) = slice (numeral k - 1) n xs"
  "slice 0 (Suc n) (x # xs) = x # slice 0 n xs" "slice 0 0 xs = []"
  by (simp_all add: slice_def drop_Cons')

lemma slice_concat:
  assumes "\<And>x. x \<in> set xs \<Longrightarrow> length (f x) = n" "i < length xs"
  shows "slice (i * n) n (concat (map f xs) @ ys) = f (xs ! i)"
  using assms
proof (induction xs arbitrary: i)
  case Nil
  then show ?case by simp
next
  case (Cons x xs)
  show ?case
  proof (cases i)
    case 0
    with Cons.prems show ?thesis by simp
  next
    case (Suc k)
    with Cons show ?thesis by (simp add: layout)
  qed
qed

lemma slice_concat_at:
  "i < length xss \<Longrightarrow>
   slice (sum_list (map length (take i xss))) (length (xss ! i)) (concat xss) = xss ! i"
proof (induction xss arbitrary: i)
  case (Cons x xss)
  then show ?case by (cases i) (simp_all add: layout)
qed simp

lemma slice_slice: "a + n \<le> m \<Longrightarrow> slice a n (slice b m bs) = slice (b + a) n bs"
  by (simp add: slice_def take_drop add.commute min_def add.left_commute)

lemma slice_join: "b = a + n \<Longrightarrow> slice a n bs @ slice b m bs = slice a (n + m) bs"
  by (simp add: slice_def take_add) (simp add: add.commute)

lemma slice_all: "length bs = n \<Longrightarrow> slice 0 n bs = bs"
  by (simp add: slice_def)

lemma slice_update_outside: "i < off \<or> off + n \<le> i \<Longrightarrow> slice off n (bs[i := v]) = slice off n bs"
  by (auto simp: slice_def drop_update_swap take_update_cancel not_less)

lemma slice_update_inside:
  "off \<le> i \<Longrightarrow> i < off + n \<Longrightarrow> slice off n (bs[i := v]) = (slice off n bs)[i - off := v]"
  by (simp add: slice_def drop_update_swap take_update_swap)

lemma slice_extend: "off + n \<le> length xs \<Longrightarrow> slice off n (xs @ ys) = slice off n xs"
  by (simp add: slice_def)

subsection \<open>Binary search\<close>

lemma bsearch_step:
  assumes "low < high" and "m = low + (high - low) div 2"
  shows "bsearch p low high = (if p m then bsearch p (m + 1) high else bsearch p low m)"
  using assms by (simp add: bsearch.simps [of p low high] Let_def)

lemma bsearch_done: "\<not> low < high \<Longrightarrow> bsearch p low high = low"
  by (simp add: bsearch.simps [of p low high])

lemma bsearch_bounds: "low \<le> high \<Longrightarrow> low \<le> bsearch p low high \<and> bsearch p low high \<le> high"
proof (induction p low high rule: bsearch.induct)
  case (1 p low high)
  show ?case
  proof (cases "low < high")
    case True
    define m where "m = low + (high - low) div 2"
    with True have m: "low \<le> m" "m < high" by auto
    show ?thesis
      using "1.IH"(1) [OF True m_def] "1.IH"(2) [OF True m_def] m
      by (auto simp: bsearch_step [OF True m_def])
  next
    case False
    with 1 show ?thesis by (simp add: bsearch_done)
  qed
qed

lemma bsearch_partition:
  assumes "\<And>i j. low \<le> i \<Longrightarrow> i \<le> j \<Longrightarrow> j < high \<Longrightarrow> p j \<Longrightarrow> p i"
    and "low \<le> i" "i < high"
  shows "p i \<longleftrightarrow> i < bsearch p low high"
  using assms
proof (induction p low high rule: bsearch.induct)
  case (1 p low high)
  define m where "m = low + (high - low) div 2"
  from "1.prems" have lh: "low < high" by simp
  then have m: "low \<le> m" "m < high" by (auto simp: m_def)
  show ?case
  proof (cases "p m")
    case True
    have eq: "bsearch p low high = bsearch p (m + 1) high"
      by (simp add: bsearch_step [OF lh m_def] True)
    show ?thesis
    proof (cases "i \<le> m")
      case le: True
      have "m + 1 \<le> bsearch p (m + 1) high" using bsearch_bounds [of "m + 1" high p] m by simp
      moreover have "p i" using "1.prems"(1) [OF "1.prems"(2) le m(2) True] .
      ultimately show ?thesis using le eq by simp
    next
      case False
      then show ?thesis
        unfolding eq using "1.IH"(1) [OF lh m_def True] "1.prems" m by auto
    qed
  next
    case False
    have eq: "bsearch p low high = bsearch p low m"
      by (simp add: bsearch_step [OF lh m_def] False)
    show ?thesis
    proof (cases "i < m")
      case True
      then show ?thesis
        unfolding eq using "1.IH"(2) [OF lh m_def False] "1.prems" m by auto
    next
      case ge: False
      have "bsearch p low m \<le> m" using bsearch_bounds [of low m p] m by simp
      moreover have "\<not> p i" using "1.prems"(1) [of m i] ge m "1.prems"(3) False by auto
      ultimately show ?thesis using ge eq by simp
    qed
  qed
qed

subsection \<open>Stable sorting\<close>

lemma stable_sort_sort_key:
  assumes "\<And>x y. lt x y \<longleftrightarrow> f x < (f y :: 'k::linorder)"
  shows "stable_sort lt xs = sort_key f xs"
proof -
  have "sinsert lt x ys = insort_key f x ys" for x ys
    by (induction ys) (auto simp: assms not_less [symmetric])
  then have "sinsert lt = insort_key f" by (intro ext)
  then show ?thesis
    by (simp add: stable_sort_def sort_key_def)
qed

lemma set_stable_sort [simp]: "set (stable_sort lt xs) = set xs"
proof -
  have "set (sinsert lt x ys) = insert x (set ys)" for x ys
    by (induction ys) auto
  then show ?thesis by (induction xs) (simp_all add: stable_sort_def)
qed

lemma length_stable_sort [simp]: "length (stable_sort lt xs) = length xs"
proof -
  have "length (sinsert lt x ys) = Suc (length ys)" for x ys
    by (induction ys) auto
  then show ?thesis by (induction xs) (simp_all add: stable_sort_def)
qed

lemma sorted_wrt_adjacent:
  assumes "transp R" "\<And>i. Suc i < length xs \<Longrightarrow> R (xs ! i) (xs ! Suc i)"
  shows "sorted_wrt R xs"
  using assms(2)
proof (induction xs)
  case Nil
  then show ?case by simp
next
  case (Cons x xs)
  have srt: "sorted_wrt R xs" using Cons.prems by (intro Cons.IH) force
  have "R x y" if "y \<in> set xs" for y
  proof (cases xs)
    case Nil
    with that show ?thesis by simp
  next
    case (Cons z zs)
    have "R x z" using Cons.prems [of 0] Cons by simp
    with srt that Cons assms(1) show ?thesis by (auto dest: transpD)
  qed
  with srt show ?case by simp
qed

end
