(* ===== verification/Types.thy ===== *)
theory Types
  imports Prelude
begin

text \<open>
  The public vocabulary of the engine: identifiers and sentinels, the status codes and the
  option records with their validation
  (\<^verbatim>\<open>include/richgraph/types.h\<close>, \<^verbatim>\<open>include/richgraph/options.h\<close>, \<^verbatim>\<open>src/options.cpp\<close>).
  An unsigned C++ integer is a word of its width; \<^verbatim>\<open>std::int64_t\<close> is a \<open>64 word\<close> read
  with \<open>sint\<close> wherever the code compares it.
\<close>

section \<open>Definitions\<close>

subsection \<open>Identifiers and status codes\<close>

type_synonym VertexId_t = u64
type_synonym SequenceNumber_t = "64 word"
type_synonym FileId_t = u32
type_synonym PropertyCommitSequence = u64

definition kInvalidVertexId :: VertexId_t where
  "kInvalidVertexId = push_bit 32 0xFFFF + 0xFFFFFFFF"

definition kInvalidFileId :: FileId_t where
  "kInvalidFileId = drop_bit 1 0xFFFFFFFF"

definition kMaxSequence :: SequenceNumber_t where
  "kMaxSequence = push_bit 32 0xFFFF + 0xFFFFFFFF"

definition kLatestPropertyCommit :: PropertyCommitSequence where
  "kLatestPropertyCommit = 0xFFFFFFFFFFFFFFFF"

datatype Status =
  kOk | kDelete | kNotFound | kInvalidArgument | kIOError | kCorruption | kBackgroundError

primrec StatusName :: "Status \<Rightarrow> string" where
  "StatusName kOk = ''ok''"
| "StatusName kDelete = ''deleted''"
| "StatusName kNotFound = ''not_found''"
| "StatusName kInvalidArgument = ''invalid_argument''"
| "StatusName kIOError = ''io_error''"
| "StatusName kCorruption = ''corruption''"
| "StatusName kBackgroundError = ''background_error''"

text \<open>\<^verbatim>\<open>static_cast<int>\<close> of a \<^verbatim>\<open>size_t\<close>: the low 32 bits read as a signed integer.\<close>

definition c_int :: "nat \<Rightarrow> int" where
  "c_int n = sint (word_of_nat n :: 32 word)"

subsection \<open>Options\<close>

datatype DeltaDurability = DurabilityNone | kProcessCrashSafe

record PropertyUpdateOptions =
  enabled :: bool
  buffer_capacity_records :: u64
  buffer_capacity_bytes :: u64
  buffer_count :: u32
  delta_chain_merge_threshold :: u32
  update_durability :: DeltaDurability

record GraphDbOptions =
  memtable_count :: u32
  default_memtable_capacity :: u64
  max_subcompactions :: u32
  background_threads :: u32
  support_multi_version :: bool
  load_existing :: bool
  cache_sst_data :: bool
  verbose_logging :: bool
  mmap_path :: string
  property_updates :: PropertyUpdateOptions

definition default_PropertyUpdateOptions :: PropertyUpdateOptions where
  "default_PropertyUpdateOptions =
     \<lparr> enabled = True, buffer_capacity_records = 5000000,
       buffer_capacity_bytes = 256 * 1024 * 1024, buffer_count = 2,
       delta_chain_merge_threshold = 4, update_durability = kProcessCrashSafe \<rparr>"

definition default_GraphDbOptions :: GraphDbOptions where
  "default_GraphDbOptions =
     \<lparr> memtable_count = 2, default_memtable_capacity = 1000000, max_subcompactions = 1,
       background_threads = 0, support_multi_version = True, load_existing = False,
       cache_sst_data = True, verbose_logging = False, mmap_path = [],
       property_updates = default_PropertyUpdateOptions \<rparr>"

definition Validate :: "GraphDbOptions \<Rightarrow> string" where
  "Validate opts =
     (let pu = property_updates opts in
      if memtable_count opts < 2 then ''memtable_count must be at least 2''
      else if default_memtable_capacity opts = 0
      then ''default_memtable_capacity must be greater than 0''
      else if default_memtable_capacity opts > 0xFFFFFFFF
      then ''default_memtable_capacity exceeds the current engine limit''
      else if max_subcompactions opts = 0
      then ''max_subcompactions must be greater than 0''
      else if enabled pu then
        (if \<not> cache_sst_data opts
         then ''property updates currently require cache_sst_data=true''
         else if buffer_count pu < 2
         then ''property update buffer_count must be at least 2 when enabled''
         else if buffer_capacity_records pu = 0
         then ''property update buffer_capacity_records must be greater than 0''
         else if buffer_capacity_bytes pu = 0
         then ''property update buffer_capacity_bytes must be greater than 0''
         else if buffer_capacity_records pu > 0xFFFFFFFF
         then ''property update buffer_capacity_records exceeds the current engine limit''
         else if delta_chain_merge_threshold pu = 0
         then ''delta_chain_merge_threshold must be greater than 0''
         else [])
      else [])"

section \<open>Lemmas\<close>

lemma c_int_small [simp]: "n < 2 ^ 31 \<Longrightarrow> c_int n = int n"
  by (simp add: c_int_def sint_sbintrunc' signed_of_nat signed_take_bit_int_eq_self)

lemma StatusName_inj: "StatusName s = StatusName t \<longleftrightarrow> s = t"
  by (cases s; cases t) simp_all


end
