(* ===== verification/EdgeBody.thy ===== *)
theory EdgeBody
  imports Types
begin

text \<open>
  The packed 16-byte edge body \<^verbatim>\<open>EdgeBody_t_Dym\<close> (\<^verbatim>\<open>core/graph/edge.h\<close>) and the raw
  accessors that read it from a memory-mapped table without unpacking it
  (\<^verbatim>\<open>src/storage_internal.cpp\<close>). The asserts of the setters are not part of the
  definitions: a value that is too wide is cut, as in a release build.
\<close>

section \<open>Definitions\<close>

record EdgeBody_t_Dym =
  prop_pointer :: u32
  dst_low :: u32
  seq_low :: u32
  dst_high :: u16
  seq_high :: u16

definition kMarkerMask :: u32 where "kMarkerMask = 0x80000000"
definition kIsOutMask :: u32 where "kIsOutMask = 0x40000000"
definition kEdgeTypeShift :: nat where "kEdgeTypeShift = 22"
definition kEdgeTypeMask :: u32 where "kEdgeTypeMask = 0x3fc00000"
definition kPayloadMask :: u32 where "kPayloadMask = 0x003fffff"

definition set_dst :: "VertexId_t \<Rightarrow> EdgeBody_t_Dym \<Rightarrow> EdgeBody_t_Dym" where
  "set_dst dst b = b\<lparr>dst_high := ucast (drop_bit 32 dst AND 0xFFFF),
                    dst_low := ucast (dst AND 0xFFFFFFFF)\<rparr>"

definition get_dst :: "EdgeBody_t_Dym \<Rightarrow> VertexId_t" where
  "get_dst b = push_bit 32 (ucast (dst_high b)) + ucast (dst_low b)"

definition set_seq :: "u64 \<Rightarrow> EdgeBody_t_Dym \<Rightarrow> EdgeBody_t_Dym" where
  "set_seq seq b = b\<lparr>seq_high := ucast (drop_bit 32 seq AND 0xFFFF),
                    seq_low := ucast (seq AND 0xFFFFFFFF)\<rparr>"

definition get_seq :: "EdgeBody_t_Dym \<Rightarrow> u64" where
  "get_seq b = push_bit 32 (ucast (seq_high b)) + ucast (seq_low b)"

definition set_Offset :: "u32 \<Rightarrow> EdgeBody_t_Dym \<Rightarrow> EdgeBody_t_Dym" where
  "set_Offset p b =
     b\<lparr>prop_pointer := (p AND kPayloadMask) OR (prop_pointer b AND NOT kPayloadMask)\<rparr>"

definition get_Offset :: "EdgeBody_t_Dym \<Rightarrow> u32" where
  "get_Offset b = prop_pointer b AND kPayloadMask"

definition set_marker :: "bool \<Rightarrow> EdgeBody_t_Dym \<Rightarrow> EdgeBody_t_Dym" where
  "set_marker marker b =
     b\<lparr>prop_pointer := (prop_pointer b AND NOT kMarkerMask) OR push_bit 31 (of_bool marker)\<rparr>"

definition get_marker :: "EdgeBody_t_Dym \<Rightarrow> bool" where
  "get_marker b \<longleftrightarrow> drop_bit 31 (prop_pointer b) AND 1 \<noteq> 0"

definition set_is_out :: "bool \<Rightarrow> EdgeBody_t_Dym \<Rightarrow> EdgeBody_t_Dym" where
  "set_is_out is_out b =
     b\<lparr>prop_pointer := (prop_pointer b AND NOT kIsOutMask) OR push_bit 30 (of_bool is_out)\<rparr>"

definition get_is_out :: "EdgeBody_t_Dym \<Rightarrow> bool" where
  "get_is_out b \<longleftrightarrow> drop_bit 30 (prop_pointer b) AND 1 \<noteq> 0"

definition set_edge_type :: "u8 \<Rightarrow> EdgeBody_t_Dym \<Rightarrow> EdgeBody_t_Dym" where
  "set_edge_type edge_type b =
     b\<lparr>prop_pointer := (prop_pointer b AND NOT kEdgeTypeMask) OR
                      (push_bit kEdgeTypeShift (ucast edge_type) AND kEdgeTypeMask)\<rparr>"

definition get_edge_type :: "EdgeBody_t_Dym \<Rightarrow> u8" where
  "get_edge_type b = ucast (drop_bit kEdgeTypeShift (prop_pointer b AND kEdgeTypeMask))"

text \<open>The constructor. Only \<^verbatim>\<open>prop_pointer\<close> has an initialiser; the four halves are
  all assigned by the first two calls, so their initial contents do not matter.\<close>

definition mk_EdgeBody ::
  "VertexId_t \<Rightarrow> SequenceNumber_t \<Rightarrow> u32 \<Rightarrow> bool \<Rightarrow> bool \<Rightarrow> u8 \<Rightarrow> EdgeBody_t_Dym" where
  "mk_EdgeBody dst seq p marker is_out edge_type =
     set_edge_type edge_type (set_is_out is_out (set_marker marker (set_Offset p
       (set_seq seq (set_dst dst
         \<lparr>prop_pointer = 0, dst_low = 0, seq_low = 0, dst_high = 0, seq_high = 0\<rparr>)))))"

definition EdgeBody_less :: "EdgeBody_t_Dym \<Rightarrow> EdgeBody_t_Dym \<Rightarrow> bool" where
  "EdgeBody_less rhs1 rhs2 =
     (if get_dst rhs1 < get_dst rhs2 then True
      else if get_dst rhs1 = get_dst rhs2 then get_seq rhs1 > get_seq rhs2 else False)"

text \<open>The struct in memory: the fields in declaration order, little endian, no padding.\<close>

definition EdgeBody_image :: "EdgeBody_t_Dym \<Rightarrow> bytes" where
  "EdgeBody_image b = le_bytes 4 (prop_pointer b) @ le_bytes 4 (dst_low b) @
     le_bytes 4 (seq_low b) @ le_bytes 2 (dst_high b) @ le_bytes 2 (seq_high b)"

definition ReadUint32 :: "bytes \<Rightarrow> nat \<Rightarrow> u32" where
  "ReadUint32 data off = le_word (slice off 4 data)"

definition get_dst_raw :: "bytes \<Rightarrow> VertexId_t" where
  "get_dst_raw data =
     (let low = ReadUint32 data 4;
          high_part = ReadUint32 data 12;
          high = (ucast (high_part AND 0xFFFF) :: u16)
      in ucast low OR push_bit 32 (ucast high))"

definition get_seq_raw :: "bytes \<Rightarrow> SequenceNumber_t" where
  "get_seq_raw data =
     (let low = ReadUint32 data 8;
          high_part = ReadUint32 data 12;
          high = (ucast (drop_bit 16 high_part AND 0xFFFF) :: u16)
      in ucast low OR push_bit 32 (ucast high))"

definition get_marker_raw :: "bytes \<Rightarrow> bool" where
  "get_marker_raw data \<longleftrightarrow> drop_bit 31 (ReadUint32 data 0) AND 1 \<noteq> 0"

section \<open>Lemmas\<close>

lemmas edge_masks = kMarkerMask_def kIsOutMask_def kEdgeTypeShift_def kEdgeTypeMask_def
  kPayloadMask_def

lemmas edge_ops = set_dst_def get_dst_def set_seq_def get_seq_def set_Offset_def get_Offset_def
  set_marker_def get_marker_def set_is_out_def get_is_out_def set_edge_type_def get_edge_type_def

text \<open>The masks as bit ranges.\<close>

lemma mask_bits [simp]:
  "bit kMarkerMask n \<longleftrightarrow> n = 31"
  "bit kIsOutMask n \<longleftrightarrow> n = 30"
  "bit kEdgeTypeMask n \<longleftrightarrow> 22 \<le> n \<and> n < 30"
  "bit kPayloadMask n \<longleftrightarrow> n < 22"
proof -
  have 1: "kMarkerMask = push_bit 31 (mask 1)" "kIsOutMask = push_bit 30 (mask 1)"
    "kEdgeTypeMask = push_bit 22 (mask 8)" "kPayloadMask = mask 22"
    by (simp_all add: edge_masks mask_eq_exp_minus_1 push_bit_eq_mult)
  show "bit kMarkerMask n \<longleftrightarrow> n = 31" "bit kIsOutMask n \<longleftrightarrow> n = 30"
    "bit kEdgeTypeMask n \<longleftrightarrow> 22 \<le> n \<and> n < 30" "bit kPayloadMask n \<longleftrightarrow> n < 22"
    unfolding 1 by (simp_all only: bit_push_bit_iff bit_mask_iff, auto)
qed

lemma halves_48:
  "push_bit 32 (ucast (ucast (drop_bit 32 w AND 0xFFFF) :: u16)) +
     ucast (ucast (w AND 0xFFFFFFFF) :: u32) = take_bit 48 (w :: u64)"
proof -
  have m: "(0xFFFF :: u64) = mask 16" "(0xFFFFFFFF :: u64) = mask 32"
    by (simp_all add: mask_eq_exp_minus_1)
  have "push_bit 32 (ucast (ucast (drop_bit 32 w AND mask 16) :: u16)) +
      ucast (ucast (w AND mask 32) :: u32) =
    push_bit 32 (ucast (ucast (drop_bit 32 w AND mask 16) :: u16)) OR
      (ucast (ucast (w AND mask 32) :: u32) :: u64)"
    by (rule disjunctive_add) (auto simp: bit_simps)
  also have "\<dots> = take_bit 48 w"
    by (rule bit_word_eqI) (auto simp: bit_simps not_le)
  finally show ?thesis by (simp only: m)
qed

lemma halves_or:
  fixes h :: u16 and l :: u32
  shows "push_bit 32 (ucast h) + ucast l = (ucast l OR push_bit 32 (ucast h) :: u64)"
  by (subst or.commute, rule disjunctive_add) (auto simp: bit_simps dest: bit_imp_le_length)

lemma get_set_dst [simp]: "get_dst (set_dst v b) = take_bit 48 v"
  by (simp add: edge_ops halves_48)

lemma get_set_seq [simp]: "get_seq (set_seq v b) = take_bit 48 v"
  by (simp add: edge_ops halves_48)

lemma flag_bits:
  "get_marker b \<longleftrightarrow> bit (prop_pointer b) 31"
  "get_is_out b \<longleftrightarrow> bit (prop_pointer b) 30"
  by (simp_all add: edge_ops and_one_eq mod2_eq_if bit_iff_odd_drop_bit)

lemma edge_type_bits: "bit (get_edge_type b) n \<longleftrightarrow> n < 8 \<and> bit (prop_pointer b) (22 + n)"
  by (auto simp: edge_ops bit_simps kEdgeTypeShift_def)

lemma get_set_packed [simp]:
  "get_marker (set_marker m b) = m" "get_marker (set_is_out d b) = get_marker b"
  "get_marker (set_edge_type t b) = get_marker b" "get_marker (set_Offset p b) = get_marker b"
  "get_is_out (set_marker m b) = get_is_out b" "get_is_out (set_is_out d b) = d"
  "get_is_out (set_edge_type t b) = get_is_out b" "get_is_out (set_Offset p b) = get_is_out b"
  by (simp_all add: flag_bits)
    (auto simp: set_marker_def set_is_out_def set_edge_type_def set_Offset_def bit_simps
      kEdgeTypeShift_def)

lemma get_set_edge_type [simp]:
  "get_edge_type (set_edge_type t b) = t" "get_edge_type (set_marker m b) = get_edge_type b"
  "get_edge_type (set_is_out d b) = get_edge_type b" "get_edge_type (set_Offset p b) = get_edge_type b"
  by (rule bit_word_eqI; simp add: edge_type_bits;
      auto simp: set_marker_def set_is_out_def set_edge_type_def set_Offset_def bit_simps
      kEdgeTypeShift_def)+

lemma get_set_Offset [simp]:
  "get_Offset (set_Offset p b) = p AND kPayloadMask" "get_Offset (set_marker m b) = get_Offset b"
  "get_Offset (set_is_out d b) = get_Offset b" "get_Offset (set_edge_type t b) = get_Offset b"
  by (rule bit_word_eqI; auto simp: get_Offset_def set_marker_def set_is_out_def
      set_edge_type_def set_Offset_def bit_simps kEdgeTypeShift_def)+

lemma get_set_frame [simp]:
  "get_dst (set_seq v b) = get_dst b" "get_dst (set_Offset p b) = get_dst b"
  "get_dst (set_marker m b) = get_dst b" "get_dst (set_is_out d b) = get_dst b"
  "get_dst (set_edge_type t b) = get_dst b"
  "get_seq (set_dst v b) = get_seq b" "get_seq (set_Offset p b) = get_seq b"
  "get_seq (set_marker m b) = get_seq b" "get_seq (set_is_out d b) = get_seq b"
  "get_seq (set_edge_type t b) = get_seq b"
  "prop_pointer (set_dst v b) = prop_pointer b" "prop_pointer (set_seq v b) = prop_pointer b"
  by (simp_all add: edge_ops)

lemma get_mk_EdgeBody:
  assumes "dst \<le> kInvalidVertexId" "seq \<le> kMaxSequence"
  shows "get_dst (mk_EdgeBody dst seq p marker is_out edge_type) = dst"
    "get_seq (mk_EdgeBody dst seq p marker is_out edge_type) = seq"
    "get_Offset (mk_EdgeBody dst seq p marker is_out edge_type) = take_bit 22 p"
    "get_marker (mk_EdgeBody dst seq p marker is_out edge_type) = marker"
    "get_is_out (mk_EdgeBody dst seq p marker is_out edge_type) = is_out"
    "get_edge_type (mk_EdgeBody dst seq p marker is_out edge_type) = edge_type"
proof -
  have "take_bit 48 w = w" if "w \<le> 0xFFFFFFFFFFFF" for w :: u64
  proof -
    have "w < 2 ^ 48" using that by (simp add: word_le_nat_alt word_less_nat_alt)
    then show ?thesis by (simp add: take_bit_eq_mod word_arith_nat_mod word_less_nat_alt)
  qed
  moreover have "p AND kPayloadMask = take_bit 22 p"
    by (rule bit_word_eqI) (auto simp: bit_simps)
  ultimately show "get_dst (mk_EdgeBody dst seq p marker is_out edge_type) = dst"
    "get_seq (mk_EdgeBody dst seq p marker is_out edge_type) = seq"
    "get_Offset (mk_EdgeBody dst seq p marker is_out edge_type) = take_bit 22 p"
    "get_marker (mk_EdgeBody dst seq p marker is_out edge_type) = marker"
    "get_is_out (mk_EdgeBody dst seq p marker is_out edge_type) = is_out"
    "get_edge_type (mk_EdgeBody dst seq p marker is_out edge_type) = edge_type"
    using assms by (simp_all add: mk_EdgeBody_def kInvalidVertexId_def kMaxSequence_def)
qed

text \<open>C33. Packing an edge body loses nothing that the asserts allow: an edge built from a 48-bit
  destination and sequence, an offset, the delete marker, the direction and an edge type gives
  back each of them (the offset cut to its 22 payload bits), so the three values that share
  one 32-bit word never overwrite each other.\<close>

theorem EdgeBody_roundtrip:
  assumes "dst \<le> kInvalidVertexId" "seq \<le> kMaxSequence"
  shows "get_dst (mk_EdgeBody dst seq p marker is_out edge_type) = dst \<and>
    get_seq (mk_EdgeBody dst seq p marker is_out edge_type) = seq \<and>
    get_Offset (mk_EdgeBody dst seq p marker is_out edge_type) = take_bit 22 p \<and>
    get_marker (mk_EdgeBody dst seq p marker is_out edge_type) = marker \<and>
    get_is_out (mk_EdgeBody dst seq p marker is_out edge_type) = is_out \<and>
    get_edge_type (mk_EdgeBody dst seq p marker is_out edge_type) = edge_type"
  by (simp add: get_mk_EdgeBody [OF assms])

theorem EdgeBody_roundtrip_witness:
  "get_dst (mk_EdgeBody 0x123456789ABC 77 0 True False 255) = 0x123456789ABC \<and>
   get_edge_type (mk_EdgeBody 0x123456789ABC 77 0 True False 255) = 255 \<and>
   \<not> get_is_out (mk_EdgeBody 0x123456789ABC 77 0 True False 255)"
  using EdgeBody_roundtrip [where dst = "0x123456789ABC" and seq = 77 and p = 0
      and marker = True and is_out = False and edge_type = 255]
  by (simp add: kInvalidVertexId_def kMaxSequence_def)

lemma raw_accessors:
  "get_dst_raw (EdgeBody_image b @ rest) = get_dst b"
  "get_seq_raw (EdgeBody_image b @ rest) = get_seq b"
  "get_marker_raw (EdgeBody_image b @ rest) = get_marker b"
proof -
  have img: "slice 0 4 (EdgeBody_image b @ rest) = le_bytes 4 (prop_pointer b)"
    "slice 4 4 (EdgeBody_image b @ rest) = le_bytes 4 (dst_low b)"
    "slice 8 4 (EdgeBody_image b @ rest) = le_bytes 4 (seq_low b)"
    "slice 12 4 (EdgeBody_image b @ rest) = le_bytes 2 (dst_high b) @ le_bytes 2 (seq_high b)"
    by (simp_all add: EdgeBody_image_def layout) (simp add: slice_def)
  have two: "le_word (le_bytes 2 x @ le_bytes 2 y) = (ucast x OR push_bit 16 (ucast y) :: u32)"
    for x y :: u16
    by (simp add: le_word_append le_word_le_bytes_ucast take_bit_word_eq_self)
  have m: "(0xFFFF :: u32) = mask 16" by (simp add: mask_eq_exp_minus_1)
  have hi: "ucast ((ucast x OR push_bit 16 (ucast y) :: u32) AND 0xFFFF) = x"
    "ucast (drop_bit 16 (ucast x OR push_bit 16 (ucast y) :: u32) AND 0xFFFF) = y" for x y :: u16
    by (simp_all only: m) (rule bit_word_eqI, auto simp: bit_simps dest: bit_imp_le_length)+
  show "get_dst_raw (EdgeBody_image b @ rest) = get_dst b" "get_seq_raw (EdgeBody_image b @ rest) = get_seq b"
    "get_marker_raw (EdgeBody_image b @ rest) = get_marker b"
    by (simp_all add: get_dst_raw_def get_seq_raw_def get_marker_raw_def ReadUint32_def img two hi
        get_dst_def get_seq_def get_marker_def halves_or del: drop_bit_or)
qed

text \<open>C37. The accessors that read a mapped table in place agree with the unpacking ones: pointed at
  any edge body of the mapped bytes they return its destination, sequence and delete marker.\<close>

theorem raw_accessors_agree:
  "get_dst_raw (EdgeBody_image b @ rest) = get_dst b \<and> get_seq_raw (EdgeBody_image b @ rest) = get_seq b \<and>
   get_marker_raw (EdgeBody_image b @ rest) = get_marker b"
  by (simp add: raw_accessors)

lemma get_seq_bound: "uint (get_seq b) < 2 ^ 48"
proof -
  have "get_seq b = take_bit 48 (get_seq b)"
    by (rule bit_word_eqI) (auto simp: get_seq_def halves_or bit_simps dest: bit_imp_le_length)
  then have "uint (get_seq b) = take_bit 48 (uint (get_seq b))" by (metis unsigned_take_bit_eq)
  then show ?thesis by (metis take_bit_int_less_exp)
qed

text \<open>The order of edge bodies: by destination, newest version first.\<close>

lemma EdgeBody_less_key:
  "EdgeBody_less a b \<longleftrightarrow> (get_dst a, - uint (get_seq a)) < (get_dst b, - uint (get_seq b))"
proof -
  have "get_seq a > get_seq b \<longleftrightarrow> - uint (get_seq a) < - uint (get_seq b)"
    by (simp add: word_less_def)
  then show ?thesis by (auto simp: EdgeBody_less_def)
qed

end
