(* ===== verification/FixedLayout.thy ===== *)
theory FixedLayout
  imports Types
begin

text \<open>
  The fixed-width property column layout (\<^verbatim>\<open>core/fixed_property_layout.h\<close>): the
  thread-local width override, the slot of an edge in a column file, and the padded
  slot codec. A column file is its list of bytes; a store outside it is undefined
  behaviour in the source and \<open>None\<close> here.
\<close>

section \<open>Definitions\<close>

text \<open>The thread's override pointer (\<open>None\<close> is \<^verbatim>\<open>nullptr\<close>) and the two process flags.\<close>

record layout_env =
  tls_fixed_property_lengths :: "u32 list option"
  FLAGS_sub_property_num :: u32
  FLAGS_max_property_length :: u32

definition ScopedFixedPropertyLayout_enter ::
  "u32 list option \<Rightarrow> layout_env \<Rightarrow> u32 list option \<times> layout_env" where
  "ScopedFixedPropertyLayout_enter property_lengths env =
     (tls_fixed_property_lengths env,
      (case property_lengths of
         Some ls \<Rightarrow> if ls \<noteq> [] then env\<lparr>tls_fixed_property_lengths := property_lengths\<rparr>
                    else env\<lparr>tls_fixed_property_lengths := None\<rparr>
       | None \<Rightarrow> env\<lparr>tls_fixed_property_lengths := None\<rparr>))"

definition ScopedFixedPropertyLayout_exit :: "u32 list option \<Rightarrow> layout_env \<Rightarrow> layout_env" where
  "ScopedFixedPropertyLayout_exit prev env = env\<lparr>tls_fixed_property_lengths := prev\<rparr>"

definition GetActiveSubPropertyNum :: "layout_env \<Rightarrow> int" where
  "GetActiveSubPropertyNum env =
     (case tls_fixed_property_lengths env of
        Some ls \<Rightarrow> if ls \<noteq> [] then c_int (length ls) else sint (FLAGS_sub_property_num env)
      | None \<Rightarrow> sint (FLAGS_sub_property_num env))"

definition BuildUniformSubPropertyLengths :: "int \<Rightarrow> u32 \<Rightarrow> u32 list" where
  "BuildUniformSubPropertyLengths property_num fixed_length =
     replicate (nat (max 1 property_num)) (max 1 fixed_length)"

definition GetSubPropertyFixedLength :: "layout_env \<Rightarrow> int \<Rightarrow> u32" where
  "GetSubPropertyFixedLength env sub_property_id =
     (if sub_property_id < 0 then max 1 (FLAGS_max_property_length env)
      else case tls_fixed_property_lengths env of
             Some ls \<Rightarrow> if sub_property_id < c_int (length ls) then ls ! nat sub_property_id
                        else max 1 (FLAGS_max_property_length env)
           | None \<Rightarrow> max 1 (FLAGS_max_property_length env))"

definition EDGEBODY_SIZE :: nat where
  "EDGEBODY_SIZE = 16"

definition GetEdgeOrdinalFromBodyOffset :: "u32 \<Rightarrow> u64" where
  "GetEdgeOrdinalFromBodyOffset body_offset_bytes =
     ucast (body_offset_bytes div word_of_nat EDGEBODY_SIZE)"

definition GetSubPropertyOffsetByEdgeOrdinal :: "layout_env \<Rightarrow> u64 \<Rightarrow> int \<Rightarrow> u64" where
  "GetSubPropertyOffsetByEdgeOrdinal env edge_ordinal sub_property_id =
     edge_ordinal * ucast (GetSubPropertyFixedLength env sub_property_id)"

text \<open>\<^verbatim>\<open>memset\<close> and \<^verbatim>\<open>memcpy\<close> into a byte image: overwrite the bytes at \<open>off\<close>.\<close>

definition store_at :: "nat \<Rightarrow> bytes \<Rightarrow> bytes \<Rightarrow> bytes option" where
  "store_at off bs mem =
     (if off + length bs \<le> length mem
      then Some (take off mem @ bs @ drop (off + length bs) mem) else None)"

definition WritePaddedSubPropertySlot ::
  "layout_env \<Rightarrow> bytes \<Rightarrow> nat \<Rightarrow> string \<Rightarrow> int \<Rightarrow> bytes option" where
  "WritePaddedSubPropertySlot env mem slot_begin src sub_property_id =
     (let slot_len = unat (GetSubPropertyFixedLength env sub_property_id);
          copy_len = min slot_len (length src)
      in case store_at slot_begin (replicate slot_len 0) mem of
           None \<Rightarrow> None
         | Some mem' \<Rightarrow>
             if copy_len > 0 then store_at slot_begin (bytes_of (take copy_len src)) mem'
             else Some mem')"

function TrimTrailingZero :: "string \<Rightarrow> string" where
  "TrimTrailingZero v =
     (if v \<noteq> [] \<and> last v = CHR 0x00 then TrimTrailingZero (butlast v) else v)"
  by pat_completeness auto
termination
  by (relation "measure length") auto

declare TrimTrailingZero.simps [simp del]

definition ReadSubPropertyFromSlot :: "layout_env \<Rightarrow> bytes \<Rightarrow> nat \<Rightarrow> int \<Rightarrow> string option" where
  "ReadSubPropertyFromSlot env mem slot_begin sub_property_id =
     (let slot_len = unat (GetSubPropertyFixedLength env sub_property_id)
      in if slot_begin + slot_len \<le> length mem
         then Some (TrimTrailingZero (string_of (slice slot_begin slot_len mem))) else None)"

section \<open>Lemmas\<close>

lemma TrimTrailingZero_append_zeros [simp]:
  "TrimTrailingZero (v @ replicate n (CHR 0x00)) = TrimTrailingZero v"
proof (induction n)
  case (Suc n)
  have "v @ replicate (Suc n) (CHR 0x00) = (v @ replicate n (CHR 0x00)) @ [CHR 0x00]"
    by (simp add: replicate_append_same)
  then show ?case
    using Suc TrimTrailingZero.simps [of "(v @ replicate n (CHR 0x00)) @ [CHR 0x00]"]
    by (simp only: butlast_snoc last_snoc) simp
qed simp

lemma TrimTrailingZero_id [simp]: "v = [] \<or> last v \<noteq> CHR 0x00 \<Longrightarrow> TrimTrailingZero v = v"
  by (subst TrimTrailingZero.simps) auto

lemma TrimTrailingZero_decomp: "\<exists>n. v = TrimTrailingZero v @ replicate n (CHR 0x00)"
proof (induction v rule: TrimTrailingZero.induct)
  case (1 v)
  show ?case
  proof (cases "v \<noteq> [] \<and> last v = CHR 0x00")
    case True
    with 1 obtain n where "butlast v = TrimTrailingZero (butlast v) @ replicate n (CHR 0x00)"
      by blast
    with True have "v = TrimTrailingZero v @ replicate n (CHR 0x00) @ [CHR 0x00]"
      by (metis TrimTrailingZero.simps append_assoc append_butlast_last_id)
    then show ?thesis by (metis replicate_append_same replicate_Suc)
  next
    case False
    then have "v = TrimTrailingZero v @ replicate 0 (CHR 0x00)" by auto
    then show ?thesis by blast
  qed
qed

lemma string_of_append [simp, codec]: "string_of (xs @ ys) = string_of xs @ string_of ys"
  by (simp add: string_of_def)

lemma string_of_zeros [simp]: "string_of (replicate n 0) = replicate n (CHR 0x00)"
  by (simp add: string_of_def char_of_def)

text \<open>The image one padded write leaves behind.\<close>

lemma WritePadded_image:
  assumes "slot_begin + unat (GetSubPropertyFixedLength env i) \<le> length mem"
  shows "WritePaddedSubPropertySlot env mem slot_begin src i =
    Some (take slot_begin mem @
          bytes_of (take (unat (GetSubPropertyFixedLength env i)) src) @
          replicate (unat (GetSubPropertyFixedLength env i) - length src) 0 @
          drop (slot_begin + unat (GetSubPropertyFixedLength env i)) mem)"
proof -
  define L where "L = unat (GetSubPropertyFixedLength env i)"
  have [simp]: "min slot_begin (length mem) = slot_begin" "slot_begin \<le> length mem"
    using assms by simp_all
  have *: "take (min L (length src)) src = take L src" by (simp add: min_def)
  show ?thesis
    using assms
    by (cases "L = 0 \<or> src = []")
      (auto simp: WritePaddedSubPropertySlot_def store_at_def Let_def L_def [symmetric] *
        bytes_of_def drop_replicate min_def)
qed

text \<open>Distinct ordinals of a column own disjoint slots.\<close>

lemma slots_disjoint: "j < k \<Longrightarrow> j * L + L \<le> k * (L::nat)"
  by (metis Suc_leI add.commute mult_Suc mult_le_mono1)

lemma unat_slot_offset:
  assumes "(unat k + 1) * unat (GetSubPropertyFixedLength env i) \<le> length mem" "length mem < 2 ^ 64"
  shows "unat (GetSubPropertyOffsetByEdgeOrdinal env k i) =
         unat k * unat (GetSubPropertyFixedLength env i)"
proof -
  have "unat k * unat (GetSubPropertyFixedLength env i) < 2 ^ 64"
    using assms by (simp add: add_mult_distrib)
  then show ?thesis
    by (simp add: GetSubPropertyOffsetByEdgeOrdinal_def unat_word_ariths unat_ucast_widen)
qed

lemma slot_write_read:
  assumes "(unat k + 1) * unat (GetSubPropertyFixedLength env i) \<le> length mem"
    and "(unat j + 1) * unat (GetSubPropertyFixedLength env i) \<le> length mem"
    and "length mem < 2 ^ 64"
  shows "\<exists>mem'. WritePaddedSubPropertySlot env mem
                  (unat (GetSubPropertyOffsetByEdgeOrdinal env k i)) v i = Some mem' \<and>
           length mem' = length mem \<and>
           ReadSubPropertyFromSlot env mem' (unat (GetSubPropertyOffsetByEdgeOrdinal env j i)) i =
             (if j = k
              then Some (TrimTrailingZero (take (unat (GetSubPropertyFixedLength env i)) v))
              else ReadSubPropertyFromSlot env mem
                     (unat (GetSubPropertyOffsetByEdgeOrdinal env j i)) i)"
proof -
  define L where "L = unat (GetSubPropertyFixedLength env i)"
  define o1 where "o1 = unat k * L"
  define o2 where "o2 = unat j * L"
  have off: "unat (GetSubPropertyOffsetByEdgeOrdinal env k i) = o1"
    "unat (GetSubPropertyOffsetByEdgeOrdinal env j i) = o2"
    using assms by (simp_all add: unat_slot_offset o1_def o2_def L_def)
  have in1: "o1 + L \<le> length mem" and in2: "o2 + L \<le> length mem"
    using assms by (simp_all add: o1_def o2_def L_def add_mult_distrib)
  define slot where "slot = bytes_of (take L v) @ replicate (L - length v) 0"
  define mem' where "mem' = take o1 mem @ slot @ drop (o1 + L) mem"
  have [simp]: "length slot = L" by (auto simp: slot_def min_def)
  have w: "WritePaddedSubPropertySlot env mem o1 v i = Some mem'"
    using WritePadded_image [of o1 env i mem v] in1 by (simp add: L_def mem'_def slot_def)
  have len: "length mem' = length mem" using in1 by (simp add: mem'_def)
  have same: "slice o1 L mem' = slot" using in1 by (simp add: mem'_def slice_def)
  have other: "slice o2 L mem' = slice o2 L mem" if "j \<noteq> k"
  proof (cases "unat j < unat k")
    case True
    then have "o2 + L \<le> o1" unfolding o1_def o2_def by (rule slots_disjoint)
    with in1 show ?thesis by (simp add: mem'_def slice_def take_drop min_def)
  next
    case False
    with that have "unat k < unat j" by (simp add: nat_less_le word_unat_eq_iff)
    then have "o1 + L \<le> o2" unfolding o1_def o2_def by (rule slots_disjoint)
    with in1 show ?thesis by (simp add: mem'_def slice_def)
  qed
  have "ReadSubPropertyFromSlot env mem' o2 i =
    (if j = k then Some (TrimTrailingZero (take L v)) else ReadSubPropertyFromSlot env mem o2 i)"
    using in2 len same other
    by (auto simp: ReadSubPropertyFromSlot_def Let_def L_def [symmetric] o1_def o2_def slot_def)
  with w len off show ?thesis by (auto simp: L_def)
qed

text \<open>C32. A column file behaves as an array of slots. Writing a value into the slot of one edge
  ordinal always succeeds inside the file and keeps the file's size; that slot then reads back
  the value cut to the column width with trailing zero bytes removed, and the slot of every
  other ordinal in the file reads what it read before.\<close>

theorem column_slot_write_read:
  assumes "(unat k + 1) * unat (GetSubPropertyFixedLength env i) \<le> length mem"
    and "(unat j + 1) * unat (GetSubPropertyFixedLength env i) \<le> length mem"
    and "length mem < 2 ^ 64"
  shows "\<exists>mem'. WritePaddedSubPropertySlot env mem
                  (unat (GetSubPropertyOffsetByEdgeOrdinal env k i)) v i = Some mem' \<and>
           length mem' = length mem \<and>
           ReadSubPropertyFromSlot env mem' (unat (GetSubPropertyOffsetByEdgeOrdinal env j i)) i =
             (if j = k
              then Some (TrimTrailingZero (take (unat (GetSubPropertyFixedLength env i)) v))
              else ReadSubPropertyFromSlot env mem
                     (unat (GetSubPropertyOffsetByEdgeOrdinal env j i)) i)"
  using assms by (rule slot_write_read)

theorem column_slot_write_read_witness:
  "\<exists>mem'. WritePaddedSubPropertySlot
       \<lparr>tls_fixed_property_lengths = Some [4], FLAGS_sub_property_num = 1, FLAGS_max_property_length = 8\<rparr>
       (replicate 8 7) 4 ''ab'' 0 = Some mem' \<and> length mem' = 8 \<and>
     ReadSubPropertyFromSlot
       \<lparr>tls_fixed_property_lengths = Some [4], FLAGS_sub_property_num = 1, FLAGS_max_property_length = 8\<rparr>
       mem' 4 0 = Some ''ab''"
  using column_slot_write_read [of 1
      "\<lparr>tls_fixed_property_lengths = Some [4], FLAGS_sub_property_num = 1, FLAGS_max_property_length = 8\<rparr>"
      0 "replicate 8 7" 1 "''ab''"]
  by (simp add: GetSubPropertyFixedLength_def GetSubPropertyOffsetByEdgeOrdinal_def)



end
