(* ===== verification/DeltaRecord.thy ===== *)
theory DeltaRecord
  imports Types
begin

text \<open>
  Property delta records (\<^verbatim>\<open>core/property_delta.h\<close>, the comparison helpers of
  \<^verbatim>\<open>src/property_delta.cpp\<close>) and the abstract meaning of a collection of them: a version
  store in which a reader at a commit sequence sees, for a logical key, the version with the
  greatest commit sequence that is not newer than the reader.
\<close>

section \<open>Definitions\<close>

subsection \<open>Data\<close>

datatype PropertyObjectKind = kNode | kEdge

primrec kind_byte :: "PropertyObjectKind \<Rightarrow> u8" where
  "kind_byte kNode = 1"
| "kind_byte kEdge = 2"

record PropertyDeltaTarget =
  t_kind :: PropertyObjectKind
  t_shard_id :: u32
  t_base_file_id :: FileId_t
  t_base_generation :: u64
  t_property_id :: u32

definition target_eq :: "PropertyDeltaTarget \<Rightarrow> PropertyDeltaTarget \<Rightarrow> bool" where
  "target_eq a b \<longleftrightarrow> t_kind a = t_kind b \<and> t_shard_id a = t_shard_id b \<and>
     t_base_file_id a = t_base_file_id b \<and> t_base_generation a = t_base_generation b \<and>
     t_property_id a = t_property_id b"

record PropertyDeltaRecord =
  r_src :: VertexId_t
  r_dst :: VertexId_t
  r_base_sequence :: SequenceNumber_t
  r_commit_sequence :: PropertyCommitSequence
  r_is_out :: bool
  r_edge_type :: u8
  r_value :: string

record PropertyDeltaFileMetadata =
  m_target :: PropertyDeltaTarget
  m_file_generation :: u64
  m_record_count :: u64
  m_file_bytes :: u64
  m_min_commit_sequence :: PropertyCommitSequence
  m_max_commit_sequence :: PropertyCommitSequence
  m_payload_checksum :: u64

subsection \<open>Comparisons\<close>

definition CompareLogicalKey :: "PropertyDeltaRecord \<Rightarrow> PropertyDeltaRecord \<Rightarrow> int" where
  "CompareLogicalKey lhs rhs =
     (if r_src lhs \<noteq> r_src rhs then (if r_src lhs < r_src rhs then -1 else 1)
      else if r_dst lhs \<noteq> r_dst rhs then (if r_dst lhs < r_dst rhs then -1 else 1)
      else if r_is_out lhs \<noteq> r_is_out rhs then (if r_is_out lhs then 1 else -1)
      else if r_edge_type lhs \<noteq> r_edge_type rhs
      then (if r_edge_type lhs < r_edge_type rhs then -1 else 1)
      else if r_base_sequence lhs \<noteq> r_base_sequence rhs
      then (if sint (r_base_sequence lhs) < sint (r_base_sequence rhs) then -1 else 1)
      else 0)"

definition RecordLess :: "PropertyDeltaRecord \<Rightarrow> PropertyDeltaRecord \<Rightarrow> bool" where
  "RecordLess lhs rhs =
     (let key_comparison = CompareLogicalKey lhs rhs
      in if key_comparison \<noteq> 0 then key_comparison < 0
         else r_commit_sequence lhs < r_commit_sequence rhs)"

definition SameVersion :: "PropertyDeltaRecord \<Rightarrow> PropertyDeltaRecord \<Rightarrow> bool" where
  "SameVersion lhs rhs \<longleftrightarrow>
     CompareLogicalKey lhs rhs = 0 \<and> r_commit_sequence lhs = r_commit_sequence rhs"

text \<open>The deduplication loop of \<^verbatim>\<open>PropertyDeltaFile::Create\<close>: a record with the same version as
  the last one kept replaces it.\<close>

definition dedup_step :: "PropertyDeltaRecord list \<Rightarrow> PropertyDeltaRecord \<Rightarrow> PropertyDeltaRecord list" where
  "dedup_step deduplicated r =
     (if deduplicated \<noteq> [] \<and> SameVersion (last deduplicated) r
      then butlast deduplicated @ [r] else deduplicated @ [r])"

definition dedup :: "PropertyDeltaRecord list \<Rightarrow> PropertyDeltaRecord list" where
  "dedup records = foldl dedup_step [] records"

definition prepare_records :: "PropertyDeltaRecord list \<Rightarrow> PropertyDeltaRecord list" where
  "prepare_records records = dedup (stable_sort RecordLess records)"

subsection \<open>Abstract meaning\<close>

type_synonym logical_key = "u64 \<times> u64 \<times> bool \<times> u8 \<times> int"
type_synonym version = "logical_key \<times> u64"

definition key_of :: "VertexId_t \<Rightarrow> VertexId_t \<Rightarrow> bool \<Rightarrow> u8 \<Rightarrow> SequenceNumber_t \<Rightarrow> logical_key" where
  "key_of src dst is_out edge_type base = (src, dst, is_out, edge_type, sint base)"

definition rkey :: "PropertyDeltaRecord \<Rightarrow> logical_key" where
  "rkey r = key_of (r_src r) (r_dst r) (r_is_out r) (r_edge_type r) (r_base_sequence r)"

definition rversion :: "PropertyDeltaRecord \<Rightarrow> version" where
  "rversion r = (rkey r, r_commit_sequence r)"

text \<open>The newest record of a key that a reader may see; of two records of one version, the
  later in the list.\<close>

definition newer :: "PropertyDeltaRecord option \<Rightarrow> PropertyDeltaRecord option \<Rightarrow> PropertyDeltaRecord option" where
  "newer a b = (case b of None \<Rightarrow> a
     | Some rb \<Rightarrow> (case a of None \<Rightarrow> b
         | Some ra \<Rightarrow> if r_commit_sequence ra \<le> r_commit_sequence rb then b else a))"

primrec newest :: "logical_key \<Rightarrow> PropertyCommitSequence \<Rightarrow> PropertyDeltaRecord list \<Rightarrow>
    PropertyDeltaRecord option" where
  "newest k s [] = None"
| "newest k s (r # rs) =
     newer (if rkey r = k \<and> r_commit_sequence r \<le> s then Some r else None) (newest k s rs)"

text \<open>The record a collection holds for one version: the last one written.\<close>

primrec held :: "version \<Rightarrow> PropertyDeltaRecord list \<Rightarrow> PropertyDeltaRecord option" where
  "held v [] = None"
| "held v (r # rs) = (case held v rs of None \<Rightarrow> if rversion r = v then Some r else None
                                       | Some r' \<Rightarrow> Some r')"

section \<open>Lemmas\<close>

subsection \<open>The comparisons are the lexicographic order of versions\<close>

lemma target_eq_iff [simp]: "target_eq a b \<longleftrightarrow> a = b"
  by (auto simp: target_eq_def intro: PropertyDeltaTarget.equality)

lemma CompareLogicalKey_less: "CompareLogicalKey a b < 0 \<longleftrightarrow> rkey a < rkey b"
  by (auto simp: CompareLogicalKey_def rkey_def key_of_def less_le)

lemma CompareLogicalKey_zero: "CompareLogicalKey a b = 0 \<longleftrightarrow> rkey a = rkey b"
  by (simp add: CompareLogicalKey_def rkey_def key_of_def)

lemma RecordLess_version: "RecordLess a b \<longleftrightarrow> rversion a < rversion b"
  using CompareLogicalKey_less [of a b] CompareLogicalKey_zero [of a b]
  by (auto simp: RecordLess_def rversion_def Let_def)

lemma SameVersion_version: "SameVersion a b \<longleftrightarrow> rversion a = rversion b"
  by (simp add: SameVersion_def CompareLogicalKey_zero rversion_def)

lemma stable_sort_RecordLess: "stable_sort RecordLess rs = sort_key rversion rs"
  by (rule stable_sort_sort_key) (rule RecordLess_version)

subsection \<open>Versions held\<close>

lemma held_append: "held v (xs @ ys) = (case held v ys of None \<Rightarrow> held v xs | Some r \<Rightarrow> Some r)"
  by (induction xs) (auto split: option.splits)

lemma held_Some: "held v rs = Some r \<Longrightarrow> r \<in> set rs \<and> rversion r = v"
  by (induction rs) (auto split: option.splits if_splits)

lemma held_None: "held v rs = None \<longleftrightarrow> (\<forall>r. r \<in> set rs \<longrightarrow> rversion r \<noteq> v)"
  by (induction rs) (auto split: option.splits)

lemma held_filter:
  "held v rs = (let ys = filter (\<lambda>r. rversion r = v) rs in if ys = [] then None else Some (last ys))"
proof (induction rs)
  case (Cons r rs)
  then show ?case by (cases "filter (\<lambda>r. rversion r = v) rs = []") (auto simp: Let_def)
qed simp

lemma held_sort [simp]: "held v (sort_key rversion rs) = held v rs"
  by (simp add: held_filter sort_key_stable)

lemma held_dedup_step: "held v (dedup_step acc r) = held v (acc @ [r])"
proof (cases "acc \<noteq> [] \<and> SameVersion (last acc) r")
  case True
  then obtain xs y where "acc = xs @ [y]" by (metis append_butlast_last_id)
  with True show ?thesis
    by (auto simp: dedup_step_def SameVersion_version held_append)
next
  case False
  then show ?thesis by (auto simp: dedup_step_def)
qed

lemma held_dedup [simp]: "held v (dedup rs) = held v rs"
proof -
  have "held v (foldl dedup_step acc rs) = held v (acc @ rs)" for acc
    by (induction rs arbitrary: acc) (auto simp: held_dedup_step held_append split: option.splits)
  then show ?thesis by (simp add: dedup_def)
qed

lemma held_prepare [simp]: "held v (prepare_records rs) = held v rs"
  by (simp add: prepare_records_def stable_sort_RecordLess)

subsection \<open>The newest visible version\<close>

lemma newer_None [simp]: "newer a None = a" "newer None b = b"
  by (auto simp: newer_def split: option.splits)

lemma newer_assoc: "newer (newer a b) c = newer a (newer b c)"
  by (auto simp: newer_def split: option.splits)

lemma newest_append: "newest k s (xs @ ys) = newer (newest k s xs) (newest k s ys)"
  by (induction xs) (simp_all add: newer_assoc)

lemma newest_concat: "newest k s (concat xss) = foldr (\<lambda>xs. newer (newest k s xs)) xss None"
  by (induction xss) (simp_all add: newest_append)

lemma newest_None:
  "newest k s rs = None \<longleftrightarrow> (\<forall>r. r \<in> set rs \<longrightarrow> \<not> (rkey r = k \<and> r_commit_sequence r \<le> s))"
  by (induction rs) (auto simp: newer_def split: option.splits)

lemma newest_Some:
  assumes "newest k s rs = Some r"
  shows "rkey r = k \<and> r_commit_sequence r \<le> s \<and> held (rversion r) rs = Some r \<and>
    (\<forall>r'. r' \<in> set rs \<and> rkey r' = k \<and> r_commit_sequence r' \<le> s \<longrightarrow>
          r_commit_sequence r' \<le> r_commit_sequence r)"
  using assms
proof (induction rs arbitrary: r)
  case (Cons x rs)
  show ?case
  proof (cases "newest k s rs")
    case None
    with Cons.prems have "r = x" "rkey x = k" "r_commit_sequence x \<le> s" by (auto split: if_splits)
    moreover have "held (rversion x) rs = None"
      using calculation None by (auto simp: newest_None held_None rversion_def)
    ultimately show ?thesis using None by (auto simp: newest_None)
  next
    case (Some y)
    with Cons.IH have y: "rkey y = k" "r_commit_sequence y \<le> s" "held (rversion y) rs = Some y"
      "\<And>r'. r' \<in> set rs \<Longrightarrow> rkey r' = k \<Longrightarrow> r_commit_sequence r' \<le> s \<Longrightarrow>
        r_commit_sequence r' \<le> r_commit_sequence y" by auto
    show ?thesis
    proof (cases "r = y")
      case True
      with Cons.prems Some y show ?thesis
        by (auto simp: newer_def split: if_splits)
    next
      case False
      with Cons.prems Some have x: "r = x" "rkey x = k" "r_commit_sequence x \<le> s"
        "r_commit_sequence y < r_commit_sequence x"
        by (auto simp: newer_def split: if_splits)
      have "held (rversion x) rs = None"
        using x y(4) by (force simp: held_None rversion_def)
      with x y(4) show ?thesis by force
    qed
  qed
qed simp

text \<open>What readers see depends only on the version each collection holds.\<close>

lemma newest_held_cong:
  assumes "\<And>v. held v xs = held v ys"
  shows "newest k s xs = newest k s ys"
proof -
  have sub: "newest k s xs = newest k s ys"
    if h: "\<And>v. held v xs = held v ys" and some: "newest k s xs = Some r" for xs ys r
  proof -
    have r: "rkey r = k" "r_commit_sequence r \<le> s" "held (rversion r) ys = Some r"
      using newest_Some [OF some] h by auto
    moreover have "r \<in> set ys" using held_Some [OF r(3)] by simp
    ultimately have "newest k s ys \<noteq> None" by (auto simp: newest_None)
    then obtain r2 where r2: "newest k s ys = Some r2" by blast
    have "held (rversion r2) xs = Some r2" using newest_Some [OF r2] h by simp
    then have "r_commit_sequence r2 \<le> r_commit_sequence r"
      using newest_Some [OF some] newest_Some [OF r2] held_Some by blast
    moreover have "r_commit_sequence r \<le> r_commit_sequence r2"
      using newest_Some [OF r2] r held_Some by blast
    ultimately have "rversion r2 = rversion r"
      using r newest_Some [OF r2] by (simp add: rversion_def)
    then have "r2 = r" using r newest_Some [OF r2] by simp
    with some r2 show ?thesis by simp
  qed
  show ?thesis
  proof (cases "newest k s xs")
    case (Some r)
    then show ?thesis using sub [OF assms] by simp
  next
    case None
    then show ?thesis using sub [of ys xs] assms by (cases "newest k s ys") auto
  qed
qed

lemma newest_prepare [simp]: "newest k s (prepare_records rs) = newest k s rs"
  by (rule newest_held_cong) simp

subsection \<open>Prepared records\<close>

lemma dedup_step_sorted:
  assumes "sorted_wrt (<) (map rversion acc)" "\<And>x. x \<in> set acc \<Longrightarrow> rversion x \<le> rversion r"
  shows "sorted_wrt (<) (map rversion (dedup_step acc r))"
proof (cases "acc = []")
  case True
  then show ?thesis by (simp add: dedup_step_def)
next
  case False
  then obtain xs y where acc: "acc = xs @ [y]" by (metis append_butlast_last_id)
  have below: "rversion x < rversion y" if "x \<in> set xs" for x
    using assms(1) that by (auto simp: acc sorted_wrt_append)
  have "rversion y \<le> rversion r" using assms(2) acc by simp
  with below have "rversion x < rversion r" if "x \<in> set xs" for x
    using that order.strict_trans2 by blast
  with below assms show ?thesis
    by (auto simp: acc dedup_step_def SameVersion_version sorted_wrt_append less_le)
qed

lemma set_dedup_step: "set (dedup_step acc r) \<subseteq> insert r (set acc)"
  by (auto simp: dedup_step_def dest: in_set_butlastD)

lemma prepare_sorted: "sorted_wrt (<) (map rversion (prepare_records rs))"
proof -
  have "sorted_wrt (<) (map rversion (foldl dedup_step acc rs))"
    if "sorted_wrt (<) (map rversion acc)" "sorted (map rversion rs)"
      "\<And>x r. x \<in> set acc \<Longrightarrow> r \<in> set rs \<Longrightarrow> rversion x \<le> rversion r" for acc rs
    using that
  proof (induction rs arbitrary: acc)
    case (Cons r rs)
    then show ?case
      using set_dedup_step [of acc r] by (auto intro!: Cons.IH dedup_step_sorted)
  qed simp
  from this [of "[]" "sort_key rversion rs"] show ?thesis
    by (simp add: prepare_records_def dedup_def stable_sort_RecordLess)
qed

lemma prepare_subset: "set (prepare_records rs) \<subseteq> set rs"
proof -
  have "set (foldl dedup_step acc rs) \<subseteq> set acc \<union> set rs" for acc rs
  proof (induction rs arbitrary: acc)
    case (Cons r rs)
    from Cons.IH [of "dedup_step acc r"] set_dedup_step [of acc r] show ?case by auto
  qed simp
  from this [of "[]" "sort_key rversion rs"] show ?thesis
    by (simp add: prepare_records_def dedup_def stable_sort_RecordLess)
qed

lemma prepare_nonempty [simp]: "prepare_records rs = [] \<longleftrightarrow> rs = []"
proof
  assume "prepare_records rs = []"
  then have "held v rs = None" for v by (metis held.simps(1) held_prepare)
  then have "r \<notin> set rs" for r by (metis held_None)
  then show "rs = []" by (cases rs) auto
qed (simp add: prepare_records_def dedup_def stable_sort_def)

lemma rversions_prepare: "rversion ` set (prepare_records rs) = rversion ` set rs"
proof
  show "rversion ` set rs \<subseteq> rversion ` set (prepare_records rs)"
  proof
    fix v assume "v \<in> rversion ` set rs"
    then have "held v rs \<noteq> None" by (auto simp: held_None)
    then have "held v (prepare_records rs) \<noteq> None" by simp
    then show "v \<in> rversion ` set (prepare_records rs)" unfolding held_None by auto
  qed
qed (use prepare_subset in auto)

subsection \<open>Reading a sorted collection\<close>

text \<open>In version order, the newest visible version of a key is the last record not above
  \<open>(k, s)\<close>, if that record has the key.\<close>

lemma newest_sorted:
  assumes "sorted (map rversion xs)" "j \<le> length xs"
    and cut: "\<And>i. i < length xs \<Longrightarrow> rversion (xs ! i) \<le> (k, s) \<longleftrightarrow> i < j"
  shows "newest k s xs = (if 0 < j \<and> rkey (xs ! (j - 1)) = k then Some (xs ! (j - 1)) else None)"
proof -
  have hi: "newest k s (drop j xs) = None"
    unfolding newest_None
  proof (intro allI impI notI)
    fix r assume "r \<in> set (drop j xs)" and vis: "rkey r = k \<and> r_commit_sequence r \<le> s"
    then obtain i where "i < length (drop j xs)" "r = drop j xs ! i" by (auto simp: in_set_conv_nth)
    then have "r = xs ! (j + i)" "j + i < length xs" using assms(2) by simp_all
    with cut [of "j + i"] vis show False by (simp add: rversion_def)
  qed
  have "newest k s xs = newest k s (take j xs @ drop j xs)" by simp
  then have eq: "newest k s xs = newest k s (take j xs)" by (simp only: newest_append hi newer_None)
  show ?thesis
  proof (cases j)
    case 0
    with eq show ?thesis by simp
  next
    case (Suc m)
    define x where "x = xs ! m"
    have split: "take j xs = take m xs @ [x]"
      using Suc assms(2) by (simp add: take_Suc_conv_app_nth x_def)
    have below: "rversion r \<le> rversion x" if "r \<in> set (take m xs)" for r
    proof -
      have "sorted (map rversion (take m xs @ [x]))"
        using assms(1) by (metis split sorted_wrt_take take_map)
      with that show ?thesis by (simp add: sorted_append)
    qed
    have x: "rversion x \<le> (k, s)" using cut [of m] Suc assms(2) by (simp add: x_def)
    show ?thesis
    proof (cases "rkey x = k")
      case True
      then have "r_commit_sequence x \<le> s" using x by (simp add: rversion_def)
      moreover have "newer (newest k s (take m xs)) (Some x) = Some x"
      proof (cases "newest k s (take m xs)")
        case (Some y)
        from newest_Some [OF this] have "rkey y = k" "y \<in> set (take m xs)"
          using held_Some by blast+
        with below [of y] True Some show ?thesis by (simp add: newer_def rversion_def)
      qed simp
      ultimately show ?thesis
        using True Suc eq split by (simp add: newest_append x_def)
    next
      case False
      then have lt: "rkey x < k" using x by (auto simp: rversion_def)
      have "newest k s (take m xs) = None"
        unfolding newest_None
      proof (intro allI impI notI)
        fix r assume "r \<in> set (take m xs)" "rkey r = k \<and> r_commit_sequence r \<le> s"
        with below [of r] lt show False by (auto simp: rversion_def)
      qed
      with False Suc eq split show ?thesis by (simp add: newest_append x_def)
    qed
  qed
qed

lemma newest_sorted_absent:
  assumes "\<And>i. i < length xs \<Longrightarrow> rkey (xs ! i) \<noteq> k"
  shows "newest k s xs = None"
  using assms by (auto simp: newest_None in_set_conv_nth)

text \<open>The two searches every reader performs: first the lower bound of the key, then from there
  the end of the versions a reader may see.\<close>

lemma search_key:
  assumes "sorted (map rversion xs)"
    and p: "\<And>i. i < length xs \<Longrightarrow> p i \<longleftrightarrow> rkey (xs ! i) < k" and "i < length xs"
  shows "rkey (xs ! i) < k \<longleftrightarrow> i < bsearch p 0 (length xs)"
proof -
  have "p i \<longleftrightarrow> i < bsearch p 0 (length xs)"
  proof (rule bsearch_partition)
    fix a b assume ab: "a \<le> b" "b < length xs" "p b"
    have "rversion (xs ! a) \<le> rversion (xs ! b)"
      using sorted_nth_mono [OF assms(1) ab(1)] ab by simp
    then have "rkey (xs ! a) \<le> rkey (xs ! b)" by (auto simp: rversion_def)
    with ab show "p a" using p [of a] p [of b] by (auto intro: le_less_trans)
  qed (use assms in auto)
  with p assms(3) show ?thesis by simp
qed

lemma search_version:
  assumes "sorted (map rversion xs)" "first \<le> length xs"
    and p: "\<And>i. i < length xs \<Longrightarrow> p i \<longleftrightarrow> rversion (xs ! i) \<le> v"
    and below: "\<And>i. i < first \<Longrightarrow> rversion (xs ! i) \<le> v" and "i < length xs"
  shows "rversion (xs ! i) \<le> v \<longleftrightarrow> i < bsearch p first (length xs)"
proof (cases "first \<le> i")
  case True
  have "p i \<longleftrightarrow> i < bsearch p first (length xs)"
  proof (rule bsearch_partition)
    fix a b assume ab: "a \<le> b" "b < length xs" "p b"
    have "rversion (xs ! a) \<le> rversion (xs ! b)"
      using sorted_nth_mono [OF assms(1) ab(1)] ab by simp
    with ab show "p a" using p [of a] p [of b] by (auto intro: order_trans)
  qed (use assms True in auto)
  with p assms(5) show ?thesis by simp
next
  case False
  with below bsearch_bounds [OF assms(2), of p] show ?thesis by auto
qed

lemma lookup_search:
  assumes srt: "sorted (map rversion xs)"
    and p1: "\<And>i. i < length xs \<Longrightarrow> p1 i \<longleftrightarrow> rkey (xs ! i) < k"
    and p2: "\<And>i. i < length xs \<Longrightarrow> p2 i \<longleftrightarrow> rversion (xs ! i) \<le> (k, s)"
    and first: "first = bsearch p1 0 (length xs)" and low: "low = bsearch p2 first (length xs)"
  shows "newest k s xs =
    (if first = length xs \<or> rkey (xs ! first) \<noteq> k \<or> low = first then None else Some (xs ! (low - 1)))"
    and "first \<noteq> length xs \<Longrightarrow> rkey (xs ! first) = k \<Longrightarrow> low \<noteq> first \<Longrightarrow>
      low - 1 < length xs \<and> rkey (xs ! (low - 1)) = k \<and> r_commit_sequence (xs ! (low - 1)) \<le> s"
proof -
  have le: "first \<le> length xs" using bsearch_bounds [of 0 "length xs" p1] first by simp
  have key: "rkey (xs ! i) < k \<longleftrightarrow> i < first" if "i < length xs" for i
    using search_key [OF srt, of p1 k i] p1 that first by simp
  have cut: "rversion (xs ! i) \<le> (k, s) \<longleftrightarrow> i < low" if "i < length xs" for i
    unfolding low
  proof (rule search_version [OF srt le p2 _ that])
    fix j assume "j < first"
    with key le show "rversion (xs ! j) \<le> (k, s)" by (simp add: rversion_def)
  qed
  have ll: "first \<le> low" "low \<le> length xs" using bsearch_bounds [OF le, of p2] low by simp_all
  note nw = newest_sorted [OF srt ll(2) cut]
  have sel: "low - 1 < length xs \<and> rkey (xs ! (low - 1)) = k \<and> r_commit_sequence (xs ! (low - 1)) \<le> s"
    if "low \<noteq> first"
  proof -
    have i: "low - 1 < length xs" "low - 1 < low" "\<not> low - 1 < first" using that ll by auto
    then have "rversion (xs ! (low - 1)) \<le> (k, s)" "\<not> rkey (xs ! (low - 1)) < k"
      using cut key by blast+
    with i show ?thesis by (auto simp: rversion_def)
  qed
  then show "low - 1 < length xs \<and> rkey (xs ! (low - 1)) = k \<and> r_commit_sequence (xs ! (low - 1)) \<le> s"
    if "low \<noteq> first" using that by blast
  show "newest k s xs =
    (if first = length xs \<or> rkey (xs ! first) \<noteq> k \<or> low = first then None else Some (xs ! (low - 1)))"
  proof (cases "first = length xs \<or> rkey (xs ! first) \<noteq> k")
    case True
    have "rkey (xs ! i) \<noteq> k" if "i < length xs" for i
    proof (cases "i < first")
      case False
      then have "first < length xs" "\<not> rkey (xs ! first) < k" using that key [of first] by auto
      moreover have "rkey (xs ! first) \<le> rkey (xs ! i)"
        using sorted_nth_mono [OF srt, of first i] False that by (auto simp: rversion_def)
      ultimately show ?thesis using True by auto
    qed (use key that in auto)
    with newest_sorted_absent True show ?thesis by auto
  next
    case False
    have "0 < low \<and> rkey (xs ! (low - 1)) = k \<longleftrightarrow> low \<noteq> first"
    proof
      assume *: "0 < low \<and> rkey (xs ! (low - 1)) = k"
      show "low \<noteq> first"
      proof
        assume "low = first"
        moreover have "low - 1 < length xs" using * ll by linarith
        ultimately have "rkey (xs ! (low - 1)) < k" using key [of "low - 1"] * by simp
        with * show False by simp
      qed
    qed (use sel ll in auto)
    with nw False show ?thesis by auto
  qed
qed

end
