(* ===== verification/SstSearch.thy ===== *)
theory SstSearch
  imports EdgeBody FixedLayout DeltaRecord
begin

text \<open>
  Searching a sorted string table: the source index of \<^verbatim>\<open>SSTableCache\<close> (\<^verbatim>\<open>src/SSTable.cpp\<close>), the search
  for an edge in the packed bodies of one source, the ordinal a property delta refers to, and the scan
  for the next topology sequence (\<^verbatim>\<open>src/lsmstore.cpp\<close>). Edge data is the byte image of the table's
  bodies; a position is a byte offset, an \<^verbatim>\<open>int\<close> in the source and here.
\<close>

section \<open>Definitions\<close>

record Index =
  ix_key :: VertexId_t
  ix_offset :: u32

text \<open>What \<^verbatim>\<open>SSTableCache\<close> and the \<^verbatim>\<open>SSTDataCache\<close> it registers hold of one table.\<close>

record SstTable =
  s_time_stamp :: u64
  s_size :: u64
  s_min_key :: VertexId_t
  s_max_key :: VertexId_t
  s_indexes :: "Index list"
  s_edge_data :: bytes
  s_property_data :: "bytes list"
  s_newest_edge :: SequenceNumber_t

subsection \<open>The source index\<close>

function SST_find :: "Index list \<Rightarrow> VertexId_t \<Rightarrow> int \<Rightarrow> int \<Rightarrow> int" where
  "SST_find indexes key start stop =
     (if start \<le> stop
      then let mid = start + (stop - start) div 2 in
        if ix_key (indexes ! nat mid) = key then mid
        else if ix_key (indexes ! nat mid) < key then SST_find indexes key (mid + 1) stop
        else SST_find indexes key start (mid - 1)
      else - 1)"
  by pat_completeness auto
termination
  by (relation "measure (\<lambda>(indexes, key, start, stop). nat (stop - start + 1))") auto

declare SST_find.simps [simp del]

definition SST_get :: "SstTable \<Rightarrow> VertexId_t \<Rightarrow> int" where
  "SST_get t src = SST_find (s_indexes t) src 0 (int (length (s_indexes t)) - 1)"

text \<open>\<^verbatim>\<open>low_bound\<close> over the index: both overloads search the half-open range.\<close>

definition SST_low_bound :: "Index list \<Rightarrow> VertexId_t \<Rightarrow> nat \<Rightarrow> nat \<Rightarrow> nat" where
  "SST_low_bound indexes key start stop = bsearch (\<lambda>i. ix_key (indexes ! i) < key) start stop"

subsection \<open>Edges of one source\<close>

definition body_at :: "bytes \<Rightarrow> int \<Rightarrow> EdgeBody_t_Dym" where
  "body_at body_buffer pos =
     (let bs = slice (nat pos) 16 body_buffer
      in \<lparr> prop_pointer = le_word (slice 0 4 bs), dst_low = le_word (slice 4 4 bs),
           seq_low = le_word (slice 8 4 bs), dst_high = le_word (slice 12 2 bs),
           seq_high = le_word (slice 14 2 bs) \<rparr>)"

function edge_lower_bound :: "bytes \<Rightarrow> VertexId_t \<Rightarrow> int \<Rightarrow> int \<Rightarrow> int" where
  "edge_lower_bound body_buffer dst left right =
     (if left < right
      then let mid = left + (right - left) div 2 div 16 * 16 in
        if get_dst (body_at body_buffer mid) \<ge> dst
        then edge_lower_bound body_buffer dst left mid
        else edge_lower_bound body_buffer dst (mid + 16) right
      else left)"
  by pat_completeness auto
termination
proof (relation "measure (\<lambda>(b, dst, left, right). nat (right - left))", goal_cases)
  case (2 b dst left right x)
  then have "(right - left) div 2 div 16 * 16 < right - left" by linarith
  with 2 show ?case by simp
next
  case (3 b dst left right x)
  then have "0 \<le> (right - left) div 2 div 16 * 16" by simp
  with 3 show ?case by simp
qed simp

declare edge_lower_bound.simps [simp del]

function edge_scan ::
  "bytes \<Rightarrow> int \<Rightarrow> VertexId_t \<Rightarrow> bool \<Rightarrow> u8 \<Rightarrow> int \<Rightarrow> Status \<times> int" where
  "edge_scan body_buffer high dst is_out edge_type pos =
     (if pos < high
      then let body = body_at body_buffer pos in
        if get_dst body \<noteq> dst then (kNotFound, - 1)
        else if get_is_out body \<noteq> is_out \<or> get_edge_type body \<noteq> edge_type
        then edge_scan body_buffer high dst is_out edge_type (pos + 16)
        else (if get_marker body then kDelete else kOk, pos)
      else (kNotFound, - 1))"
  by pat_completeness auto
termination
  by (relation "measure (\<lambda>(b, high, dst, is_out, edge_type, pos). nat (high - pos))") auto

declare edge_scan.simps [simp del]

definition FindEdgeByDstDirectionAndType ::
  "bytes \<Rightarrow> int \<Rightarrow> int \<Rightarrow> VertexId_t \<Rightarrow> bool \<Rightarrow> u8 \<Rightarrow> Status \<times> int" where
  "FindEdgeByDstDirectionAndType body_buffer low high dst is_out edge_type =
     (if low \<ge> high then (kNotFound, - 1)
      else edge_scan body_buffer high dst is_out edge_type
             (edge_lower_bound body_buffer dst low high))"

text \<open>\<^verbatim>\<open>LocateSstEdgeOrdinal\<close>; the missing table is a failed lookup in the data manager.\<close>

definition LocateSstEdgeOrdinal :: "SstTable option \<Rightarrow> PropertyDeltaRecord \<Rightarrow> u64 option" where
  "LocateSstEdgeOrdinal data r =
     (case data of None \<Rightarrow> None
      | Some t \<Rightarrow>
          let pos = SST_get t (r_src r) in
          if pos < 0 \<or> pos + 1 \<ge> int (length (s_indexes t)) then None
          else let begin_at = sint (ix_offset (s_indexes t ! nat pos));
                   end_at = sint (ix_offset (s_indexes t ! nat (pos + 1)));
                   (status, body_offset) =
                     FindEdgeByDstDirectionAndType (s_edge_data t) begin_at end_at (r_dst r)
                       (r_is_out r) (r_edge_type r)
               in if status \<noteq> kOk \<or> body_offset < 0 then None
                  else if get_seq_raw (drop (nat body_offset) (s_edge_data t)) \<noteq> r_base_sequence r
                  then None
                  else Some (GetEdgeOrdinalFromBodyOffset (word_of_int body_offset)))"

text \<open>\<^verbatim>\<open>ScanSstNextTopologySequence\<close>: the table's last body is a sentinel and is left out. Returns the
  next sequence and the table with its latest edge recorded.\<close>

fun scan_newest_seq :: "bytes \<Rightarrow> nat list \<Rightarrow> int \<Rightarrow> int" where
  "scan_newest_seq data [] latest = latest"
| "scan_newest_seq data (i # is) latest =
     scan_newest_seq data is (max latest (sint (get_seq_raw (drop (i * 16) data))))"

definition ScanSstNextTopologySequence :: "SstTable option \<Rightarrow> int \<times> SstTable option" where
  "ScanSstNextTopologySequence cache =
     (case cache of None \<Rightarrow> (0, None)
      | Some t \<Rightarrow>
          if s_size t \<le> 1 then (0, Some t)
          else let latest = scan_newest_seq (s_edge_data t) [0 ..< unat (s_size t - 1)] (- 1)
               in (if latest < 0 then 0 else latest + 1,
                   Some (t\<lparr>s_newest_edge := word_of_int (max 0 latest)\<rparr>)))"

section \<open>Lemmas\<close>

subsection \<open>The source index\<close>

lemma SST_find_step:
  assumes "start \<le> stop" "mid = start + (stop - start) div 2"
  shows "SST_find indexes key start stop =
    (if ix_key (indexes ! nat mid) = key then mid
     else if ix_key (indexes ! nat mid) < key then SST_find indexes key (mid + 1) stop
     else SST_find indexes key start (mid - 1))"
  using assms by (simp add: SST_find.simps [of indexes key start stop] Let_def)

text \<open>A position the search returns has the key; a position that has the key is returned.\<close>

lemma SST_find_sound:
  "SST_find indexes key start stop = - 1 \<or>
   start \<le> SST_find indexes key start stop \<and> SST_find indexes key start stop \<le> stop \<and>
   ix_key (indexes ! nat (SST_find indexes key start stop)) = key"
proof (induction indexes key start stop rule: SST_find.induct)
  case (1 indexes key start stop)
  define mid where "mid = start + (stop - start) div 2"
  show ?case
  proof (cases "start \<le> stop")
    case True
    then have "start \<le> mid" "mid \<le> stop" by (auto simp: mid_def)
    with 1 [OF True mid_def] show ?thesis
      by (auto simp: SST_find_step [OF True mid_def])
  qed (simp add: SST_find.simps [of indexes key start stop])
qed

lemma SST_find_hit:
  assumes "sorted_wrt (<) (map ix_key indexes)" "0 \<le> start" "stop < int (length indexes)"
    "start \<le> int i" "int i \<le> stop" "ix_key (indexes ! i) = key"
  shows "SST_find indexes key start stop = int i"
  using assms
proof (induction indexes key start stop rule: SST_find.induct)
  case (1 indexes key start stop)
  define mid where "mid = start + (stop - start) div 2"
  have le: "start \<le> stop" using "1.prems" by linarith
  then have mid: "start \<le> mid" "mid \<le> stop" by (auto simp: mid_def)
  have mono: "ix_key (indexes ! a) < ix_key (indexes ! b)" if "a < b" "int b \<le> stop" for a b
    using sorted_wrt_nth_less [OF "1.prems"(1), of a b] that "1.prems"(3) by simp
  consider "i = nat mid" | "i < nat mid" | "nat mid < i" by linarith
  then show ?case
  proof cases
    case 1
    then show ?thesis using "1.prems" mid by (simp add: SST_find_step [OF le mid_def])
  next
    case 2
    then have "ix_key (indexes ! nat mid) > key" using mono [of i "nat mid"] "1.prems" mid by simp
    then have "\<not> ix_key (indexes ! nat mid) < key" "ix_key (indexes ! nat mid) \<noteq> key" by auto
    with 2 show ?thesis unfolding SST_find_step [OF le mid_def]
      using "1.IH"(2) [OF le mid_def] "1.prems" mid by auto
  next
    case 3
    then have "ix_key (indexes ! nat mid) < key" using mono [of "nat mid" i] "1.prems" by simp
    then have "ix_key (indexes ! nat mid) < key" "ix_key (indexes ! nat mid) \<noteq> key" by auto
    with 3 show ?thesis unfolding SST_find_step [OF le mid_def]
      using "1.IH"(1) [OF le mid_def] "1.prems" mid by auto
  qed
qed

lemma SST_get_hit:
  assumes "sorted_wrt (<) (map ix_key (s_indexes t))" "i < length (s_indexes t)"
    "ix_key (s_indexes t ! i) = src"
  shows "SST_get t src = int i"
  using assms by (auto simp: SST_get_def intro!: SST_find_hit)

lemma SST_get_miss: "src \<notin> ix_key ` set (s_indexes t) \<Longrightarrow> SST_get t src = - 1"
  using SST_find_sound [of "s_indexes t" src 0 "int (length (s_indexes t)) - 1"]
  by (metis SST_get_def imageI nat_less_iff nth_mem zle_diff1_eq)

subsection \<open>Edges of one source\<close>

lemma body_at_image:
  assumes "i < length es"
  shows "body_at (concat (map EdgeBody_image es) @ post) (int (16 * i)) = es ! i"
proof -
  have len: "length (EdgeBody_image b) = 16" for b by (simp add: EdgeBody_image_def)
  have "slice (i * 16) 16 (concat (map EdgeBody_image es) @ post) = EdgeBody_image (es ! i)"
    using assms len by (intro slice_concat) auto
  then have "body_at (concat (map EdgeBody_image es) @ post) (int (16 * i)) =
      body_at (EdgeBody_image (es ! i)) 0"
    by (simp add: body_at_def mult.commute slice_all len nat_mult_distrib)
  also have "\<dots> = es ! i"
    by (rule EdgeBody_t_Dym.equality) (simp_all add: body_at_def EdgeBody_image_def layout)
  finally show ?thesis .
qed

text \<open>The search in terms of ordinals: \<open>first_edge\<close> is the first body in the range that matches.\<close>

definition edge_matches :: "VertexId_t \<Rightarrow> bool \<Rightarrow> u8 \<Rightarrow> EdgeBody_t_Dym \<Rightarrow> bool" where
  "edge_matches dst is_out et b \<longleftrightarrow> get_dst b = dst \<and> get_is_out b = is_out \<and> get_edge_type b = et"

definition first_edge ::
  "EdgeBody_t_Dym list \<Rightarrow> nat \<Rightarrow> nat \<Rightarrow> VertexId_t \<Rightarrow> bool \<Rightarrow> u8 \<Rightarrow> nat option" where
  "first_edge es a b dst is_out et = List.find (\<lambda>i. edge_matches dst is_out et (es ! i)) [a ..< b]"

lemma find_append_None: "List.find P xs = None \<Longrightarrow> List.find P (xs @ ys) = List.find P ys"
  by (induction xs) (auto split: if_splits)

text \<open>Bodies \<open>a\<close> to \<open>b\<close> of a buffer, in the order of their destinations.\<close>

definition edge_run :: "bytes \<Rightarrow> (nat \<Rightarrow> EdgeBody_t_Dym) \<Rightarrow> nat \<Rightarrow> nat \<Rightarrow> bool" where
  "edge_run buf body a b \<longleftrightarrow>
     (\<forall>i < b. body_at buf (int (16 * i)) = body i) \<and>
     (\<forall>i j. a \<le> i \<and> i \<le> j \<and> j < b \<longrightarrow> get_dst (body i) \<le> get_dst (body j))"

lemma edge_runD:
  assumes "edge_run buf body a b"
  shows "i < b \<Longrightarrow> body_at buf (int (16 * i)) = body i"
    and "a \<le> i \<Longrightarrow> i \<le> j \<Longrightarrow> j < b \<Longrightarrow> get_dst (body i) \<le> get_dst (body j)"
  using assms by (auto simp: edge_run_def)

lemma edge_lower_bound_partition:
  assumes run: "edge_run buf body a b" and "a \<le> l" "l \<le> r" "r \<le> b"
  shows "\<exists>m. edge_lower_bound buf dst (int (16 * l)) (int (16 * r)) = int (16 * m) \<and> l \<le> m \<and> m \<le> r \<and>
    (\<forall>i. l \<le> i \<and> i < m \<longrightarrow> get_dst (body i) < dst) \<and>
    (\<forall>i. m \<le> i \<and> i < r \<longrightarrow> dst \<le> get_dst (body i))"
  using assms(2-)
proof (induction "r - l" arbitrary: l r rule: less_induct)
  case less
  show ?case
  proof (cases "l < r")
    case False
    with less.prems have "l = r" by simp
    then show ?thesis
      by (intro exI [of _ l]) (auto simp: edge_lower_bound.simps [of buf dst "16 * int r"])
  next
    case True
    define k where "k = l + (r - l) div 2"
    have k: "l \<le> k" "k < r" using True by (auto simp: k_def)
    have mid: "int (16 * l) + (int (16 * r) - int (16 * l)) div 2 div 16 * 16 = int (16 * k)"
      using True by (simp add: k_def of_nat_diff zdiv_int)
    have step: "edge_lower_bound buf dst (int (16 * l)) (int (16 * r)) =
        (if dst \<le> get_dst (body k) then edge_lower_bound buf dst (int (16 * l)) (int (16 * k))
         else edge_lower_bound buf dst (int (16 * (k + 1))) (int (16 * r)))"
      using True k less.prems edge_runD(1) [OF run, of k]
      unfolding edge_lower_bound.simps [of buf dst "int (16 * l)" "int (16 * r)"] mid
      by (simp add: algebra_simps)
    show ?thesis
    proof (cases "dst \<le> get_dst (body k)")
      case ge: True
      have "k - l < r - l" using k by simp
      from less.hyps [OF this] less.prems k obtain m where
        m: "edge_lower_bound buf dst (int (16 * l)) (int (16 * k)) = int (16 * m)" "l \<le> m" "m \<le> k"
          "\<forall>i. l \<le> i \<and> i < m \<longrightarrow> get_dst (body i) < dst" "\<forall>i. m \<le> i \<and> i < k \<longrightarrow> dst \<le> get_dst (body i)"
        by (auto simp del: of_nat_mult)
      have "dst \<le> get_dst (body i)" if "m \<le> i" "i < r" for i
        using that m(5) ge edge_runD(2) [OF run, of k i] less.prems k by (cases "i < k") auto
      with m k ge step show ?thesis by (intro exI [of _ m]) auto
    next
      case lt: False
      have "r - (k + 1) < r - l" using k by simp
      from less.hyps [OF this] less.prems k obtain m where
        m: "edge_lower_bound buf dst (int (16 * (k + 1))) (int (16 * r)) = int (16 * m)" "k + 1 \<le> m" "m \<le> r"
          "\<forall>i. k + 1 \<le> i \<and> i < m \<longrightarrow> get_dst (body i) < dst" "\<forall>i. m \<le> i \<and> i < r \<longrightarrow> dst \<le> get_dst (body i)"
        by (auto simp del: of_nat_mult of_nat_add)
      have "get_dst (body i) < dst" if "l \<le> i" "i < m" for i
        using that m(4) lt edge_runD(2) [OF run, of i k] less.prems k by (cases "i \<le> k") auto
      with m k lt step show ?thesis by (intro exI [of _ m]) auto
    qed
  qed
qed

lemma edge_scan_first:
  assumes run: "edge_run buf body a b" and "a \<le> m" "m \<le> b" "\<forall>i. m \<le> i \<and> i < b \<longrightarrow> dst \<le> get_dst (body i)"
  shows "edge_scan buf (int (16 * b)) dst is_out et (int (16 * m)) =
    (case List.find (\<lambda>i. edge_matches dst is_out et (body i)) [m ..< b] of
       None \<Rightarrow> (kNotFound, - 1)
     | Some i \<Rightarrow> (if get_marker (body i) then kDelete else kOk, int (16 * i)))"
  using assms(2-)
proof (induction "b - m" arbitrary: m)
  case 0
  then show ?case by (simp add: edge_scan.simps [of buf "16 * int m"])
next
  case (Suc n)
  then have lt: "m < b" by simp
  have upt: "[m ..< b] = m # [Suc m ..< b]" using lt by (rule upt_conv_Cons)
  have next_pos: "int (16 * m) + 16 = int (16 * Suc m)" by simp
  have step: "edge_scan buf (int (16 * b)) dst is_out et (int (16 * m)) =
      (if get_dst (body m) \<noteq> dst then (kNotFound, - 1)
       else if get_is_out (body m) \<noteq> is_out \<or> get_edge_type (body m) \<noteq> et
       then edge_scan buf (int (16 * b)) dst is_out et (int (16 * Suc m))
       else (if get_marker (body m) then kDelete else kOk, int (16 * m)))"
    using lt edge_runD(1) [OF run lt]
    unfolding edge_scan.simps [of buf "int (16 * b)" dst is_out et "int (16 * m)"] next_pos Let_def
    by simp
  show ?case
  proof (cases "get_dst (body m) = dst")
    case True
    have "edge_scan buf (int (16 * b)) dst is_out et (int (16 * Suc m)) =
      (case List.find (\<lambda>i. edge_matches dst is_out et (body i)) [Suc m ..< b] of
         None \<Rightarrow> (kNotFound, - 1)
       | Some i \<Rightarrow> (if get_marker (body i) then kDelete else kOk, int (16 * i)))"
      using Suc.hyps(2) Suc.prems lt by (intro Suc.hyps(1)) auto
    with True step show ?thesis by (auto simp: upt edge_matches_def)
  next
    case False
    have "dst < get_dst (body i)" if "m \<le> i" "i < b" for i
      using edge_runD(2) [OF run, of m i] Suc.prems that False lt by (auto simp: order.order_iff_strict intro: less_le_trans)
    then have "List.find (\<lambda>i. edge_matches dst is_out et (body i)) [m ..< b] = None"
      by (auto simp: find_None_iff edge_matches_def)
    with False step show ?thesis by simp
  qed
qed

lemma find_edge_first:
  assumes run: "edge_run buf body a b" and "a \<le> b"
  shows "FindEdgeByDstDirectionAndType buf (int (16 * a)) (int (16 * b)) dst is_out et =
    (case List.find (\<lambda>i. edge_matches dst is_out et (body i)) [a ..< b] of
       None \<Rightarrow> (kNotFound, - 1)
     | Some i \<Rightarrow> (if get_marker (body i) then kDelete else kOk, int (16 * i)))"
proof (cases "a < b")
  case True
  obtain m where m: "edge_lower_bound buf dst (int (16 * a)) (int (16 * b)) = int (16 * m)" "a \<le> m" "m \<le> b"
    "\<forall>i. a \<le> i \<and> i < m \<longrightarrow> get_dst (body i) < dst" "\<forall>i. m \<le> i \<and> i < b \<longrightarrow> dst \<le> get_dst (body i)"
    using edge_lower_bound_partition [OF run, of a b dst] assms by blast
  have split: "[a ..< b] = [a ..< m] @ [m ..< b]" using m(2,3) by (metis le_add_diff_inverse upt_add_eq_append)
  have "List.find (\<lambda>i. edge_matches dst is_out et (body i)) [a ..< m] = None"
    using m(4) by (auto simp: find_None_iff edge_matches_def)
  then have "List.find (\<lambda>i. edge_matches dst is_out et (body i)) [a ..< b] =
      List.find (\<lambda>i. edge_matches dst is_out et (body i)) [m ..< b]"
    by (simp add: split find_append_None)
  with edge_scan_first [OF run m(2,3,5)] True m(1) show ?thesis by (simp add: FindEdgeByDstDirectionAndType_def)
qed (use assms in \<open>simp add: FindEdgeByDstDirectionAndType_def\<close>)

subsection \<open>A well-formed table\<close>

text \<open>The tables the store writes: the data is the bodies in a row, the index is strictly ordered by
  source and ends in a sentinel, an entry's offset is the byte position of the source's first body, and
  the bodies of one source are in the order of the memory table: by destination, newest first.\<close>

definition sst_run_ok :: "EdgeBody_t_Dym list \<Rightarrow> nat \<Rightarrow> nat \<Rightarrow> bool" where
  "sst_run_ok es a b \<longleftrightarrow> a \<le> b \<and> b \<le> length es \<and>
     sorted_wrt (\<lambda>x y. \<not> EdgeBody_less y x) (take (b - a) (drop a es))"

definition sst_ok :: "SstTable \<Rightarrow> EdgeBody_t_Dym list \<Rightarrow> nat list \<Rightarrow> bool" where
  "sst_ok t es starts \<longleftrightarrow>
     s_edge_data t = concat (map EdgeBody_image es) \<and> 16 * length es < 2 ^ 31 \<and>
     sorted_wrt (<) (map ix_key (s_indexes t)) \<and> length starts = length (s_indexes t) \<and>
     map ix_offset (s_indexes t) = map (\<lambda>i. word_of_nat (16 * i)) starts \<and>
     (\<forall>p < length starts - 1. sst_run_ok es (starts ! p) (starts ! Suc p))"

lemma sst_run_nth:
  assumes "sst_run_ok es a b" "a \<le> i" "i < j" "j < b"
  shows "\<not> EdgeBody_less (es ! j) (es ! i)"
proof -
  have "\<not> EdgeBody_less (take (b - a) (drop a es) ! (j - a)) (take (b - a) (drop a es) ! (i - a))"
    using assms by (intro sorted_wrt_nth_less [where P = "\<lambda>x y. \<not> EdgeBody_less y x"]) (auto simp: sst_run_ok_def)
  then show ?thesis using assms by (simp add: sst_run_ok_def)
qed

lemma sst_run_dst:
  assumes "sst_run_ok es a b" "a \<le> i" "i \<le> j" "j < b"
  shows "get_dst (es ! i) \<le> get_dst (es ! j)"
  using sst_run_nth [OF assms(1,2), of j] assms by (cases "i = j") (auto simp: EdgeBody_less_def split: if_splits)

lemma sst_find_edge:
  assumes "sst_ok t es starts" "Suc p < length (s_indexes t)"
  shows "FindEdgeByDstDirectionAndType (s_edge_data t) (sint (ix_offset (s_indexes t ! p)))
      (sint (ix_offset (s_indexes t ! Suc p))) dst is_out et =
    (case first_edge es (starts ! p) (starts ! Suc p) dst is_out et of
       None \<Rightarrow> (kNotFound, - 1)
     | Some i \<Rightarrow> (if get_marker (es ! i) then kDelete else kOk, int (16 * i)))"
proof -
  have len: "length starts = length (s_indexes t)" and small: "16 * length es < 2 ^ 31"
    and run: "sst_run_ok es (starts ! p) (starts ! Suc p)"
    using assms by (auto simp: sst_ok_def)
  have off: "ix_offset (s_indexes t ! q) = word_of_nat (16 * starts ! q)" if "q < length starts" for q
    using assms that len by (metis (no_types, lifting) nth_map sst_ok_def)
  have range: "starts ! p \<le> length es" "starts ! Suc p \<le> length es" "starts ! p \<le> starts ! Suc p"
    using run by (auto simp: sst_run_ok_def)
  have sint: "sint (word_of_nat (16 * n) :: u32) = int (16 * n)" if "n \<le> length es" for n
    using that small by (subst signed_of_nat) (simp add: signed_take_bit_int_eq_self)
  have run_loc: "edge_run (s_edge_data t) ((!) es) (starts ! p) (starts ! Suc p)"
    using assms(1) run range body_at_image [of _ es "[]"] sst_run_dst [OF run]
    by (auto simp: sst_ok_def edge_run_def)
  show ?thesis
    using find_edge_first [OF run_loc range(3)] off sint range len assms(2)
    by (simp add: first_edge_def)
qed

lemma get_seq_raw_image:
  assumes "i < length es"
  shows "get_seq_raw (drop (16 * i) (concat (map EdgeBody_image es))) = get_seq (es ! i)"
proof -
  have len: "length (EdgeBody_image b) = 16" for b by (simp add: EdgeBody_image_def)
  have "drop (16 * i) (concat (map EdgeBody_image es)) = EdgeBody_image (es ! i) @ concat (map EdgeBody_image (drop (Suc i) es))"
    using assms
  proof (induction es arbitrary: i)
    case (Cons e es)
    then show ?case by (cases i) (simp_all add: len)
  qed simp
  then show ?thesis by (simp add: raw_accessors)
qed

lemma first_edge_SomeD:
  assumes "first_edge es a b dst is_out et = Some i"
  shows "a \<le> i \<and> i < b \<and> edge_matches dst is_out et (es ! i) \<and>
    (\<forall>j. a \<le> j \<and> j < i \<longrightarrow> \<not> edge_matches dst is_out et (es ! j))"
proof -
  from assms obtain k where "k < b - a" "i = a + k" "edge_matches dst is_out et (es ! i)"
    "\<forall>j < k. \<not> edge_matches dst is_out et (es ! (a + j))"
    unfolding first_edge_def find_Some_iff by auto
  moreover then have "\<not> edge_matches dst is_out et (es ! j)" if "a \<le> j" "j < i" for j
    using that by (metis add_less_cancel_left le_add_diff_inverse)
  ultimately show ?thesis by auto
qed

lemma first_edge_newest:
  assumes "sst_run_ok es a b" "first_edge es a b dst is_out et = Some i"
    "a \<le> j" "j < b" "edge_matches dst is_out et (es ! j)"
  shows "get_seq (es ! j) \<le> get_seq (es ! i)"
proof (cases "j = i")
  case False
  then have "i < j" using first_edge_SomeD [OF assms(2)] assms(3,5) by (meson linorder_neqE_nat)
  then show ?thesis
    using sst_run_nth [OF assms(1), of i j] first_edge_SomeD [OF assms(2)] assms(4,5)
    by (auto simp: EdgeBody_less_def edge_matches_def)
qed simp

lemma ordinal_of_offset:
  assumes "16 * i < 2 ^ 32"
  shows "GetEdgeOrdinalFromBodyOffset (word_of_int (int (16 * i))) = word_of_nat i"
proof -
  have "unat (word_of_nat (16 * i) :: u32) = 16 * i"
    by (simp only: unsigned_of_nat) (use assms in \<open>simp add: take_bit_nat_eq_self\<close>)
  then have "unat (GetEdgeOrdinalFromBodyOffset (word_of_nat (16 * i))) = i"
    by (simp add: GetEdgeOrdinalFromBodyOffset_def EDGEBODY_SIZE_def unat_ucast_widen unat_div)
  then have "word_of_nat i = GetEdgeOrdinalFromBodyOffset (word_of_nat (16 * i))" by (metis of_nat_unat ucast_id)
  then show ?thesis by simp
qed

lemma LocateSstEdgeOrdinal_eq:
  assumes "sst_ok t es starts" "Suc p < length (s_indexes t)" "ix_key (s_indexes t ! p) = r_src r"
  shows "LocateSstEdgeOrdinal (Some t) r =
    (case first_edge es (starts ! p) (starts ! Suc p) (r_dst r) (r_is_out r) (r_edge_type r) of
       None \<Rightarrow> None
     | Some i \<Rightarrow> if \<not> get_marker (es ! i) \<and> get_seq (es ! i) = r_base_sequence r
                then Some (word_of_nat i) else None)"
proof -
  have pos: "SST_get t (r_src r) = int p"
    using assms by (intro SST_get_hit) (auto simp: sst_ok_def)
  have data: "s_edge_data t = concat (map EdgeBody_image es)" and small: "16 * length es < 2 ^ 31"
    and run: "sst_run_ok es (starts ! p) (starts ! Suc p)"
    using assms by (auto simp: sst_ok_def)
  have nat_p: "nat (int p + 1) = Suc p" by simp
  have ordinal: "GetEdgeOrdinalFromBodyOffset (word_of_int (16 * int i)) = word_of_nat i"
    if "i < length es" for i
    using ordinal_of_offset [of i] that small by simp
  show ?thesis
  proof (cases "first_edge es (starts ! p) (starts ! Suc p) (r_dst r) (r_is_out r) (r_edge_type r)")
    case None
    then show ?thesis using assms(2)
      by (simp add: LocateSstEdgeOrdinal_def pos sst_find_edge [OF assms(1,2)] nat_p)
  next
    case (Some i)
    then have "i < length es" using first_edge_SomeD [OF Some] run by (auto simp: sst_run_ok_def)
    then have "get_seq_raw (drop (nat (16 * int i)) (s_edge_data t)) = get_seq (es ! i)"
      by (simp add: data get_seq_raw_image nat_mult_distrib)
    with Some assms(2) show ?thesis
      by (simp add: LocateSstEdgeOrdinal_def pos sst_find_edge [OF assms(1,2)] nat_p ordinal [simplified] \<open>i < length es\<close>)
  qed
qed

lemma LocateSstEdgeOrdinal_SomeD:
  assumes "sst_ok t es starts" "LocateSstEdgeOrdinal (Some t) r = Some k"
  obtains p i where "Suc p < length (s_indexes t)" "ix_key (s_indexes t ! p) = r_src r"
    "first_edge es (starts ! p) (starts ! Suc p) (r_dst r) (r_is_out r) (r_edge_type r) = Some i"
    "\<not> get_marker (es ! i)" "get_seq (es ! i) = r_base_sequence r" "k = word_of_nat i"
proof -
  define pos where "pos = SST_get t (r_src r)"
  have pos: "0 \<le> pos" "pos + 1 < int (length (s_indexes t))"
    using assms(2) by (auto simp: LocateSstEdgeOrdinal_def pos_def Let_def split: if_splits)
  then have p: "Suc (nat pos) < length (s_indexes t)" by linarith
  have src: "ix_key (s_indexes t ! nat pos) = r_src r"
    using SST_find_sound [of "s_indexes t" "r_src r" 0 "int (length (s_indexes t)) - 1"] pos
    by (auto simp: pos_def SST_get_def)
  from LocateSstEdgeOrdinal_eq [OF assms(1) p src] assms(2) that [OF p src] show ?thesis
    by (auto split: option.splits if_splits)
qed

text \<open>One slot belongs to one version of one edge.\<close>

lemma sst_starts_mono:
  assumes "sst_ok t es starts" "a \<le> b" "b < length (s_indexes t)"
  shows "starts ! a \<le> starts ! b"
  using assms(2,3)
proof (induction b rule: dec_induct)
  case (step n)
  then have "sst_run_ok es (starts ! n) (starts ! Suc n)" using assms(1) by (auto simp: sst_ok_def)
  with step show ?case by (auto simp: sst_run_ok_def)
qed simp

lemma located_index_unique:
  assumes "sst_ok t es starts" "Suc p < length (s_indexes t)" "Suc q < length (s_indexes t)"
    "starts ! p \<le> i" "i < starts ! Suc p" "starts ! q \<le> i" "i < starts ! Suc q"
  shows "p = q"
proof (rule ccontr)
  assume "p \<noteq> q"
  then have "Suc p \<le> q \<or> Suc q \<le> p" by linarith
  then show False
    using sst_starts_mono [OF assms(1), of "Suc p" q] sst_starts_mono [OF assms(1), of "Suc q" p] assms
    by auto
qed

lemma LocateSstEdgeOrdinal_inj:
  assumes "sst_ok t es starts" "LocateSstEdgeOrdinal (Some t) r = Some k"
    "LocateSstEdgeOrdinal (Some t) r' = Some k"
  shows "rkey r = rkey r'"
proof -
  obtain p i where a: "Suc p < length (s_indexes t)" "ix_key (s_indexes t ! p) = r_src r"
    "first_edge es (starts ! p) (starts ! Suc p) (r_dst r) (r_is_out r) (r_edge_type r) = Some i"
    "get_seq (es ! i) = r_base_sequence r" "k = word_of_nat i"
    using LocateSstEdgeOrdinal_SomeD [OF assms(1,2)] .
  obtain q j where b: "Suc q < length (s_indexes t)" "ix_key (s_indexes t ! q) = r_src r'"
    "first_edge es (starts ! q) (starts ! Suc q) (r_dst r') (r_is_out r') (r_edge_type r') = Some j"
    "get_seq (es ! j) = r_base_sequence r'" "k = word_of_nat j"
    using LocateSstEdgeOrdinal_SomeD [OF assms(1,3)] .
  have small: "16 * length es < 2 ^ 31" and runs: "sst_run_ok es (starts ! p) (starts ! Suc p)"
    "sst_run_ok es (starts ! q) (starts ! Suc q)"
    using assms(1) a(1) b(1) by (auto simp: sst_ok_def)
  note ia = first_edge_SomeD [OF a(3)] and jb = first_edge_SomeD [OF b(3)]
  have "i < length es" "j < length es" using ia jb runs by (auto simp: sst_run_ok_def)
  then have "unat (word_of_nat i :: u64) = i" "unat (word_of_nat j :: u64) = j"
    using small by (simp_all add: unat_of_nat)
  then have ij: "i = j" using a(5) b(5) by metis
  moreover then have "p = q" using located_index_unique [OF assms(1) a(1) b(1)] ia jb by metis
  ultimately show ?thesis using a b ia jb by (simp add: rkey_def key_of_def edge_matches_def)
qed

lemma LocateSstEdgeOrdinal_key:
  assumes "rkey r = rkey r'"
  shows "LocateSstEdgeOrdinal data r = LocateSstEdgeOrdinal data r'"
proof -
  have "r_src r = r_src r'" "r_dst r = r_dst r'" "r_is_out r = r_is_out r'" "r_edge_type r = r_edge_type r'"
    "r_base_sequence r = r_base_sequence r'"
    using assms by (auto simp: rkey_def key_of_def sint_eq_iff)
  then show ?thesis by (simp only: LocateSstEdgeOrdinal_def)
qed

text \<open>C31. Where a property delta lands in a table. If the table finds an ordinal for a delta record, it is
  that of an edge body of the record's source with its destination, direction and type, not deleted,
  written with the record's base sequence, and no version of the edge in the table is newer. Conversely
  the one newest version of the edge is found whenever it is alive and has the record's base sequence.\<close>

theorem LocateSstEdgeOrdinal_newest:
  assumes "sst_ok t es starts" "Suc p < length (s_indexes t)" "ix_key (s_indexes t ! p) = r_src r"
  shows "(\<forall>k. LocateSstEdgeOrdinal (Some t) r = Some k \<longrightarrow>
      (\<exists>i. k = word_of_nat i \<and> starts ! p \<le> i \<and> i < starts ! Suc p \<and>
        edge_matches (r_dst r) (r_is_out r) (r_edge_type r) (es ! i) \<and> \<not> get_marker (es ! i) \<and>
        get_seq (es ! i) = r_base_sequence r \<and>
        (\<forall>j. starts ! p \<le> j \<and> j < starts ! Suc p \<and>
          edge_matches (r_dst r) (r_is_out r) (r_edge_type r) (es ! j) \<longrightarrow>
          get_seq (es ! j) \<le> get_seq (es ! i)))) \<and>
    (\<forall>i. starts ! p \<le> i \<and> i < starts ! Suc p \<and>
        edge_matches (r_dst r) (r_is_out r) (r_edge_type r) (es ! i) \<and> \<not> get_marker (es ! i) \<and>
        get_seq (es ! i) = r_base_sequence r \<and>
        (\<forall>j. j \<noteq> i \<and> starts ! p \<le> j \<and> j < starts ! Suc p \<and>
          edge_matches (r_dst r) (r_is_out r) (r_edge_type r) (es ! j) \<longrightarrow>
          get_seq (es ! j) < get_seq (es ! i)) \<longrightarrow>
      LocateSstEdgeOrdinal (Some t) r = Some (word_of_nat i))"
proof -
  let ?first = "first_edge es (starts ! p) (starts ! Suc p) (r_dst r) (r_is_out r) (r_edge_type r)"
  have run: "sst_run_ok es (starts ! p) (starts ! Suc p)"
    using assms by (auto simp: sst_ok_def)
  have exact: "?first = Some i"
    if i: "starts ! p \<le> i" "i < starts ! Suc p" "edge_matches (r_dst r) (r_is_out r) (r_edge_type r) (es ! i)"
      and top: "\<forall>j. j \<noteq> i \<and> starts ! p \<le> j \<and> j < starts ! Suc p \<and>
          edge_matches (r_dst r) (r_is_out r) (r_edge_type r) (es ! j) \<longrightarrow> get_seq (es ! j) < get_seq (es ! i)" for i
  proof (cases ?first)
    case None
    with i show ?thesis by (auto simp: first_edge_def find_None_iff)
  next
    case (Some f)
    then show ?thesis
      using first_edge_SomeD [OF Some] first_edge_newest [OF run Some i] top by (metis linorder_not_less)
  qed
  have found: "LocateSstEdgeOrdinal (Some t) r = Some k \<longleftrightarrow> (\<exists>i. ?first = Some i \<and> k = word_of_nat i \<and>
      \<not> get_marker (es ! i) \<and> get_seq (es ! i) = r_base_sequence r)" for k
    unfolding LocateSstEdgeOrdinal_eq [OF assms] by (auto split: option.splits)
  show ?thesis
    unfolding found using first_edge_SomeD first_edge_newest [OF run] exact by (intro conjI allI impI; blast)
qed

subsection \<open>The next topology sequence\<close>

lemma scan_newest_seq_max:
  "latest \<le> scan_newest_seq data is latest \<and>
   (\<forall>i \<in> set is. sint (get_seq_raw (drop (i * 16) data)) \<le> scan_newest_seq data is latest) \<and>
   (scan_newest_seq data is latest = latest \<or>
    (\<exists>i \<in> set is. scan_newest_seq data is latest = sint (get_seq_raw (drop (i * 16) data))))"
proof (induction "is" arbitrary: latest)
  case (Cons i "is")
  from Cons [of "max latest (sint (get_seq_raw (drop (i * 16) data)))"] show ?case
    by (auto simp: max_def split: if_splits)
qed simp

lemma sint_get_seq: "sint (get_seq b) = uint (get_seq b)"
proof -
  have "- 9223372036854775808 \<le> uint (get_seq b)" by (rule order_trans [OF _ uint_ge_0]) simp
  with get_seq_bound [of b] show ?thesis
    by (intro trans [OF sint_uint] signed_take_bit_int_eq_self) simp_all
qed

text \<open>C34. The topology clock recovered from a table is exactly one past the newest sequence in it: no edge
  of the table (its sentinel left out) has that sequence or a later one, and some edge has the one
  before it. The table's newest edge is set to that edge's sequence.\<close>

theorem ScanSstNextTopologySequence_next:
  assumes "s_edge_data t = concat (map EdgeBody_image es)" "unat (s_size t) = length es" "1 < length es"
    "ScanSstNextTopologySequence (Some t) = (next_seq, t')"
  shows "(\<forall>i < length es - 1. uint (get_seq (es ! i)) < next_seq) \<and>
    (\<exists>i < length es - 1. next_seq = uint (get_seq (es ! i)) + 1 \<and>
      t' = Some (t\<lparr>s_newest_edge := get_seq (es ! i)\<rparr>))"
proof -
  define n where "n = scan_newest_seq (s_edge_data t) [0 ..< length es - 1] (- 1)"
  have size: "unat (s_size t - 1) = length es - 1" "\<not> s_size t \<le> 1"
    using assms(2,3) by (auto simp: word_le_nat_alt unat_sub)
  have seq: "sint (get_seq_raw (drop (i * 16) (s_edge_data t))) = uint (get_seq (es ! i))"
    if "i < length es - 1" for i
    using that assms(1) get_seq_raw_image [of i es] by (simp add: mult.commute sint_get_seq)
  have upper: "uint (get_seq (es ! i)) \<le> n" if "i < length es - 1" for i
    using scan_newest_seq_max [of "- 1" "s_edge_data t" "[0 ..< length es - 1]"] seq [OF that] that
    unfolding n_def by (metis atLeastLessThan_iff less_eq_nat.simps(1) set_upt)
  have "n \<noteq> - 1" using upper [of 0] assms(3) uint_ge_0 [of "get_seq (es ! 0)"] by linarith
  then obtain i where i: "i < length es - 1" "n = uint (get_seq (es ! i))"
    using scan_newest_seq_max [of "- 1" "s_edge_data t" "[0 ..< length es - 1]"] seq
    unfolding n_def by (metis atLeastLessThan_iff set_upt)
  have "ScanSstNextTopologySequence (Some t) = (n + 1, Some (t\<lparr>s_newest_edge := word_of_int n\<rparr>))"
    using size i by (simp add: ScanSstNextTopologySequence_def n_def)
  with assms(4) upper i show ?thesis by fastforce
qed

subsection \<open>A sample table\<close>

definition sample_bodies :: "EdgeBody_t_Dym list" where
  "sample_bodies = [mk_EdgeBody 4 9 0 False True 1, mk_EdgeBody 4 6 0 True True 1, mk_EdgeBody 7 8 0 False True 1,
     mk_EdgeBody 5 3 0 False False 2, mk_EdgeBody 0 0 0 False True 0]"

definition sample_table :: SstTable where
  "sample_table = \<lparr>s_time_stamp = 12, s_size = 5, s_min_key = 1, s_max_key = 3,
     s_indexes = [\<lparr>ix_key = 1, ix_offset = 0\<rparr>, \<lparr>ix_key = 3, ix_offset = 48\<rparr>, \<lparr>ix_key = 9, ix_offset = 64\<rparr>],
     s_edge_data = concat (map EdgeBody_image sample_bodies), s_property_data = [], s_newest_edge = 0\<rparr>"

definition sample_edge_record :: PropertyDeltaRecord where
  "sample_edge_record = \<lparr>r_src = 1, r_dst = 4, r_base_sequence = 9, r_commit_sequence = 20, r_is_out = True,
     r_edge_type = 1, r_value = ''x''\<rparr>"

lemma sample_runs:
  "sorted_wrt (\<lambda>x y. \<not> EdgeBody_less y x) (take 3 sample_bodies)"
  "sorted_wrt (\<lambda>x y. \<not> EdgeBody_less y x) (take 1 (drop 3 sample_bodies))"
  by code_simp+

lemma sample_table_ok: "sst_ok sample_table sample_bodies [0, 3, 4]"
proof -
  have len: "length sample_bodies = 5" by (simp add: sample_bodies_def)
  have "sst_run_ok sample_bodies ([0, 3, 4] ! p) ([0, 3, 4] ! Suc p)" if "p < 2" for p
    using that sample_runs len by (cases p) (auto simp: sst_run_ok_def)
  then show ?thesis by (simp add: sst_ok_def sample_table_def len)
qed

lemma sample_bodies_newest:
  "edge_matches 4 True 1 (sample_bodies ! 0)" "\<not> get_marker (sample_bodies ! 0)" "get_seq (sample_bodies ! 0) = 9"
  "get_seq (sample_bodies ! 1) = 6" "\<not> edge_matches 4 True 1 (sample_bodies ! 2)"
  by code_simp+

theorem LocateSstEdgeOrdinal_newest_witness:
  "sst_ok sample_table sample_bodies [0, 3, 4] \<and> LocateSstEdgeOrdinal (Some sample_table) sample_edge_record = Some 0"
proof -
  have other: "get_seq (sample_bodies ! j) < 9" if "j \<noteq> 0" "j < 3" "edge_matches 4 True 1 (sample_bodies ! j)" for j
  proof -
    have "j = 1 \<or> j = 2" using that by auto
    with that sample_bodies_newest show ?thesis by auto
  qed
  have "Suc 0 < length (s_indexes sample_table)" "ix_key (s_indexes sample_table ! 0) = r_src sample_edge_record"
    by (simp_all add: sample_table_def sample_edge_record_def)
  from conjunct2 [OF LocateSstEdgeOrdinal_newest [OF sample_table_ok this], rule_format, of 0] other sample_bodies_newest sample_table_ok
  show ?thesis by (simp add: sample_edge_record_def)
qed

theorem ScanSstNextTopologySequence_next_witness:
  "1 < length sample_bodies \<and> fst (ScanSstNextTopologySequence (Some sample_table)) > 9"
proof -
  obtain n t' where run: "ScanSstNextTopologySequence (Some sample_table) = (n, t')" by fastforce
  have len: "length sample_bodies = 5" by (simp add: sample_bodies_def)
  have "uint (get_seq (sample_bodies ! 0)) < n"
    using conjunct1 [OF ScanSstNextTopologySequence_next [OF _ _ _ run, of sample_bodies], rule_format, of 0] len
    by (simp add: sample_table_def)
  with run len sample_bodies_newest(3) show ?thesis by simp
qed

end
