(* ===== verification/FileIo.thy ===== *)
theory FileIo
  imports Prelude
begin

text \<open>
  Files as the delta code sees them. The file system maps a path to the bytes of the file;
  what a system call answers is an input of the model: one response per \<^verbatim>\<open>write\<close> call and
  one Boolean per call that either works or fails. The write loop is \<^verbatim>\<open>WriteAll\<close> of
  \<^verbatim>\<open>src/property_delta.cpp\<close> and \<^verbatim>\<open>src/property_delta_manifest.cpp\<close>; \<^verbatim>\<open>std::to_string\<close> and the
  FNV-1a checksum both files use are here as well.
\<close>

section \<open>Definitions\<close>

type_synonym file_system = "string \<rightharpoonup> bytes"

text \<open>A \<^verbatim>\<open>write\<close> call transfers some bytes, is interrupted, or fails.\<close>

datatype write_response = Written nat | WriteEINTR | WriteError

datatype io_error =
    WriteFailed | ShortWrite | OpenFailed | FstatFailed | MmapFailed | FdatasyncFailed
  | CloseFailed | RenameFailed | DirOpenFailed | DirFsyncFailed | ReadFailed | ShortRead
  | TruncateFailed | SeekFailed | LockFailed | MsyncFailed

text \<open>
  \<^verbatim>\<open>WriteAll\<close> on a descriptor positioned at the end of the file. The result is \<open>None\<close> when
  the responses run out before the loop ends (the call is still blocked or interrupted);
  otherwise the responses left, the file and the error, if any.
\<close>

fun WriteAll ::
  "write_response list \<Rightarrow> bytes \<Rightarrow> bytes \<Rightarrow> (write_response list \<times> bytes \<times> io_error option) option"
where
  "WriteAll responses [] disk = Some (responses, disk, None)"
| "WriteAll [] (b # data) disk = None"
| "WriteAll (WriteEINTR # responses) (b # data) disk = WriteAll responses (b # data) disk"
| "WriteAll (WriteError # responses) (b # data) disk = Some (responses, disk, Some WriteFailed)"
| "WriteAll (Written n # responses) (b # data) disk =
     (if n = 0 then Some (responses, disk, Some ShortWrite)
      else WriteAll responses (drop n (b # data)) (disk @ take n (b # data)))"

text \<open>\<^verbatim>\<open>std::to_string\<close> of an unsigned integer.\<close>

fun to_string :: "nat \<Rightarrow> string" where
  "to_string n =
     (if n < 10 then [char_of (48 + n)] else to_string (n div 10) @ [char_of (48 + n mod 10)])"

declare to_string.simps [simp del]

text \<open>FNV-1a over 64 bits.\<close>

definition fnv_prime :: u64 where "fnv_prime = 1099511628211"
definition fnv_offset :: u64 where "fnv_offset = 14695981039346656037"

primrec ExtendChecksum :: "u64 \<Rightarrow> bytes \<Rightarrow> u64" where
  "ExtendChecksum h [] = h"
| "ExtendChecksum h (b # bs) = ExtendChecksum ((h XOR ucast b) * fnv_prime) bs"

definition Checksum :: "bytes \<Rightarrow> u64" where
  "Checksum bs = ExtendChecksum fnv_offset bs"

text \<open>A sequence of responses in which no call fails, and how many calls transfer bytes.\<close>

definition writes_ok :: "write_response list \<Rightarrow> bool" where
  "writes_ok responses =
     list_all (\<lambda>r. case r of Written n \<Rightarrow> 0 < n | WriteEINTR \<Rightarrow> True | WriteError \<Rightarrow> False) responses"

definition write_budget :: "write_response list \<Rightarrow> nat" where
  "write_budget responses = length (filter (\<lambda>r. case r of Written n \<Rightarrow> True | _ \<Rightarrow> False) responses)"

section \<open>Lemmas\<close>

subsection \<open>The write loop\<close>


text \<open>Success means that exactly the data was appended; any outcome leaves a prefix of it.\<close>

lemma WriteAll_result:
  assumes "WriteAll responses data disk = Some (rest, disk', e)"
  shows "(e = None \<longrightarrow> disk' = disk @ data) \<and> (\<exists>k \<le> length data. disk' = disk @ take k data)"
  using assms
proof (induction responses data disk arbitrary: rest disk' e rule: WriteAll.induct)
  case (1 responses disk)
  then show ?case by auto
next
  case (2 b data disk)
  then show ?case by simp
next
  case (3 responses b data disk)
  from "3.prems" show ?case by (intro "3.IH") simp
next
  case (4 responses b data disk)
  then have "disk' = disk @ take 0 (b # data)" "e \<noteq> None" by auto
  then show ?case by blast
next
  case (5 n responses b data disk)
  show ?case
  proof (cases "n = 0")
    case True
    with 5 have "disk' = disk @ take 0 (b # data)" "e \<noteq> None" by auto
    then show ?thesis by blast
  next
    case False
    with 5 have IH: "(e = None \<longrightarrow> disk' = (disk @ take n (b # data)) @ drop n (b # data)) \<and>
        (\<exists>k \<le> length (drop n (b # data)). disk' = (disk @ take n (b # data)) @ take k (drop n (b # data)))"
      by simp
    then obtain k where k: "k \<le> length (drop n (b # data))"
      "disk' = disk @ take n (b # data) @ take k (drop n (b # data))" by auto
    have "take n (b # data) @ take k (drop n (b # data)) = take (n + k) (b # data)"
      by (simp only: take_add)
    moreover have "take (n + k) (b # data) = take (min (n + k) (length (b # data))) (b # data)"
      by (simp add: min_def)
    ultimately have "\<exists>k \<le> length (b # data). disk' = disk @ take k (b # data)"
      using k(2) by (metis min.cobounded2)
    moreover have "e = None \<longrightarrow> disk' = disk @ b # data"
      using IH by (simp only: append_assoc append_take_drop_id) simp
    ultimately show ?thesis by blast
  qed
qed

text \<open>
  The loop returns, with success, whenever no call fails or transfers nothing: every call that
  is not interrupted transfers at least one byte, so as many of them as there are bytes suffice.
\<close>

lemma WriteAll_succeeds:
  assumes "writes_ok responses" "length data \<le> write_budget responses"
  shows "\<exists>rest. WriteAll responses data disk = Some (rest, disk @ data, None) \<and> writes_ok rest \<and>
           write_budget responses \<le> write_budget rest + length data"
  using assms
proof (induction responses data disk rule: WriteAll.induct)
  case (3 responses b data disk)
  then show ?case by (auto simp: writes_ok_def write_budget_def)
next
  case (5 n responses b data disk)
  then have n: "0 < n" and ok: "writes_ok responses"
    by (auto simp: writes_ok_def)
  have left: "length (drop n (b # data)) \<le> write_budget responses"
    using 5 n by (auto simp: write_budget_def)
  have "n \<noteq> 0" using n by simp
  from "5.IH" [OF this ok left] obtain rest where
    rest: "WriteAll responses (drop n (b # data)) (disk @ take n (b # data)) =
      Some (rest, (disk @ take n (b # data)) @ drop n (b # data), None)"
    "writes_ok rest" "write_budget responses \<le> write_budget rest + length (drop n (b # data))"
    by blast
  have "write_budget (Written n # responses) \<le> write_budget rest + length (b # data)"
    using rest(3) n by (simp add: write_budget_def)
  moreover have "(disk @ take n (b # data)) @ drop n (b # data) = disk @ b # data"
    by (simp only: append_assoc append_take_drop_id)
  ultimately show ?case
    using rest(1,2) n by (auto simp only: WriteAll.simps) auto
qed (auto simp: writes_ok_def write_budget_def)

subsection \<open>Decimal strings\<close>

lemma to_string_digits: "c \<in> set (to_string n) \<Longrightarrow> 48 \<le> (of_char c :: nat) \<and> (of_char c :: nat) \<le> 57"
proof (induction n arbitrary: c rule: to_string.induct)
  case (1 n)
  have digit: "(of_char (char_of (48 + d :: nat) :: char) :: nat) = 48 + d" if "d < 10" for d
    using that by simp
  show ?case
  proof (cases "n < 10")
    case True
    with "1.prems" digit [of n] show ?thesis by (simp add: to_string.simps [of n])
  next
    case False
    with 1 digit [of "n mod 10"] show ?thesis by (auto simp: to_string.simps [of n])
  qed
qed

lemma to_string_no_char:
  "(of_char c :: nat) < 48 \<or> 57 < (of_char c :: nat) \<Longrightarrow> c \<notin> set (to_string n)"
  using to_string_digits [of c n] by auto

lemma to_string_nonempty [simp]: "to_string n \<noteq> []"
  by (subst to_string.simps) auto

lemma to_string_short: "n < 10 \<Longrightarrow> to_string n = [char_of (48 + n)]"
  by (simp add: to_string.simps [of n])

lemma to_string_long: "\<not> n < 10 \<Longrightarrow> to_string n = to_string (n div 10) @ [char_of (48 + n mod 10)]"
  by (simp add: to_string.simps [of n])

lemma digit_inj:
  assumes "char_of (48 + a :: nat) = (char_of (48 + b :: nat) :: char)" "a < 10" "b < 10"
  shows "a = b"
  using arg_cong [where f = "of_char :: char \<Rightarrow> nat", OF assms(1)] assms(2,3) by simp

lemma to_string_inj [simp]: "to_string m = to_string n \<longleftrightarrow> m = n"
proof
  assume "to_string m = to_string n"
  then show "m = n"
  proof (induction m arbitrary: n rule: to_string.induct)
    case (1 m)
    consider "m < 10" "n < 10" | "(m < 10) \<noteq> (n < 10)" | "\<not> m < 10" "\<not> n < 10" by blast
    then show ?case
    proof cases
      case 1
      with "1.prems" show ?thesis by (metis digit_inj list.inject to_string_short)
    next
      case 2
      with "1.prems" have False
        by (metis append_self_conv2 append1_eq_conv to_string_long to_string_nonempty to_string_short)
      then show ?thesis ..
    next
      case 3
      with "1.prems" have "to_string (m div 10) = to_string (n div 10)"
        "char_of (48 + m mod 10 :: nat) = (char_of (48 + n mod 10 :: nat) :: char)"
        using to_string_long [of m] to_string_long [of n] by (metis append1_eq_conv)+
      with "1.IH" 3 digit_inj [of "m mod 10" "n mod 10"]
      have "m div 10 = n div 10" "m mod 10 = n mod 10" by auto
      then show ?thesis by (metis div_mult_mod_eq)
    qed
  qed
qed simp

subsection \<open>The checksum\<close>

lemma ExtendChecksum_append [simp]:
  "ExtendChecksum h (xs @ ys) = ExtendChecksum (ExtendChecksum h xs) ys"
  by (induction xs arbitrary: h) simp_all

text \<open>The prime is odd, hence a unit modulo \<open>2 ^ 64\<close>: one step loses nothing.\<close>

lemma fnv_prime_cancel: "a * fnv_prime = b * fnv_prime \<longleftrightarrow> a = b"
proof
  have unit: "fnv_prime * 14886173955864302971 = (1 :: u64)"
    by (simp add: fnv_prime_def)
  assume "a * fnv_prime = b * fnv_prime"
  then have "a * (fnv_prime * 14886173955864302971) = b * (fnv_prime * 14886173955864302971)"
    by (simp only: mult.assoc [symmetric])
  then show "a = b" by (simp only: unit mult_1_right)
qed simp

lemma ExtendChecksum_inj: "ExtendChecksum h bs = ExtendChecksum h' bs \<longleftrightarrow> h = h'"
proof (induction bs arbitrary: h h')
  case (Cons b bs)
  have "h XOR ucast b = h' XOR ucast b \<longleftrightarrow> h = h'"
    by (auto dest: arg_cong [where f = "\<lambda>x. x XOR ucast b"] simp: xor.assoc)
  then show ?case by (simp add: Cons.IH fnv_prime_cancel)
qed simp

text \<open>Hence the checksum notices every change of a single byte.\<close>

lemma ExtendChecksum_byte:
  assumes "ExtendChecksum h (xs @ b # ys) = ExtendChecksum h (xs @ c # ys)"
  shows "b = c"
proof -
  have "ExtendChecksum h xs XOR (ucast b :: u64) = ExtendChecksum h xs XOR ucast c"
    using assms by (simp add: ExtendChecksum_inj fnv_prime_cancel)
  then have "(ucast b :: u64) = ucast c"
    by (auto dest: arg_cong [where f = "\<lambda>x. ExtendChecksum h xs XOR x"] simp: xor.assoc [symmetric])
  then have "unat (ucast b :: u64) = unat (ucast c :: u64)" by simp
  then show ?thesis by (simp add: unat_ucast_widen word_unat_eq_iff)
qed

lemma ExtendChecksum_update:
  assumes "i < length bs" "v \<noteq> bs ! i"
  shows "ExtendChecksum h (bs[i := v]) \<noteq> ExtendChecksum h bs"
proof
  assume "ExtendChecksum h (bs[i := v]) = ExtendChecksum h bs"
  then have "ExtendChecksum h (take i bs @ v # drop (Suc i) bs) =
      ExtendChecksum h (take i bs @ bs ! i # drop (Suc i) bs)"
    using assms(1) by (simp only: upd_conv_take_nth_drop id_take_nth_drop [symmetric])
  with assms(2) ExtendChecksum_byte show False by metis
qed

end
