(* ===== verification/DeltaFile.thy ===== *)
theory DeltaFile
  imports DeltaRecord FileIo
begin

text \<open>
  The immutable property delta file (\<^verbatim>\<open>src/property_delta.cpp\<close>): the packed header and record
  images, \<^verbatim>\<open>Create\<close> (sort, deduplicate, encode, write to a temporary, sync, rename, reopen),
  \<^verbatim>\<open>OpenAndValidate\<close>, the two binary searches of \<^verbatim>\<open>Lookup\<close>, and \<^verbatim>\<open>ForEachRecord\<close>.
  A mapping is the list of bytes of the mapped file.
\<close>

section \<open>Definitions\<close>

subsection \<open>Errors\<close>

datatype delta_error =
    EmptyDelta | InvalidTargetFileId | ValueTooLong | ValuesOverflow
  | ShorterThanHeader | InvalidHeader | HeaderChecksumMismatch | RecordBoundsOverflow
  | ValueBoundsOverflow | InvalidBounds | PayloadChecksumMismatch | ValueOutOfBounds
  | RecordsNotSorted | DeltaIo io_error

subsection \<open>Disk images\<close>

record DeltaDiskHeader =
  h_magic :: bytes
  h_version :: u32
  h_header_bytes :: u32
  h_object_kind :: u8
  h_reserved0 :: bytes
  h_shard_id :: u32
  h_property_id :: u32
  h_base_file_id :: u32
  h_reserved1 :: u32
  h_base_generation :: u64
  h_file_generation :: u64
  h_record_count :: u64
  h_records_offset :: u64
  h_values_offset :: u64
  h_values_bytes :: u64
  h_min_commit_sequence :: u64
  h_max_commit_sequence :: u64
  h_payload_checksum :: u64
  h_header_checksum :: u64

record DeltaDiskRecord =
  d_src :: u64
  d_dst :: u64
  d_base_sequence :: "64 word"
  d_commit_sequence :: u64
  d_value_offset :: u64
  d_value_length :: u32
  d_edge_type :: u8
  d_is_out :: u8
  d_reserved :: u16

definition kMagic :: bytes where "kMagic = bytes_of ''RGDELTA2''"
definition kFormatVersion :: u32 where "kFormatVersion = 2"
definition header_size :: nat where "header_size = 120"
definition record_size :: nat where "record_size = 48"

definition encode_header :: "DeltaDiskHeader \<Rightarrow> bytes" where
  "encode_header h =
     h_magic h @ le_bytes 4 (h_version h) @ le_bytes 4 (h_header_bytes h) @
     le_bytes 1 (h_object_kind h) @ h_reserved0 h @ le_bytes 4 (h_shard_id h) @
     le_bytes 4 (h_property_id h) @ le_bytes 4 (h_base_file_id h) @ le_bytes 4 (h_reserved1 h) @
     le_bytes 8 (h_base_generation h) @ le_bytes 8 (h_file_generation h) @
     le_bytes 8 (h_record_count h) @ le_bytes 8 (h_records_offset h) @
     le_bytes 8 (h_values_offset h) @ le_bytes 8 (h_values_bytes h) @
     le_bytes 8 (h_min_commit_sequence h) @ le_bytes 8 (h_max_commit_sequence h) @
     le_bytes 8 (h_payload_checksum h) @ le_bytes 8 (h_header_checksum h)"

definition decode_header :: "bytes \<Rightarrow> DeltaDiskHeader" where
  "decode_header bs =
     \<lparr> h_magic = slice 0 8 bs, h_version = le_word (slice 8 4 bs),
       h_header_bytes = le_word (slice 12 4 bs), h_object_kind = le_word (slice 16 1 bs),
       h_reserved0 = slice 17 7 bs, h_shard_id = le_word (slice 24 4 bs),
       h_property_id = le_word (slice 28 4 bs), h_base_file_id = le_word (slice 32 4 bs),
       h_reserved1 = le_word (slice 36 4 bs), h_base_generation = le_word (slice 40 8 bs),
       h_file_generation = le_word (slice 48 8 bs), h_record_count = le_word (slice 56 8 bs),
       h_records_offset = le_word (slice 64 8 bs), h_values_offset = le_word (slice 72 8 bs),
       h_values_bytes = le_word (slice 80 8 bs), h_min_commit_sequence = le_word (slice 88 8 bs),
       h_max_commit_sequence = le_word (slice 96 8 bs),
       h_payload_checksum = le_word (slice 104 8 bs),
       h_header_checksum = le_word (slice 112 8 bs) \<rparr>"

definition encode_record :: "DeltaDiskRecord \<Rightarrow> bytes" where
  "encode_record d =
     le_bytes 8 (d_src d) @ le_bytes 8 (d_dst d) @ le_bytes 8 (d_base_sequence d) @
     le_bytes 8 (d_commit_sequence d) @ le_bytes 8 (d_value_offset d) @
     le_bytes 4 (d_value_length d) @ le_bytes 1 (d_edge_type d) @ le_bytes 1 (d_is_out d) @
     le_bytes 2 (d_reserved d)"

definition decode_record :: "bytes \<Rightarrow> DeltaDiskRecord" where
  "decode_record bs =
     \<lparr> d_src = le_word (slice 0 8 bs), d_dst = le_word (slice 8 8 bs),
       d_base_sequence = le_word (slice 16 8 bs), d_commit_sequence = le_word (slice 24 8 bs),
       d_value_offset = le_word (slice 32 8 bs), d_value_length = le_word (slice 40 4 bs),
       d_edge_type = le_word (slice 44 1 bs), d_is_out = le_word (slice 45 1 bs),
       d_reserved = le_word (slice 46 2 bs) \<rparr>"

definition HeaderChecksum :: "DeltaDiskHeader \<Rightarrow> u64" where
  "HeaderChecksum header = Checksum (encode_header (header\<lparr>h_header_checksum := 0\<rparr>))"

definition LoadDiskRecord :: "bytes \<Rightarrow> u64 \<Rightarrow> nat \<Rightarrow> DeltaDiskRecord" where
  "LoadDiskRecord mapping records_offset index =
     decode_record (slice (unat records_offset + index * record_size) record_size mapping)"

definition DiskRecordToRecord :: "DeltaDiskRecord \<Rightarrow> bytes \<Rightarrow> u64 \<Rightarrow> PropertyDeltaRecord" where
  "DiskRecordToRecord disk mapping values_offset =
     \<lparr> r_src = d_src disk, r_dst = d_dst disk, r_base_sequence = d_base_sequence disk,
       r_commit_sequence = d_commit_sequence disk, r_is_out = (d_is_out disk \<noteq> 0),
       r_edge_type = d_edge_type disk,
       r_value = string_of (slice (unat (values_offset + d_value_offset disk))
                                  (unat (d_value_length disk)) mapping) \<rparr>"

definition CompareDiskLogicalKey ::
  "DeltaDiskRecord \<Rightarrow> VertexId_t \<Rightarrow> VertexId_t \<Rightarrow> SequenceNumber_t \<Rightarrow> bool \<Rightarrow> u8 \<Rightarrow> int" where
  "CompareDiskLogicalKey r src dst base_sequence is_out edge_type =
     (let direction = (if is_out then 1 else 0 :: u8) in
      if d_src r \<noteq> src then (if d_src r < src then -1 else 1)
      else if d_dst r \<noteq> dst then (if d_dst r < dst then -1 else 1)
      else if d_is_out r \<noteq> direction then (if d_is_out r < direction then -1 else 1)
      else if d_edge_type r \<noteq> edge_type then (if d_edge_type r < edge_type then -1 else 1)
      else if d_base_sequence r \<noteq> base_sequence
      then (if sint (d_base_sequence r) < sint base_sequence then -1 else 1)
      else 0)"

definition IsValidObjectKind :: "u8 \<Rightarrow> bool" where
  "IsValidObjectKind raw_kind \<longleftrightarrow> raw_kind = kind_byte kNode \<or> raw_kind = kind_byte kEdge"

definition kind_of_byte :: "u8 \<Rightarrow> PropertyObjectKind" where
  "kind_of_byte raw_kind = (if raw_kind = kind_byte kNode then kNode else kEdge)"

subsection \<open>Opened files\<close>

record PropertyDeltaFile =
  f_path :: string
  f_mapping :: bytes
  f_records_offset :: u64
  f_values_offset :: u64
  f_metadata :: PropertyDeltaFileMetadata
  f_obsolete :: bool

text \<open>The answers of the system calls of \<^verbatim>\<open>OpenAndValidate\<close> and \<^verbatim>\<open>Create\<close>.\<close>

record open_io =
  io_open :: bool
  io_fstat :: bool
  io_mmap :: bool

record create_io =
  io_open_temporary :: bool
  io_writes :: "write_response list"
  io_fdatasync :: bool
  io_close :: bool
  io_unlink :: bool
  io_rename :: bool
  io_open_directory :: bool
  io_fsync_directory :: bool
  io_reopen :: open_io

fun first_error :: "(nat \<Rightarrow> 'e option) \<Rightarrow> nat list \<Rightarrow> 'e option" where
  "first_error f [] = None"
| "first_error f (i # is) = (case f i of None \<Rightarrow> first_error f is | Some e \<Rightarrow> Some e)"

text \<open>The record \<^verbatim>\<open>OpenAndValidate\<close> builds to compare neighbours: every field but the value.\<close>

definition disk_order_record :: "DeltaDiskRecord \<Rightarrow> PropertyDeltaRecord" where
  "disk_order_record d =
     \<lparr> r_src = d_src d, r_dst = d_dst d, r_base_sequence = d_base_sequence d,
       r_commit_sequence = d_commit_sequence d, r_is_out = (d_is_out d \<noteq> 0),
       r_edge_type = d_edge_type d, r_value = [] \<rparr>"

definition validate_record :: "bytes \<Rightarrow> DeltaDiskHeader \<Rightarrow> nat \<Rightarrow> delta_error option" where
  "validate_record mapping header i =
     (let r = LoadDiskRecord mapping (h_records_offset header) i in
      if d_value_offset r > h_values_bytes header \<or>
         ucast (d_value_length r) > h_values_bytes header - d_value_offset r
      then Some ValueOutOfBounds
      else if i \<noteq> 0 \<and>
         RecordLess (disk_order_record r)
           (disk_order_record (LoadDiskRecord mapping (h_records_offset header) (i - 1)))
      then Some RecordsNotSorted
      else None)"

definition validate_header :: "bytes \<Rightarrow> DeltaDiskHeader \<Rightarrow> delta_error option" where
  "validate_header mapping header =
     (let mapping_size = (word_of_nat (length mapping) :: u64);
          records_end = h_records_offset header + h_record_count header * word_of_nat record_size;
          values_end = h_values_offset header + h_values_bytes header;
          payload_checksum =
            (if mapping_size > h_records_offset header
             then ExtendChecksum fnv_offset
                    (slice (unat (h_records_offset header))
                      (unat (mapping_size - h_records_offset header)) mapping)
             else fnv_offset)
      in if h_magic header \<noteq> kMagic \<or> h_version header \<noteq> kFormatVersion \<or>
            h_header_bytes header \<noteq> word_of_nat header_size \<or>
            \<not> IsValidObjectKind (h_object_kind header)
         then Some InvalidHeader
         else if HeaderChecksum header \<noteq> h_header_checksum header
         then Some HeaderChecksumMismatch
         else if h_record_count header > (-1 - h_records_offset header) div word_of_nat record_size
         then Some RecordBoundsOverflow
         else if h_values_bytes header > -1 - h_values_offset header
         then Some ValueBoundsOverflow
         else if h_records_offset header \<noteq> word_of_nat header_size \<or>
            h_values_offset header \<noteq> records_end \<or> records_end > mapping_size \<or>
            values_end \<noteq> mapping_size
         then Some InvalidBounds
         else if payload_checksum \<noteq> h_payload_checksum header
         then Some PayloadChecksumMismatch
         else first_error (validate_record mapping header)
                [0 ..< unat (h_record_count header)])"

definition file_of_header :: "string \<Rightarrow> bytes \<Rightarrow> DeltaDiskHeader \<Rightarrow> PropertyDeltaFile" where
  "file_of_header path mapping header =
     \<lparr> f_path = path, f_mapping = mapping, f_records_offset = h_records_offset header,
       f_values_offset = h_values_offset header,
       f_metadata =
         \<lparr> m_target = \<lparr> t_kind = kind_of_byte (h_object_kind header),
                        t_shard_id = h_shard_id header,
                        t_base_file_id = h_base_file_id header,
                        t_base_generation = h_base_generation header,
                        t_property_id = h_property_id header \<rparr>,
           m_file_generation = h_file_generation header,
           m_record_count = h_record_count header,
           m_file_bytes = word_of_nat (length mapping),
           m_min_commit_sequence = h_min_commit_sequence header,
           m_max_commit_sequence = h_max_commit_sequence header,
           m_payload_checksum = h_payload_checksum header \<rparr>,
       f_obsolete = False \<rparr>"

definition OpenAndValidate ::
  "open_io \<Rightarrow> file_system \<Rightarrow> string \<Rightarrow> delta_error + PropertyDeltaFile" where
  "OpenAndValidate io fs path =
     (case fs path of
        None \<Rightarrow> Inl (DeltaIo OpenFailed)
      | Some mapping \<Rightarrow>
          if \<not> io_open io then Inl (DeltaIo OpenFailed)
          else if \<not> io_fstat io then Inl (DeltaIo FstatFailed)
          else if (word_of_nat (length mapping) :: u64) < word_of_nat header_size
          then Inl ShorterThanHeader
          else if \<not> io_mmap io then Inl (DeltaIo MmapFailed)
          else let header = decode_header (slice 0 header_size mapping)
               in case validate_header mapping header of
                    Some e \<Rightarrow> Inl e
                  | None \<Rightarrow> Inr (file_of_header path mapping header))"

text \<open>The destructor unlinks an obsolete file.\<close>

definition destroy_file :: "file_system \<Rightarrow> PropertyDeltaFile \<Rightarrow> file_system" where
  "destroy_file fs f = (if f_obsolete f \<and> f_path f \<noteq> [] then fs(f_path f := None) else fs)"

subsection \<open>Creating a file\<close>

fun encode_records ::
  "PropertyDeltaRecord list \<Rightarrow> DeltaDiskRecord list \<Rightarrow> bytes \<Rightarrow> u64 \<Rightarrow> u64 \<Rightarrow>
   delta_error + (DeltaDiskRecord list \<times> bytes \<times> u64 \<times> u64)" where
  "encode_records [] disk_records values min_commit max_commit =
     Inr (disk_records, values, min_commit, max_commit)"
| "encode_records (r # rs) disk_records values min_commit max_commit =
     (if length (r_value r) > 2 ^ 32 - 1 then Inl ValueTooLong
      else if length values > 2 ^ 64 - 1 - length (r_value r) then Inl ValuesOverflow
      else encode_records rs
             (disk_records @
                [\<lparr> d_src = r_src r, d_dst = r_dst r, d_base_sequence = r_base_sequence r,
                   d_commit_sequence = r_commit_sequence r,
                   d_value_offset = word_of_nat (length values),
                   d_value_length = word_of_nat (length (r_value r)),
                   d_edge_type = r_edge_type r, d_is_out = (if r_is_out r then 1 else 0),
                   d_reserved = 0 \<rparr>])
             (values @ bytes_of (r_value r))
             (min min_commit (r_commit_sequence r))
             (max max_commit (r_commit_sequence r)))"

definition make_header ::
  "PropertyDeltaTarget \<Rightarrow> u64 \<Rightarrow> DeltaDiskRecord list \<Rightarrow> bytes \<Rightarrow> u64 \<Rightarrow> u64 \<Rightarrow> DeltaDiskHeader" where
  "make_header target file_generation disk_records values min_commit max_commit =
     (let payload0 = (if disk_records \<noteq> []
                      then ExtendChecksum fnv_offset (concat (map encode_record disk_records))
                      else fnv_offset);
          payload = (if values \<noteq> [] then ExtendChecksum payload0 values else payload0);
          records_offset = word_of_nat header_size;
          header =
            \<lparr> h_magic = kMagic, h_version = kFormatVersion,
              h_header_bytes = word_of_nat header_size,
              h_object_kind = kind_byte (t_kind target), h_reserved0 = replicate 7 0,
              h_shard_id = t_shard_id target, h_property_id = t_property_id target,
              h_base_file_id = t_base_file_id target, h_reserved1 = 0,
              h_base_generation = t_base_generation target,
              h_file_generation = file_generation,
              h_record_count = word_of_nat (length disk_records),
              h_records_offset = records_offset,
              h_values_offset = records_offset + word_of_nat (length disk_records * record_size),
              h_values_bytes = word_of_nat (length values),
              h_min_commit_sequence = min_commit, h_max_commit_sequence = max_commit,
              h_payload_checksum = payload, h_header_checksum = 0 \<rparr>
      in header\<lparr>h_header_checksum := HeaderChecksum header\<rparr>)"

text \<open>The three writes, chained by \<^verbatim>\<open>&&\<close>.\<close>

fun write_chain ::
  "write_response list \<Rightarrow> bytes list \<Rightarrow> bytes \<Rightarrow> (bytes \<times> io_error option) option" where
  "write_chain responses [] disk = Some (disk, None)"
| "write_chain responses (c # cs) disk =
     (case WriteAll responses c disk of
        None \<Rightarrow> None
      | Some (rest, disk', None) \<Rightarrow> write_chain rest cs disk'
      | Some (rest, disk', Some e) \<Rightarrow> Some (disk', Some e))"

definition SyncParentDirectory :: "create_io \<Rightarrow> io_error option" where
  "SyncParentDirectory io =
     (if \<not> io_open_directory io then Some DirOpenFailed
      else if \<not> io_fsync_directory io then Some DirFsyncFailed else None)"

definition temporary_name :: "string \<Rightarrow> nat \<Rightarrow> u64 \<Rightarrow> string" where
  "temporary_name path pid file_generation =
     path @ ''.tmp.'' @ to_string pid @ ''.'' @ to_string (unat file_generation)"

text \<open>From \<^verbatim>\<open>open\<close> of the temporary to the final \<^verbatim>\<open>Open\<close>; \<open>None\<close> when a write never returns.\<close>

definition publish_file ::
  "create_io \<Rightarrow> file_system \<Rightarrow> string \<Rightarrow> string \<Rightarrow> bytes list \<Rightarrow> DeltaDurability \<Rightarrow>
   (file_system \<times> (delta_error + PropertyDeltaFile)) option" where
  "publish_file io fs temporary path chunks durability =
     (if fs temporary \<noteq> None \<or> \<not> io_open_temporary io then Some (fs, Inl (DeltaIo OpenFailed))
      else case write_chain (io_writes io) chunks [] of
        None \<Rightarrow> None
      | Some (content, write_error) \<Rightarrow>
          (let sync_error = (if write_error = None \<and> durability = kProcessCrashSafe \<and>
                                \<not> io_fdatasync io then Some FdatasyncFailed else write_error);
               close_error = (if \<not> io_close io \<and> sync_error = None then Some CloseFailed
                              else sync_error);
               fs_unlinked = (if io_unlink io then fs(temporary := None)
                              else fs(temporary \<mapsto> content));
               fs_renamed = fs(temporary := None, path \<mapsto> content)
           in if close_error \<noteq> None then Some (fs_unlinked, Inl (DeltaIo (the close_error)))
              else if \<not> io_rename io then Some (fs_unlinked, Inl (DeltaIo RenameFailed))
              else if durability = kProcessCrashSafe \<and> SyncParentDirectory io \<noteq> None
              then Some (fs_renamed, Inl (DeltaIo (the (SyncParentDirectory io))))
              else Some (fs_renamed, OpenAndValidate (io_reopen io) fs_renamed path)))"

definition Create ::
  "create_io \<Rightarrow> nat \<Rightarrow> file_system \<Rightarrow> string \<Rightarrow> PropertyDeltaTarget \<Rightarrow> u64 \<Rightarrow>
   PropertyDeltaRecord list \<Rightarrow> DeltaDurability \<Rightarrow>
   (file_system \<times> (delta_error + PropertyDeltaFile)) option" where
  "Create io pid fs path target file_generation records durability =
     (if records = [] then Some (fs, Inl EmptyDelta)
      else if t_base_file_id target = kInvalidFileId then Some (fs, Inl InvalidTargetFileId)
      else case encode_records (prepare_records records) [] [] kLatestPropertyCommit 0 of
        Inl e \<Rightarrow> Some (fs, Inl e)
      | Inr (disk_records, values, min_commit, max_commit) \<Rightarrow>
          publish_file io fs (temporary_name path pid file_generation) path
            [encode_header (make_header target file_generation disk_records values
                             min_commit max_commit),
             concat (map encode_record disk_records), values]
            durability)"

subsection \<open>Reading a file\<close>

definition Lookup ::
  "PropertyDeltaFile \<Rightarrow> VertexId_t \<Rightarrow> VertexId_t \<Rightarrow> SequenceNumber_t \<Rightarrow> bool \<Rightarrow> u8 \<Rightarrow>
   PropertyCommitSequence \<Rightarrow> (string \<times> PropertyCommitSequence) option" where
  "Lookup f src dst base_sequence is_out edge_type read_sequence =
     (let count = unat (m_record_count (f_metadata f));
          load = LoadDiskRecord (f_mapping f) (f_records_offset f);
          compare_at = (\<lambda>i. CompareDiskLogicalKey (load i) src dst base_sequence is_out edge_type)
      in if m_record_count (f_metadata f) = 0 \<or>
            m_min_commit_sequence (f_metadata f) > read_sequence then None
         else let first = bsearch (\<lambda>i. compare_at i < 0) 0 count in
           if first = count then None
           else if compare_at first \<noteq> 0 then None
           else let low = bsearch (\<lambda>i. compare_at i < 0 \<or>
                            compare_at i = 0 \<and> d_commit_sequence (load i) \<le> read_sequence)
                          first count in
             if low = first then None
             else let selected = load (low - 1) in
               if compare_at (low - 1) \<noteq> 0 \<or> d_commit_sequence selected > read_sequence then None
               else let begin_at = f_values_offset f + d_value_offset selected;
                        end_at = begin_at + ucast (d_value_length selected)
                    in if end_at > word_of_nat (length (f_mapping f)) then None
                       else Some (string_of (slice (unat begin_at)
                                    (unat (d_value_length selected)) (f_mapping f)),
                                  d_commit_sequence selected))"

text \<open>\<^verbatim>\<open>ForEachRecord\<close> threads a visitor's state; the visitor says whether to go on.\<close>

fun visit_records ::
  "PropertyDeltaFile \<Rightarrow> (PropertyDeltaRecord \<Rightarrow> 's \<Rightarrow> bool \<times> 's) \<Rightarrow> nat list \<Rightarrow> 's \<Rightarrow> bool \<times> 's" where
  "visit_records f visitor [] s = (True, s)"
| "visit_records f visitor (i # is) s =
     (let disk = LoadDiskRecord (f_mapping f) (f_records_offset f) i;
          end_at = f_values_offset f + d_value_offset disk + ucast (d_value_length disk)
      in if end_at > word_of_nat (length (f_mapping f)) then (False, s)
         else case visitor (DiskRecordToRecord disk (f_mapping f) (f_values_offset f)) s of
                (False, s') \<Rightarrow> (False, s')
              | (True, s') \<Rightarrow> visit_records f visitor is s')"

definition ForEachRecord ::
  "PropertyDeltaFile \<Rightarrow> (PropertyDeltaRecord \<Rightarrow> 's \<Rightarrow> bool \<times> 's) \<Rightarrow> 's \<Rightarrow> bool \<times> 's" where
  "ForEachRecord f visitor s =
     visit_records f visitor [0 ..< unat (m_record_count (f_metadata f))] s"

section \<open>Lemmas\<close>

subsection \<open>Disk images\<close>

lemma length_encode_header:
  "length (h_magic h) = 8 \<Longrightarrow> length (h_reserved0 h) = 7 \<Longrightarrow> length (encode_header h) = header_size"
  by (simp add: encode_header_def header_size_def)

lemma decode_encode_header:
  assumes "length (h_magic h) = 8" "length (h_reserved0 h) = 7"
  shows "decode_header (encode_header h) = h"
  by (rule DeltaDiskHeader.equality)
    (simp_all add: decode_header_def encode_header_def layout assms)

lemma length_encode_record [simp]: "length (encode_record d) = record_size"
  by (simp add: encode_record_def record_size_def)

lemma decode_encode_record [simp]: "decode_record (encode_record d) = d"
  by (rule DeltaDiskRecord.equality) (simp_all add: decode_record_def encode_record_def layout)

lemma length_encode_records [simp]:
  "length (concat (map encode_record ds)) = length ds * record_size"
  by (induction ds) simp_all

subsection \<open>Encoding\<close>

text \<open>What the encoding loop writes for one record whose value starts at \<open>off\<close>.\<close>

definition disk_of :: "nat \<Rightarrow> PropertyDeltaRecord \<Rightarrow> DeltaDiskRecord" where
  "disk_of off r =
     \<lparr> d_src = r_src r, d_dst = r_dst r, d_base_sequence = r_base_sequence r,
       d_commit_sequence = r_commit_sequence r, d_value_offset = word_of_nat off,
       d_value_length = word_of_nat (length (r_value r)), d_edge_type = r_edge_type r,
       d_is_out = (if r_is_out r then 1 else 0), d_reserved = 0 \<rparr>"

primrec disk_list :: "nat \<Rightarrow> PropertyDeltaRecord list \<Rightarrow> DeltaDiskRecord list" where
  "disk_list off [] = []"
| "disk_list off (r # rs) = disk_of off r # disk_list (off + length (r_value r)) rs"

definition value_bytes :: "PropertyDeltaRecord list \<Rightarrow> bytes" where
  "value_bytes rs = concat (map (\<lambda>r. bytes_of (r_value r)) rs)"

definition values_fit :: "PropertyDeltaRecord list \<Rightarrow> bool" where
  "values_fit rs \<longleftrightarrow> list_all (\<lambda>r. length (r_value r) < 2 ^ 32) rs"

lemma encode_records_fit:
  assumes "values_fit rs" "length vs + length (value_bytes rs) < 2 ^ 64"
  shows "encode_records rs ds vs mn mx =
    Inr (ds @ disk_list (length vs) rs, vs @ value_bytes rs,
         foldl min mn (map r_commit_sequence rs), foldl max mx (map r_commit_sequence rs))"
  using assms
proof (induction rs arbitrary: ds vs mn mx)
  case (Cons r rs)
  then show ?case by (auto simp: values_fit_def value_bytes_def disk_of_def)
qed (simp add: value_bytes_def)

lemma encode_records_Inr:
  assumes "encode_records rs ds vs mn mx = Inr out" "length vs < 2 ^ 64"
  shows "values_fit rs \<and> length vs + length (value_bytes rs) < 2 ^ 64"
  using assms
proof (induction rs arbitrary: ds vs mn mx)
  case (Cons r rs)
  then show ?case
    by (force simp: values_fit_def value_bytes_def not_less split: if_splits)
qed (simp add: value_bytes_def values_fit_def)

lemma length_disk_list [simp]: "length (disk_list off rs) = length rs"
  by (induction rs arbitrary: off) simp_all

lemma nth_disk_list:
  "i < length rs \<Longrightarrow>
   disk_list off rs ! i = disk_of (off + sum_list (map (length \<circ> r_value) (take i rs))) (rs ! i)"
proof (induction rs arbitrary: off i)
  case (Cons r rs)
  then show ?case by (cases i) (simp_all add: add.assoc)
qed simp

lemma value_slice:
  assumes "i < length rs"
  shows "slice (sum_list (map (length \<circ> r_value) (take i rs))) (length (r_value (rs ! i)))
           (value_bytes rs) = bytes_of (r_value (rs ! i))"
    and "sum_list (map (length \<circ> r_value) (take i rs)) + length (r_value (rs ! i))
           \<le> length (value_bytes rs)"
proof -
  let ?xss = "map (\<lambda>r. bytes_of (r_value r)) rs"
  have sum: "sum_list (map length (take i ?xss)) = sum_list (map (length \<circ> r_value) (take i rs))"
    by (simp add: take_map comp_def)
  show "slice (sum_list (map (length \<circ> r_value) (take i rs))) (length (r_value (rs ! i)))
           (value_bytes rs) = bytes_of (r_value (rs ! i))"
    using slice_concat_at [of i ?xss] assms by (simp add: sum value_bytes_def)
  have "rs = take i rs @ rs ! i # drop (Suc i) rs" using assms by (rule id_take_nth_drop)
  then have "length (value_bytes rs) =
      sum_list (map (length \<circ> r_value) (take i rs @ rs ! i # drop (Suc i) rs))"
    by (simp add: value_bytes_def length_concat comp_def)
  then show "sum_list (map (length \<circ> r_value) (take i rs)) + length (r_value (rs ! i))
           \<le> length (value_bytes rs)" by simp
qed

subsection \<open>The image of a created file\<close>

definition created_header :: "PropertyDeltaTarget \<Rightarrow> u64 \<Rightarrow> PropertyDeltaRecord list \<Rightarrow> DeltaDiskHeader" where
  "created_header target gen rs =
     make_header target gen (disk_list 0 rs) (value_bytes rs)
       (foldl min kLatestPropertyCommit (map r_commit_sequence rs))
       (foldl max 0 (map r_commit_sequence rs))"

definition created_image :: "PropertyDeltaTarget \<Rightarrow> u64 \<Rightarrow> PropertyDeltaRecord list \<Rightarrow> bytes" where
  "created_image target gen rs =
     encode_header (created_header target gen rs) @
     concat (map encode_record (disk_list 0 rs)) @ value_bytes rs"

definition image_size :: "PropertyDeltaRecord list \<Rightarrow> nat" where
  "image_size rs = header_size + length rs * record_size + length (value_bytes rs)"

lemma created_header_fields [simp]:
  "h_magic (created_header target gen rs) = kMagic"
  "h_version (created_header target gen rs) = kFormatVersion"
  "h_header_bytes (created_header target gen rs) = word_of_nat header_size"
  "h_object_kind (created_header target gen rs) = kind_byte (t_kind target)"
  "h_reserved0 (created_header target gen rs) = replicate 7 0"
  "h_shard_id (created_header target gen rs) = t_shard_id target"
  "h_property_id (created_header target gen rs) = t_property_id target"
  "h_base_file_id (created_header target gen rs) = t_base_file_id target"
  "h_base_generation (created_header target gen rs) = t_base_generation target"
  "h_file_generation (created_header target gen rs) = gen"
  "h_record_count (created_header target gen rs) = word_of_nat (length rs)"
  "h_records_offset (created_header target gen rs) = word_of_nat header_size"
  "h_values_offset (created_header target gen rs) =
     word_of_nat header_size + word_of_nat (length rs * record_size)"
  "h_values_bytes (created_header target gen rs) = word_of_nat (length (value_bytes rs))"
  "h_min_commit_sequence (created_header target gen rs) =
     foldl min kLatestPropertyCommit (map r_commit_sequence rs)"
  "h_max_commit_sequence (created_header target gen rs) = foldl max 0 (map r_commit_sequence rs)"
  "h_payload_checksum (created_header target gen rs) =
     ExtendChecksum fnv_offset (concat (map encode_record (disk_list 0 rs)) @ value_bytes rs)"
  by (simp_all add: created_header_def make_header_def Let_def)

lemma created_header_checksum:
  "h_header_checksum (created_header target gen rs) = HeaderChecksum (created_header target gen rs)"
  by (simp add: created_header_def make_header_def Let_def HeaderChecksum_def)

lemma length_kMagic [simp]: "length kMagic = 8"
  by (simp add: kMagic_def)

lemma length_created_header [simp]: "length (encode_header (created_header target gen rs)) = header_size"
  by (simp add: length_encode_header)

lemma length_created_image [simp]: "length (created_image target gen rs) = image_size rs"
  by (simp add: created_image_def image_size_def)

lemma decode_created_header:
  "decode_header (slice 0 header_size (created_image target gen rs)) = created_header target gen rs"
  by (simp add: created_image_def decode_encode_header)

lemma load_created:
  assumes "i < length rs"
  shows "LoadDiskRecord (created_image target gen rs) (word_of_nat header_size) i = disk_list 0 rs ! i"
proof -
  have "slice (i * record_size) record_size (concat (map encode_record (disk_list 0 rs)) @ value_bytes rs)
      = encode_record (disk_list 0 rs ! i)"
    using assms by (intro slice_concat) simp_all
  moreover have "unat (word_of_nat header_size :: u64) = header_size"
    by (simp add: header_size_def)
  ultimately show ?thesis
    by (simp add: LoadDiskRecord_def created_image_def slice_skip)
qed

text \<open>Reading record \<open>i\<close> of the image gives back record \<open>i\<close>.\<close>

lemma created_value:
  assumes "i < length rs" "values_fit rs" "image_size rs < 2 ^ 64"
  defines "d \<equiv> disk_list 0 rs ! i"
  defines "vo \<equiv> (word_of_nat header_size + word_of_nat (length rs * record_size) :: u64)"
  shows "unat (vo + d_value_offset d) =
           header_size + length rs * record_size + sum_list (map (length \<circ> r_value) (take i rs))"
    and "unat (d_value_offset d) = sum_list (map (length \<circ> r_value) (take i rs))"
    and "unat (d_value_length d) = length (r_value (rs ! i))"
    and "DiskRecordToRecord d (created_image target gen rs) vo = rs ! i"
proof -
  let ?off = "sum_list (map (length \<circ> r_value) (take i rs))"
  have d: "d = disk_of ?off (rs ! i)" using assms(1) by (simp add: d_def nth_disk_list)
  have le: "?off + length (r_value (rs ! i)) \<le> length (value_bytes rs)"
    using assms(1) by (rule value_slice)
  have "length (r_value (rs ! i)) < 2 ^ 32"
    using assms(1,2) by (simp add: values_fit_def list_all_length)
  then show len: "unat (d_value_length d) = length (r_value (rs ! i))"
    by (simp add: d disk_of_def unat_of_nat)
  show "unat (d_value_offset d) = ?off"
    using le assms(3) by (simp add: d disk_of_def unat_of_nat image_size_def)
  have "vo + d_value_offset d = word_of_nat (header_size + length rs * record_size + ?off)"
    by (simp add: vo_def d disk_of_def)
  then show off: "unat (vo + d_value_offset d) = header_size + length rs * record_size + ?off"
    using le assms(3) by (simp add: unat_of_nat image_size_def del: of_nat_add)
  have "slice (header_size + length rs * record_size + ?off) (length (r_value (rs ! i)))
      (created_image target gen rs) = bytes_of (r_value (rs ! i))"
    using value_slice(1) [OF assms(1)] by (simp add: created_image_def slice_skip)
  then show "DiskRecordToRecord d (created_image target gen rs) vo = rs ! i"
    unfolding DiskRecordToRecord_def off len by (simp add: d disk_of_def)
qed

subsection \<open>Validated files\<close>

definition load_at :: "PropertyDeltaFile \<Rightarrow> nat \<Rightarrow> DeltaDiskRecord" where
  "load_at f i = LoadDiskRecord (f_mapping f) (f_records_offset f) i"

definition file_records :: "PropertyDeltaFile \<Rightarrow> PropertyDeltaRecord list" where
  "file_records f =
     map (\<lambda>i. DiskRecordToRecord (load_at f i) (f_mapping f) (f_values_offset f))
       [0 ..< unat (m_record_count (f_metadata f))]"

text \<open>What validation establishes: every record and every value lies inside the mapping, and the
  records are in version order.\<close>

definition delta_file_valid :: "PropertyDeltaFile \<Rightarrow> bool" where
  "delta_file_valid f \<longleftrightarrow>
     (let n = unat (m_record_count (f_metadata f)) in
      length (f_mapping f) < 2 ^ 64 \<and>
      unat (f_records_offset f) + n * record_size \<le> length (f_mapping f) \<and>
      list_all (\<lambda>i. unat (f_values_offset f) + unat (d_value_offset (load_at f i)) +
                     unat (d_value_length (load_at f i)) \<le> length (f_mapping f)) [0 ..< n] \<and>
      sorted (map rversion (file_records f)))"

lemma first_error_None: "first_error f is = None \<longleftrightarrow> list_all (\<lambda>i. f i = None) is"
  by (induction "is") (auto split: option.splits)

lemma rversion_disk:
  "rversion (DiskRecordToRecord d mapping vo) = rversion (disk_order_record d)"
  by (simp add: rversion_def rkey_def DiskRecordToRecord_def disk_order_record_def)

lemma validate_header_None:
  assumes "validate_header mapping h = None" "length mapping < 2 ^ 64"
  shows "h_records_offset h = word_of_nat header_size"
    and "unat (h_records_offset h) + unat (h_record_count h) * record_size = unat (h_values_offset h)"
    and "unat (h_values_offset h) + unat (h_values_bytes h) = length mapping"
    and "\<And>i. i < unat (h_record_count h) \<Longrightarrow> validate_record mapping h i = None"
    and "IsValidObjectKind (h_object_kind h)"
proof -
  note v = assms(1) [unfolded validate_header_def Let_def]
  show kind: "IsValidObjectKind (h_object_kind h)" using v by (auto split: if_splits)
  have g1: "h_record_count h \<le> (- 1 - h_records_offset h) div word_of_nat record_size"
    and g2: "h_values_bytes h \<le> - 1 - h_values_offset h"
    and off: "h_records_offset h = word_of_nat header_size"
    and vo: "h_values_offset h = h_records_offset h + h_record_count h * word_of_nat record_size"
    and ve: "h_values_offset h + h_values_bytes h = word_of_nat (length mapping)"
    and recs: "first_error (validate_record mapping h) [0 ..< unat (h_record_count h)] = None"
    using v by (auto split: if_splits simp: not_less)
  show "h_records_offset h = word_of_nat header_size" by (fact off)
  have "unat (h_record_count h) \<le> (2 ^ 64 - 1 - unat (h_records_offset h)) div record_size"
    using g1 by (simp add: word_le_nat_alt unat_div unat_minus_one_minus record_size_def)
  moreover have "unat (h_records_offset h) < 2 ^ LENGTH(64)" by (rule unsigned_less)
  ultimately have b: "unat (h_records_offset h) + unat (h_record_count h) * record_size < 2 ^ 64"
    by (simp add: less_eq_div_iff_mult_less_eq record_size_def)
  have "unat (h_record_count h * word_of_nat record_size) = unat (h_record_count h) * record_size"
    using b by (simp add: unat_word_ariths record_size_def)
  then show "unat (h_records_offset h) + unat (h_record_count h) * record_size = unat (h_values_offset h)"
    using b by (simp add: vo unat_add_guard)
  have "unat (h_values_offset h + h_values_bytes h) = length mapping"
    using ve assms(2) by (simp add: unat_of_nat)
  then show "unat (h_values_offset h) + unat (h_values_bytes h) = length mapping"
    using unat_add_le_guard [OF g2] by simp
  show "validate_record mapping h i = None" if "i < unat (h_record_count h)" for i
    using recs that by (simp add: first_error_None list_all_iff)
qed

lemma opened_valid:
  assumes "OpenAndValidate io fs path = Inr f" "fs path = Some mapping" "length mapping < 2 ^ 64"
  shows "delta_file_valid f" and "f_mapping f = mapping"
proof -
  define h where "h = decode_header (slice 0 header_size mapping)"
  have v: "validate_header mapping h = None" and f: "f = file_of_header path mapping h"
    using assms(1,2) by (auto simp: OpenAndValidate_def Let_def h_def split: if_splits option.splits)
  note facts = validate_header_None [OF v assms(3)]
  show m: "f_mapping f = mapping" by (simp add: f file_of_header_def)
  have n: "m_record_count (f_metadata f) = h_record_count h"
    and load: "load_at f i = LoadDiskRecord mapping (h_records_offset h) i"
    and vo: "f_values_offset f = h_values_offset h"
    and ro: "f_records_offset f = h_records_offset h" for i
    by (simp_all add: f file_of_header_def load_at_def)
  have bounds: "unat (h_values_offset h) + unat (d_value_offset (load_at f i)) +
      unat (d_value_length (load_at f i)) \<le> length mapping" if "i < unat (h_record_count h)" for i
  proof -
    let ?d = "load_at f i"
    have le: "d_value_offset ?d \<le> h_values_bytes h"
      "ucast (d_value_length ?d) \<le> h_values_bytes h - d_value_offset ?d"
      using facts(4) [OF that] by (auto simp: validate_record_def Let_def load not_less split: if_splits)
    then have "unat (d_value_length ?d) \<le> unat (h_values_bytes h) - unat (d_value_offset ?d)"
      by (simp add: word_le_nat_alt unat_sub unat_ucast_widen)
    moreover have "unat (d_value_offset ?d) \<le> unat (h_values_bytes h)"
      using le(1) by (simp add: word_le_nat_alt)
    ultimately show ?thesis using facts(3) by simp
  qed
  have "sorted (map rversion (file_records f))"
    unfolding sorted_map
  proof (rule sorted_wrt_adjacent)
    show "transp (\<lambda>x y. rversion x \<le> rversion y)" by (auto simp: transp_def)
    fix i assume i: "Suc i < length (file_records f)"
    then have "Suc i < unat (h_record_count h)" by (simp add: file_records_def n)
    from facts(4) [OF this]
    have "\<not> RecordLess (disk_order_record (load_at f (Suc i))) (disk_order_record (load_at f i))"
      by (auto simp: validate_record_def Let_def load split: if_splits)
    with i show "rversion (file_records f ! i) \<le> rversion (file_records f ! Suc i)"
      by (simp add: RecordLess_version file_records_def rversion_disk not_less)
  qed
  then show "delta_file_valid f"
    using assms(3) facts(2,3) bounds
    by (simp add: delta_file_valid_def Let_def n m vo ro list_all_iff)
qed

subsection \<open>Lookup\<close>

text \<open>The contract of a file written by \<^verbatim>\<open>Create\<close>: valid, direction bytes 0 or 1, and commit bounds
  that hold of every record.\<close>

definition delta_file_ok :: "PropertyDeltaFile \<Rightarrow> bool" where
  "delta_file_ok f \<longleftrightarrow> delta_file_valid f \<and>
     list_all (\<lambda>i. d_is_out (load_at f i) \<le> 1) [0 ..< unat (m_record_count (f_metadata f))] \<and>
     list_all (\<lambda>r. m_min_commit_sequence (f_metadata f) \<le> r_commit_sequence r \<and>
                    r_commit_sequence r \<le> m_max_commit_sequence (f_metadata f)) (file_records f)"

lemma length_file_records [simp]:
  "length (file_records f) = unat (m_record_count (f_metadata f))"
  by (simp add: file_records_def)

lemma nth_file_records:
  "i < unat (m_record_count (f_metadata f)) \<Longrightarrow>
   file_records f ! i = DiskRecordToRecord (load_at f i) (f_mapping f) (f_values_offset f)"
  by (simp add: file_records_def)

lemma CompareDisk_key:
  assumes "d_is_out d \<le> 1"
  shows "CompareDiskLogicalKey d src dst base is_out et < 0 \<longleftrightarrow>
           rkey (disk_order_record d) < key_of src dst is_out et base"
    and "CompareDiskLogicalKey d src dst base is_out et = 0 \<longleftrightarrow>
           rkey (disk_order_record d) = key_of src dst is_out et base"
proof -
  define r2 where "r2 = \<lparr> r_src = src, r_dst = dst, r_base_sequence = base, r_commit_sequence = 0,
     r_is_out = is_out, r_edge_type = et, r_value = [] \<rparr>"
  have dir: "d_is_out d \<noteq> (if is_out then 1 else 0) \<longleftrightarrow> (d_is_out d \<noteq> 0) \<noteq> is_out"
    "d_is_out d < (if is_out then 1 else 0) \<longleftrightarrow> is_out \<and> \<not> d_is_out d \<noteq> 0"
    using assms unfolding word_le_one by (cases is_out; auto)+
  have "CompareDiskLogicalKey d src dst base is_out et = CompareLogicalKey (disk_order_record d) r2"
    if "d_is_out d \<noteq> 0 \<longleftrightarrow> is_out"
    unfolding CompareDiskLogicalKey_def CompareLogicalKey_def Let_def dir
    by (simp only: that) (simp add: r2_def disk_order_record_def that [simplified])
  moreover have "CompareDiskLogicalKey d src dst base is_out et = CompareLogicalKey (disk_order_record d) r2"
    if "(d_is_out d \<noteq> 0) \<noteq> is_out"
    unfolding CompareDiskLogicalKey_def CompareLogicalKey_def Let_def dir
    using that by (cases is_out) (simp_all add: r2_def disk_order_record_def)
  ultimately have eq: "CompareDiskLogicalKey d src dst base is_out et =
      CompareLogicalKey (disk_order_record d) r2" by blast
  have k: "rkey r2 = key_of src dst is_out et base" by (simp add: rkey_def r2_def)
  show "CompareDiskLogicalKey d src dst base is_out et < 0 \<longleftrightarrow>
      rkey (disk_order_record d) < key_of src dst is_out et base"
    by (simp add: eq CompareLogicalKey_less k)
  show "CompareDiskLogicalKey d src dst base is_out et = 0 \<longleftrightarrow>
      rkey (disk_order_record d) = key_of src dst is_out et base"
    by (simp add: eq CompareLogicalKey_zero k)
qed

lemma rkey_disk: "rkey (DiskRecordToRecord d mapping vo) = rkey (disk_order_record d)"
  by (simp add: rkey_def DiskRecordToRecord_def disk_order_record_def)

text \<open>The value read for a validated record: the bounds check passes and the sums do not wrap.\<close>

lemma value_in_bounds:
  assumes "delta_file_valid f" "i < unat (m_record_count (f_metadata f))"
  shows "f_values_offset f + d_value_offset (load_at f i) + ucast (d_value_length (load_at f i))
           \<le> word_of_nat (length (f_mapping f))"
    and "unat (f_values_offset f + d_value_offset (load_at f i)) +
           unat (d_value_length (load_at f i)) \<le> length (f_mapping f)"
proof -
  let ?d = "load_at f i"
  have le: "unat (f_values_offset f) + unat (d_value_offset ?d) + unat (d_value_length ?d)
      \<le> length (f_mapping f)" and len: "length (f_mapping f) < 2 ^ 64"
    using assms by (auto simp: delta_file_valid_def Let_def list_all_iff)
  have 1: "unat (f_values_offset f + d_value_offset ?d) = unat (f_values_offset f) + unat (d_value_offset ?d)"
    using le len by (intro unat_add_guard) simp
  then show "unat (f_values_offset f + d_value_offset ?d) + unat (d_value_length ?d) \<le> length (f_mapping f)"
    using le by simp
  then have 2: "unat (f_values_offset f + d_value_offset ?d + ucast (d_value_length ?d)) =
      unat (f_values_offset f + d_value_offset ?d) + unat (ucast (d_value_length ?d) :: u64)"
    using len by (intro unat_add_guard) (simp add: unat_ucast_widen)
  show "f_values_offset f + d_value_offset ?d + ucast (d_value_length ?d)
      \<le> word_of_nat (length (f_mapping f))"
    using le len by (simp add: word_le_nat_alt 1 2 unat_ucast_widen unat_of_nat)
qed


lemma Lookup_newest:
  assumes ok: "delta_file_ok f"
  shows "Lookup f src dst base is_out et s =
    map_option (\<lambda>r. (r_value r, r_commit_sequence r))
      (newest (key_of src dst is_out et base) s (file_records f))"
proof -
  define xs where "xs = file_records f"
  define k where "k = key_of src dst is_out et base"
  define n where "n = unat (m_record_count (f_metadata f))"
  define cmp where "cmp i = CompareDiskLogicalKey (load_at f i) src dst base is_out et" for i
  define p2 where "p2 i \<longleftrightarrow> cmp i < 0 \<or> cmp i = 0 \<and> d_commit_sequence (load_at f i) \<le> s" for i
  define first where "first = bsearch (\<lambda>i. cmp i < 0) 0 n"
  define low where "low = bsearch p2 first n"
  have valid: "delta_file_valid f" using ok by (simp add: delta_file_ok_def)
  have len: "length xs = n" by (simp add: xs_def n_def)
  have srt: "sorted (map rversion xs)" using valid by (simp add: delta_file_valid_def Let_def xs_def)
  have xi: "xs ! i = DiskRecordToRecord (load_at f i) (f_mapping f) (f_values_offset f)" if "i < n" for i
    using that by (simp add: xs_def n_def nth_file_records)
  have cmp: "cmp i < 0 \<longleftrightarrow> rkey (xs ! i) < k" "cmp i = 0 \<longleftrightarrow> rkey (xs ! i) = k" if "i < n" for i
    using ok that CompareDisk_key [of "load_at f i"]
    by (simp_all add: cmp_def k_def xi rkey_disk delta_file_ok_def list_all_iff n_def)
  have p2: "p2 i \<longleftrightarrow> rversion (xs ! i) \<le> (k, s)" if "i < n" for i
    using that by (auto simp: p2_def cmp rversion_def xi DiskRecordToRecord_def)
  have search: "newest k s xs =
      (if first = n \<or> rkey (xs ! first) \<noteq> k \<or> low = first then None else Some (xs ! (low - 1)))"
    using lookup_search(1) [of xs "\<lambda>i. cmp i < 0" k p2 s first low] srt cmp(1) p2
    by (simp add: len first_def low_def)
  have sel: "low - 1 < n \<and> rkey (xs ! (low - 1)) = k \<and> r_commit_sequence (xs ! (low - 1)) \<le> s"
    if "first \<noteq> n" "rkey (xs ! first) = k" "low \<noteq> first"
    using lookup_search(2) [of xs "\<lambda>i. cmp i < 0" k p2 s first low] srt cmp(1) p2 that
    by (simp add: len first_def low_def)
  have first_le: "first \<le> n" unfolding first_def using bsearch_bounds by blast
  have unfold_Lookup: "Lookup f src dst base is_out et s =
    (if n = 0 \<or> m_min_commit_sequence (f_metadata f) > s then None
     else if first = n \<or> cmp first \<noteq> 0 \<or> low = first then None
     else if cmp (low - 1) \<noteq> 0 \<or> d_commit_sequence (load_at f (low - 1)) > s then None
     else if f_values_offset f + d_value_offset (load_at f (low - 1)) +
        ucast (d_value_length (load_at f (low - 1))) > word_of_nat (length (f_mapping f)) then None
     else Some (r_value (DiskRecordToRecord (load_at f (low - 1)) (f_mapping f) (f_values_offset f)),
                d_commit_sequence (load_at f (low - 1))))"
    by (simp add: Lookup_def Let_def load_at_def n_def first_def low_def p2_def [abs_def] cmp_def
        DiskRecordToRecord_def unat_eq_0)
  show ?thesis
  proof (cases "n = 0 \<or> m_min_commit_sequence (f_metadata f) > s")
    case True
    have "newest k s xs = None"
      unfolding newest_None
    proof (intro allI impI notI)
      fix r assume r: "r \<in> set xs" "rkey r = k \<and> r_commit_sequence r \<le> s"
      then have "m_min_commit_sequence (f_metadata f) \<le> r_commit_sequence r" "xs \<noteq> []"
        using ok by (auto simp: delta_file_ok_def list_all_iff xs_def)
      with r True len show False by auto
    qed
    with True show ?thesis by (simp add: unfold_Lookup k_def xs_def)
  next
    case small: False
    show ?thesis
    proof (cases "first = n \<or> cmp first \<noteq> 0 \<or> low = first")
      case True
      moreover have "cmp first = 0 \<longleftrightarrow> rkey (xs ! first) = k" if "first \<noteq> n"
        using that first_le by (intro cmp(2)) simp
      ultimately have "newest k s xs = None" using search by auto
      with True show ?thesis by (simp add: unfold_Lookup k_def xs_def)
    next
      case False
      then have sel: "newest k s xs = Some (xs ! (low - 1))"
        "low - 1 < n" "rkey (xs ! (low - 1)) = k" "r_commit_sequence (xs ! (low - 1)) \<le> s"
        using search sel cmp(2) [of first] first_le by auto
      with False small cmp(2) value_in_bounds(1) [OF valid, of "low - 1"] show ?thesis
        unfolding unfold_Lookup
        by (auto simp: k_def [symmetric] xs_def [symmetric] n_def xi not_less DiskRecordToRecord_def)
    qed
  qed
qed

subsection \<open>Opening what was created\<close>

lemma kind_byte_valid [simp]:
  "IsValidObjectKind (kind_byte kd)" "kind_of_byte (kind_byte kd) = kd"
  by (cases kd; simp add: IsValidObjectKind_def kind_of_byte_def)+

lemma created_record_valid:
  assumes "i < length rs" "values_fit rs" "image_size rs < 2 ^ 64" "sorted (map rversion rs)"
  shows "validate_record (created_image target gen rs) (created_header target gen rs) i = None"
proof -
  let ?m = "created_image target gen rs"
  let ?d = "disk_list 0 rs ! i"
  have le: "sum_list (map (length \<circ> r_value) (take i rs)) + length (r_value (rs ! i))
      \<le> length (value_bytes rs)"
    using assms(1) by (rule value_slice)
  have vb: "unat (word_of_nat (length (value_bytes rs)) :: u64) = length (value_bytes rs)"
    using assms(3) by (simp add: unat_of_nat image_size_def)
  have off: "d_value_offset ?d \<le> word_of_nat (length (value_bytes rs))"
    using created_value(2) [OF assms(1-3)] le vb by (simp add: word_le_nat_alt)
  have "unat (ucast (d_value_length ?d) :: u64) \<le>
      unat (word_of_nat (length (value_bytes rs)) - d_value_offset ?d)"
    using created_value(2,3) [OF assms(1-3)] le
    by (simp add: unat_sub [OF off] unat_ucast_widen vb)
  then have len: "ucast (d_value_length ?d) \<le> word_of_nat (length (value_bytes rs)) - d_value_offset ?d"
    by (simp add: word_le_nat_alt)
  have "\<not> RecordLess (disk_order_record ?d) (disk_order_record (disk_list 0 rs ! (i - 1)))"
    if "i \<noteq> 0"
  proof -
    have ver: "rversion (disk_order_record (disk_list 0 rs ! j)) = rversion (rs ! j)" if "j < length rs" for j
      using created_value(4) [OF that assms(2,3), of target gen] by (metis rversion_disk)
    have "rversion (rs ! (i - 1)) \<le> rversion (rs ! i)"
      using sorted_nth_mono [OF assms(4), of "i - 1" i] assms(1) by simp
    with assms(1) show ?thesis by (simp add: RecordLess_version ver not_less)
  qed
  with off len assms(1) show ?thesis
    by (cases "i = 0") (simp_all add: validate_record_def Let_def load_created not_less)
qed

lemma created_validates:
  assumes "values_fit rs" "image_size rs < 2 ^ 64" "sorted (map rversion rs)"
  shows "validate_header (created_image target gen rs) (created_header target gen rs) = None"
proof -
  let ?h = "created_header target gen rs" and ?m = "created_image target gen rs"
  have sz: "header_size + length rs * record_size + length (value_bytes rs) < 2 ^ 64"
    using assms(2) by (simp add: image_size_def)
  have un: "unat (word_of_nat n :: u64) = n" if "n < 2 ^ 64" for n
    using that by (simp add: unat_of_nat)
  have small: "header_size < 2 ^ 64" "length rs < 2 ^ 64" "length rs * record_size < 2 ^ 64"
    "length (value_bytes rs) < 2 ^ 64" "image_size rs < 2 ^ 64"
    using sz by (simp_all add: header_size_def record_size_def image_size_def)
  have lm: "unat (word_of_nat (length ?m) :: u64) = image_size rs" using small by (simp add: un)
  have g1: "\<not> h_record_count ?h > (- 1 - h_records_offset ?h) div word_of_nat record_size"
    using sz small
    by (simp add: word_less_nat_alt un unat_div unat_minus_one_minus record_size_def header_size_def
        not_less less_eq_div_iff_mult_less_eq)
  have vo: "unat (h_values_offset ?h) = header_size + length rs * record_size"
    using sz small by (simp only: created_header_fields of_nat_add [symmetric]) (simp add: un del: of_nat_add)
  have g2: "\<not> h_values_bytes ?h > - 1 - h_values_offset ?h"
    using sz small vo by (simp add: word_less_nat_alt un unat_minus_one_minus not_less)
  have re: "h_values_offset ?h = h_records_offset ?h + h_record_count ?h * word_of_nat record_size"
    by simp
  have re_le: "\<not> h_values_offset ?h > word_of_nat (length ?m)"
    unfolding word_less_nat_alt vo lm by (simp add: image_size_def)
  have ve: "h_values_offset ?h + h_values_bytes ?h = word_of_nat (length ?m)"
    by (simp add: image_size_def)
  have payload: "(if word_of_nat (length ?m) > h_records_offset ?h
      then ExtendChecksum fnv_offset (slice (unat (h_records_offset ?h))
             (unat (word_of_nat (length ?m) - h_records_offset ?h)) ?m)
      else fnv_offset) = h_payload_checksum ?h"
  proof -
    have d: "word_of_nat (length ?m) - h_records_offset ?h =
        (word_of_nat (length rs * record_size + length (value_bytes rs)) :: u64)"
      by (simp add: image_size_def)
    have "unat (word_of_nat (length rs * record_size + length (value_bytes rs)) :: u64) =
        length rs * record_size + length (value_bytes rs)" using sz by (intro un) simp
    then have "slice (unat (h_records_offset ?h)) (unat (word_of_nat (length ?m) - h_records_offset ?h)) ?m
        = concat (map encode_record (disk_list 0 rs)) @ value_bytes rs"
      unfolding d using small(1) by (simp add: un created_image_def slice_skip del: of_nat_add of_nat_mult)
    moreover have "rs = []" if "\<not> word_of_nat (length ?m) > h_records_offset ?h"
      using that un [OF small(1)] unfolding word_less_nat_alt lm
      by (simp add: image_size_def record_size_def)
    ultimately show ?thesis by (auto simp: value_bytes_def)
  qed
  have recs: "first_error (validate_record ?m ?h) [0 ..< unat (h_record_count ?h)] = None"
    using created_record_valid [OF _ assms] small by (simp add: first_error_None list_all_iff un)
  have hc: "HeaderChecksum ?h = h_header_checksum ?h" by (simp add: created_header_checksum)
  show ?thesis
    unfolding validate_header_def Let_def using g1 g2 re re_le ve payload recs hc
    by (simp only: created_header_fields kind_byte_valid) simp
qed

lemma foldl_min_le: "foldl min m xs \<le> m" "x \<in> set xs \<Longrightarrow> foldl min m xs \<le> (x :: u64)"
proof (induction xs arbitrary: m)
  case (Cons y ys)
  { case 1 show ?case using Cons(1) [of "min m y"] by simp }
  { case 2 then show ?case using Cons(1) [of "min m y"] Cons(2) [of "min m y"] by auto }
qed auto

lemma foldl_max_ge: "m \<le> foldl max m xs" "x \<in> set xs \<Longrightarrow> (x :: u64) \<le> foldl max m xs"
proof (induction xs arbitrary: m)
  case (Cons y ys)
  { case 1 show ?case using Cons(1) [of "max m y"] by simp }
  { case 2 then show ?case using Cons(1) [of "max m y"] Cons(2) [of "max m y"] by auto }
qed auto

definition created_file :: "string \<Rightarrow> PropertyDeltaTarget \<Rightarrow> u64 \<Rightarrow> PropertyDeltaRecord list \<Rightarrow> PropertyDeltaFile" where
  "created_file path target gen rs =
     file_of_header path (created_image target gen rs) (created_header target gen rs)"

lemma created_file_metadata [simp]:
  "m_target (f_metadata (created_file path target gen rs)) = target"
  "m_file_generation (f_metadata (created_file path target gen rs)) = gen"
  "m_record_count (f_metadata (created_file path target gen rs)) = word_of_nat (length rs)"
  "m_min_commit_sequence (f_metadata (created_file path target gen rs)) =
     foldl min kLatestPropertyCommit (map r_commit_sequence rs)"
  "m_max_commit_sequence (f_metadata (created_file path target gen rs)) =
     foldl max 0 (map r_commit_sequence rs)"
  "f_mapping (created_file path target gen rs) = created_image target gen rs"
  "f_records_offset (created_file path target gen rs) = word_of_nat header_size"
  "f_path (created_file path target gen rs) = path"
  "f_obsolete (created_file path target gen rs) = False"
  by (simp_all add: created_file_def file_of_header_def)

lemma open_created:
  assumes "fs path = Some (created_image target gen rs)" "values_fit rs" "image_size rs < 2 ^ 64"
    "sorted (map rversion rs)"
  shows "OpenAndValidate io fs path =
    (if \<not> io_open io then Inl (DeltaIo OpenFailed) else if \<not> io_fstat io then Inl (DeltaIo FstatFailed)
     else if \<not> io_mmap io then Inl (DeltaIo MmapFailed) else Inr (created_file path target gen rs))"
proof -
  have "unat (word_of_nat (image_size rs) :: u64) = image_size rs"
    using assms(3) by (simp add: unat_of_nat)
  then have "\<not> (word_of_nat (length (created_image target gen rs)) :: u64) < word_of_nat header_size"
    by (simp add: word_less_nat_alt image_size_def header_size_def del: of_nat_add)
  with assms(1) created_validates [OF assms(2-4)] show ?thesis
    by (simp add: OpenAndValidate_def decode_created_header created_file_def)
qed

lemma created_file_records:
  assumes "values_fit rs" "image_size rs < 2 ^ 64"
  shows "file_records (created_file path target gen rs) = rs"
proof -
  have n: "unat (word_of_nat (length rs) :: u64) = length rs"
    using assms(2) by (simp add: unat_of_nat image_size_def record_size_def)
  show ?thesis
    using assms created_value(4) [OF _ assms]
    by (intro nth_equalityI)
      (auto simp: file_records_def created_file_def file_of_header_def load_at_def n load_created)
qed

lemma created_file_ok:
  assumes "values_fit rs" "image_size rs < 2 ^ 64" "sorted (map rversion rs)"
  shows "delta_file_ok (created_file path target gen rs)"
proof -
  let ?f = "created_file path target gen rs"
  define fs where "fs = [path \<mapsto> created_image target gen rs]"
  have "OpenAndValidate \<lparr>io_open = True, io_fstat = True, io_mmap = True\<rparr> fs path = Inr ?f"
    using open_created [of fs path target gen rs] assms by (simp add: fs_def)
  then have "delta_file_valid ?f"
    by (rule opened_valid(1) [where mapping = "created_image target gen rs"])
      (use assms(2) in \<open>simp_all add: fs_def\<close>)
  moreover have "d_is_out (load_at ?f i) \<le> 1" if "i < length rs" for i
    using that by (simp add: load_at_def load_created nth_disk_list disk_of_def)
  moreover have "unat (word_of_nat (length rs) :: u64) = length rs"
    using assms(2) by (simp add: unat_of_nat image_size_def record_size_def)
  moreover have "m_min_commit_sequence (f_metadata ?f) \<le> r_commit_sequence r \<and>
      r_commit_sequence r \<le> m_max_commit_sequence (f_metadata ?f)" if "r \<in> set rs" for r
    using that by (simp add: foldl_min_le foldl_max_ge)
  ultimately show ?thesis
    by (simp add: delta_file_ok_def list_all_iff created_file_records [OF assms(1,2)])
qed

subsection \<open>Publishing\<close>

lemma write_chain_result:
  "write_chain responses cs disk = Some (disk', None) \<Longrightarrow> disk' = disk @ concat cs"
proof (induction responses cs disk arbitrary: disk' rule: write_chain.induct)
  case (2 responses c cs disk)
  then obtain rest d where d: "WriteAll responses c disk = Some (rest, d, None)"
    "write_chain rest cs d = Some (disk', None)"
    by (auto split: option.splits)
  with "2.IH" [OF d(1)] WriteAll_result [OF d(1)] show ?case by simp
qed simp

lemma write_chain_succeeds:
  assumes "writes_ok responses" "length (concat cs) \<le> write_budget responses"
  shows "write_chain responses cs disk = Some (disk @ concat cs, None)"
  using assms
proof (induction cs arbitrary: responses disk)
  case (Cons c cs)
  then obtain rest where "WriteAll responses c disk = Some (rest, disk @ c, None)" "writes_ok rest"
    "write_budget responses \<le> write_budget rest + length c"
    using WriteAll_succeeds [of responses c disk] by auto
  with Cons show ?case by simp
qed simp

lemma temporary_neq [simp]: "temporary_name path pid gen \<noteq> path" "path \<noteq> temporary_name path pid gen"
  by (simp_all add: temporary_name_def)

text \<open>Every outcome of \<^verbatim>\<open>publish_file\<close>: an untouched destination, or the complete content.\<close>

lemma publish_outcome:
  assumes "publish_file io fs tmp path chunks dur = Some (fs', res)" "tmp \<noteq> path"
  shows "(fs' path = fs path \<and> (\<exists>e. res = Inl e) \<or>
          fs' path = Some (concat chunks) \<and>
            (res = OpenAndValidate (io_reopen io) fs' path \<or> (\<exists>e. res = Inl (DeltaIo e)))) \<and>
         (\<forall>q. q \<noteq> path \<and> q \<noteq> tmp \<longrightarrow> fs' q = fs q)"
proof (cases "fs tmp \<noteq> None \<or> \<not> io_open_temporary io")
  case True
  with assms show ?thesis by (auto simp: publish_file_def)
next
  case False
  with assms obtain content we where c: "write_chain (io_writes io) chunks [] = Some (content, we)"
    by (auto simp: publish_file_def split: option.splits)
  have full: "we = None \<Longrightarrow> content = concat chunks" using write_chain_result [of _ chunks "[]"] c by simp
  show ?thesis
    using assms False c full
    by (auto simp: publish_file_def Let_def split: if_splits option.splits)
qed

lemma publish_succeeds:
  assumes "fs tmp = None" "io_open_temporary io" "writes_ok (io_writes io)"
    "length (concat chunks) \<le> write_budget (io_writes io)" "io_fdatasync io" "io_close io"
    "io_rename io" "io_open_directory io" "io_fsync_directory io" "tmp \<noteq> path"
  defines "fs' \<equiv> fs(tmp := None, path \<mapsto> concat chunks)"
  shows "publish_file io fs tmp path chunks dur = Some (fs', OpenAndValidate (io_reopen io) fs' path)"
  using assms write_chain_succeeds [of "io_writes io" chunks "[]"]
  by (simp add: publish_file_def SyncParentDirectory_def Let_def)

lemma Create_encoded:
  assumes "records \<noteq> []" "t_base_file_id target \<noteq> kInvalidFileId"
    "values_fit (prepare_records records)" "image_size (prepare_records records) < 2 ^ 64"
  shows "Create io pid fs path target gen records dur =
    publish_file io fs (temporary_name path pid gen) path
      [encode_header (created_header target gen (prepare_records records)),
       concat (map encode_record (disk_list 0 (prepare_records records))),
       value_bytes (prepare_records records)] dur"
  using assms encode_records_fit [of "prepare_records records" "[]" "[]" kLatestPropertyCommit 0]
  by (simp add: Create_def image_size_def created_header_def)

lemma Create_Inr:
  assumes "Create io pid fs path target gen records dur = Some (fs', Inr f)"
    and size: "image_size (prepare_records records) < 2 ^ 64"
  shows "f = created_file path target gen (prepare_records records) \<and>
    values_fit (prepare_records records) \<and> fs' path = Some (f_mapping f)"
proof -
  let ?rs = "prepare_records records"
  have ne: "records \<noteq> []" and id: "t_base_file_id target \<noteq> kInvalidFileId"
    using assms(1) by (auto simp: Create_def split: if_splits)
  obtain out where "encode_records ?rs [] [] kLatestPropertyCommit 0 = Inr out"
    using assms(1) ne id by (auto simp: Create_def split: sum.splits)
  then have fit: "values_fit ?rs" using encode_records_Inr [of ?rs "[]" "[]"] by simp
  let ?chunks = "[encode_header (created_header target gen ?rs),
       concat (map encode_record (disk_list 0 ?rs)), value_bytes ?rs]"
  have img: "concat ?chunks = created_image target gen ?rs" by (simp add: created_image_def)
  have pub: "publish_file io fs (temporary_name path pid gen) path ?chunks dur = Some (fs', Inr f)"
    using assms(1) Create_encoded [OF ne id fit size] by simp
  from publish_outcome [OF this] img
  have at: "fs' path = Some (created_image target gen ?rs)"
    and op: "Inr f = OpenAndValidate (io_reopen io) fs' path" by auto
  have "sorted (map rversion ?rs)"
    using prepare_sorted [of records] by (rule strict_sorted_imp_sorted)
  with open_created [of fs' path, OF at fit size] op
  have "f = created_file path target gen ?rs" by (auto split: if_splits)
  with fit at show ?thesis by simp
qed

subsection \<open>Visiting\<close>

text \<open>The abstract traversal: hand each record to the visitor until it says stop.\<close>

primrec visit_list :: "(PropertyDeltaRecord \<Rightarrow> 's \<Rightarrow> bool \<times> 's) \<Rightarrow> PropertyDeltaRecord list \<Rightarrow> 's \<Rightarrow> bool \<times> 's" where
  "visit_list visitor [] s = (True, s)"
| "visit_list visitor (r # rs) s =
     (case visitor r s of (False, s') \<Rightarrow> (False, s') | (True, s') \<Rightarrow> visit_list visitor rs s')"

lemma ForEachRecord_valid:
  assumes "delta_file_valid f"
  shows "ForEachRecord f visitor s = visit_list visitor (file_records f) s"
proof -
  have "visit_records f visitor is s =
      visit_list visitor (map (\<lambda>i. DiskRecordToRecord (load_at f i) (f_mapping f) (f_values_offset f)) is) s"
    if "list_all (\<lambda>i. i < unat (m_record_count (f_metadata f))) is" for "is" s
    using that
  proof (induction "is" arbitrary: s)
    case (Cons i "is")
    then show ?case
      using value_in_bounds(1) [OF assms, of i]
      by (auto simp: load_at_def Let_def not_less split: prod.splits bool.splits)
  qed simp
  then show ?thesis by (simp add: ForEachRecord_def file_records_def list_all_iff)
qed

lemma visit_list_collect:
  "visit_list (\<lambda>r acc. (True, acc @ [r])) rs acc = (True, acc @ rs)"
  by (induction rs arbitrary: acc) simp_all

subsection \<open>Corruption\<close>

lemma encode_decode_header:
  assumes "length bs = 120"
  shows "encode_header (decode_header bs) = bs"
proof -
  have le: "le_bytes n (le_word (slice a n bs) :: 'a::len word) = slice a n bs"
    if "a + n \<le> 120" "8 * n \<le> LENGTH('a)" for a n
    using le_bytes_le_word [of "slice a n bs", where 'a = 'a] that assms by simp
  show ?thesis
    unfolding encode_header_def decode_header_def
    by (simp only: DeltaDiskHeader.select_convs) (simp add: le slice_join slice_all assms del: le_bytes.simps One_nat_def)
qed

lemma HeaderChecksum_decode:
  assumes "length bs = 120"
  shows "HeaderChecksum (decode_header bs) = Checksum (take 112 bs @ replicate 8 0)"
proof -
  have "encode_header ((decode_header bs)\<lparr>h_header_checksum := 0\<rparr>) =
      take 112 (encode_header (decode_header bs)) @ le_bytes 8 (0 :: u64)"
    using assms by (simp add: encode_header_def decode_header_def)
  moreover have "le_bytes 8 (0 :: u64) = replicate 8 0" by (simp add: numeral_eq_Suc)
  ultimately show ?thesis by (simp add: HeaderChecksum_def encode_decode_header assms)
qed

text \<open>A header whose checksum matches does not match any more after one byte changed.\<close>

lemma header_byte_detected:
  assumes "length bs = 120" "i < 120" "v \<noteq> bs ! i"
    and ok: "HeaderChecksum (decode_header bs) = h_header_checksum (decode_header bs)"
  shows "HeaderChecksum (decode_header (bs[i := v])) \<noteq> h_header_checksum (decode_header (bs[i := v]))"
proof (cases "i < 112")
  case True
  have "Checksum ((take 112 bs @ replicate 8 0)[i := v]) \<noteq> Checksum (take 112 bs @ replicate 8 0)"
    unfolding Checksum_def using assms True by (intro ExtendChecksum_update) (simp_all add: nth_append)
  moreover have "(take 112 bs @ replicate 8 0)[i := v] = take 112 (bs[i := v]) @ replicate 8 0"
    using True assms by (simp add: list_update_append take_update_swap)
  moreover have "h_header_checksum (decode_header (bs[i := v])) = h_header_checksum (decode_header bs)"
    using True by (simp add: decode_header_def slice_update_outside)
  ultimately show ?thesis using ok assms(1) by (simp add: HeaderChecksum_decode)
next
  case False
  have "take 112 (bs[i := v]) = take 112 bs" using False by (simp add: take_update_cancel)
  then have same: "HeaderChecksum (decode_header (bs[i := v])) = HeaderChecksum (decode_header bs)"
    using assms(1) by (simp add: HeaderChecksum_decode)
  have "(slice 112 8 bs)[i - 112 := v] \<noteq> slice 112 8 bs"
  proof
    assume "(slice 112 8 bs)[i - 112 := v] = slice 112 8 bs"
    then have "(slice 112 8 bs)[i - 112 := v] ! (i - 112) = slice 112 8 bs ! (i - 112)" by simp
    with assms False show False by (simp add: slice_def)
  qed
  moreover have "le_bytes 8 (le_word (slice 112 8 (bs[i := v])) :: u64) = (slice 112 8 bs)[i - 112 := v]"
    "le_bytes 8 (le_word (slice 112 8 bs) :: u64) = slice 112 8 bs"
    using assms False le_bytes_le_word [of "slice 112 8 (bs[i := v])", where 'a = 64]
      le_bytes_le_word [of "slice 112 8 bs", where 'a = 64]
    by (simp_all add: slice_update_inside)
  ultimately have "h_header_checksum (decode_header (bs[i := v])) \<noteq> h_header_checksum (decode_header bs)"
    by (auto simp: decode_header_def)
  with ok same show ?thesis by simp
qed

lemma payload_byte_detected:
  assumes "validate_header m h = None" "header_size \<le> i" "i < length m" "length m < 2 ^ 64" "v \<noteq> m ! i"
  shows "validate_header (m[i := v]) h \<noteq> None"
proof
  assume bad: "validate_header (m[i := v]) h = None"
  have off: "h_records_offset h = word_of_nat header_size"
    using validate_header_None(1) [OF assms(1,4)] .
  have un: "unat (word_of_nat (length m) :: u64) = length m" "unat (word_of_nat header_size :: u64) = header_size"
    using assms(4) by (simp_all add: unat_of_nat header_size_def)
  have gt: "(word_of_nat (length m) :: u64) > h_records_offset h"
    using assms(2,3) by (simp add: word_less_nat_alt un off)
  have len: "unat (word_of_nat (length m) - h_records_offset h :: u64) = length m - header_size"
    using gt by (simp add: off unat_sub un)
  have "ExtendChecksum fnv_offset (slice header_size (length m - header_size) m) = h_payload_checksum h"
    using assms(1) gt len by (auto simp: validate_header_def Let_def off un split: if_splits)
  moreover have "ExtendChecksum fnv_offset (slice header_size (length m - header_size) (m[i := v])) =
      h_payload_checksum h"
    using bad gt len by (auto simp: validate_header_def Let_def off un split: if_splits)
  moreover have "slice header_size (length m - header_size) (m[i := v]) =
      (slice header_size (length m - header_size) m)[i - header_size := v]"
    using assms(2,3) by (intro slice_update_inside) simp_all
  moreover have "v \<noteq> slice header_size (length m - header_size) m ! (i - header_size)"
    using assms by (simp add: slice_def)
  moreover have "i - header_size < length m - header_size" using assms(2,3) by linarith
  ultimately show False
    using ExtendChecksum_update [of "i - header_size" "slice header_size (length m - header_size) m" v fnv_offset]
    by simp
qed

section \<open>Properties\<close>

text \<open>A concrete target, record list and set of system-call answers.\<close>

definition sample_target :: PropertyDeltaTarget where
  "sample_target = \<lparr> t_kind = kEdge, t_shard_id = 0, t_base_file_id = 7, t_base_generation = 7,
     t_property_id = 2 \<rparr>"

definition sample_record :: "u64 \<Rightarrow> string \<Rightarrow> PropertyDeltaRecord" where
  "sample_record commit v = \<lparr> r_src = 1, r_dst = 2, r_base_sequence = 5, r_commit_sequence = commit,
     r_is_out = True, r_edge_type = 0, r_value = v \<rparr>"

definition sample_io :: create_io where
  "sample_io = \<lparr> io_open_temporary = True, io_writes = replicate 400 (Written 1), io_fdatasync = True,
     io_close = True, io_unlink = True, io_rename = True, io_open_directory = True,
     io_fsync_directory = True,
     io_reopen = \<lparr> io_open = True, io_fstat = True, io_mmap = True \<rparr> \<rparr>"

lemma sample_prepared:
  "prepare_records [sample_record 3 ''b'', sample_record 2 ''a''] =
     [sample_record 2 ''a'', sample_record 3 ''b'']"
  by (simp add: prepare_records_def stable_sort_def dedup_def dedup_step_def RecordLess_def
      SameVersion_def CompareLogicalKey_def sample_record_def)

lemma sample_fits:
  "values_fit [sample_record 2 ''a'', sample_record 3 ''b'']"
  "image_size [sample_record 2 ''a'', sample_record 3 ''b''] = 218"
  by (simp_all add: values_fit_def image_size_def value_bytes_def sample_record_def
      header_size_def record_size_def)

text \<open>What \<^verbatim>\<open>Create\<close> asks of its caller, and of the system calls for an image of \<open>n\<close> bytes.\<close>

definition creatable :: "PropertyDeltaTarget \<Rightarrow> PropertyDeltaRecord list \<Rightarrow> bool" where
  "creatable target records \<longleftrightarrow> records \<noteq> [] \<and> t_base_file_id target \<noteq> kInvalidFileId \<and>
     values_fit (prepare_records records) \<and> image_size (prepare_records records) < 2 ^ 64"

definition create_io_ok :: "create_io \<Rightarrow> nat \<Rightarrow> bool" where
  "create_io_ok io n \<longleftrightarrow> io_open_temporary io \<and> writes_ok (io_writes io) \<and>
     n \<le> write_budget (io_writes io) \<and> io_fdatasync io \<and> io_close io \<and> io_rename io \<and>
     io_open_directory io \<and> io_fsync_directory io \<and> io_open (io_reopen io) \<and>
     io_fstat (io_reopen io) \<and> io_mmap (io_reopen io)"

lemma sample_io_ok: "create_io_ok sample_io 218"
  by (simp add: create_io_ok_def sample_io_def writes_ok_def write_budget_def list_all_iff)

lemma sample_creatable: "creatable sample_target [sample_record 3 ''b'', sample_record 2 ''a'']"
  by (simp add: creatable_def sample_prepared sample_fits sample_target_def kInvalidFileId_def)

text \<open>The write path succeeds when the system calls do.\<close>

lemma Create_runs:
  assumes "creatable target records" "fs (temporary_name path pid gen) = None"
    "create_io_ok io (image_size (prepare_records records))"
  shows "Create io pid fs path target gen records dur =
    Some (fs(temporary_name path pid gen := None,
             path \<mapsto> created_image target gen (prepare_records records)),
          Inr (created_file path target gen (prepare_records records)))"
proof -
  let ?rs = "prepare_records records"
  let ?chunks = "[encode_header (created_header target gen ?rs),
       concat (map encode_record (disk_list 0 ?rs)), value_bytes ?rs]"
  have img: "concat ?chunks = created_image target gen ?rs" by (simp add: created_image_def)
  let ?fs = "fs(temporary_name path pid gen := None, path \<mapsto> created_image target gen ?rs)"
  have len: "length (concat ?chunks) = image_size ?rs" by (simp only: img length_created_image)
  have "publish_file io fs (temporary_name path pid gen) path ?chunks dur =
      Some (?fs, OpenAndValidate (io_reopen io) ?fs path)"
    using publish_succeeds [of fs "temporary_name path pid gen" io ?chunks path dur] assms
    unfolding len img by (simp add: create_io_ok_def)
  moreover have "sorted (map rversion ?rs)"
    using prepare_sorted [of records] by (rule strict_sorted_imp_sorted)
  then have "OpenAndValidate (io_reopen io) ?fs path = Inr (created_file path target gen ?rs)"
    using open_created [of ?fs path target gen ?rs "io_reopen io"] assms
    by (simp add: creatable_def create_io_ok_def)
  ultimately show ?thesis
    using Create_encoded [of records target] assms(1) by (simp add: creatable_def)
qed

lemma sample_create:
  "Create sample_io 1 Map.empty ''d'' sample_target 9 [sample_record 3 ''b'', sample_record 2 ''a'']
     kProcessCrashSafe =
   Some ([''d'' \<mapsto> created_image sample_target 9 [sample_record 2 ''a'', sample_record 3 ''b'']],
         Inr (created_file ''d'' sample_target 9 [sample_record 2 ''a'', sample_record 3 ''b'']))"
  using Create_runs [OF sample_creatable, of Map.empty "''d''" 1 9 sample_io kProcessCrashSafe]
  by (simp add: sample_prepared sample_fits sample_io_ok)

lemma sample_newest:
  "newest (key_of 1 2 True 0 5) 2 [sample_record 3 ''b'', sample_record 2 ''a''] =
     Some (sample_record 2 ''a'')"
  "r_value (sample_record c v) = v" "r_commit_sequence (sample_record c v) = c"
  by (simp_all add: sample_record_def rkey_def newer_def)

text \<open>C7. A reader of a created delta file sees what was written: whatever the system calls did, if
  \<^verbatim>\<open>Create\<close> returns a file then looking up a key at a read sequence gives the value and commit of the
  newest record of that key not newer than the read sequence, among the records given to \<^verbatim>\<open>Create\<close>
  (of records with one version, the last).\<close>

theorem delta_lookup_created:
  assumes "Create io pid fs path target gen records dur = Some (fs', Inr f)"
    and "image_size (prepare_records records) < 2 ^ 64"
  shows "Lookup f src dst base is_out et s =
    map_option (\<lambda>r. (r_value r, r_commit_sequence r))
      (newest (key_of src dst is_out et base) s records)"
proof -
  let ?rs = "prepare_records records"
  have f: "f = created_file path target gen ?rs" and fit: "values_fit ?rs"
    using Create_Inr [OF assms] by auto
  have "sorted (map rversion ?rs)"
    using prepare_sorted [of records] by (rule strict_sorted_imp_sorted)
  then have "delta_file_ok f" unfolding f by (rule created_file_ok [OF fit assms(2)])
  then show ?thesis
    using Lookup_newest [of f] created_file_records [OF fit assms(2)] by (simp add: f)
qed

theorem delta_lookup_created_witness:
  "Lookup (created_file ''d'' sample_target 9 [sample_record 2 ''a'', sample_record 3 ''b''])
     1 2 5 True 0 2 = Some (''a'', 2)"
  using delta_lookup_created [OF sample_create, of 1 2 5 True 0 2] sample_newest
  by (simp add: sample_prepared sample_fits)



text \<open>C9. \<^verbatim>\<open>Create\<close> returns and succeeds: with records to write, a valid target, values and a total
  that fit, a free temporary name, and system calls that work (each \<^verbatim>\<open>write\<close> may be short or
  interrupted, but enough of them make progress), it renames the complete image into place and
  hands back an open file.\<close>

theorem delta_create_succeeds:
  assumes "creatable target records" "fs (temporary_name path pid gen) = None"
    "create_io_ok io (image_size (prepare_records records))"
  shows "\<exists>fs' f. Create io pid fs path target gen records dur = Some (fs', Inr f) \<and>
    fs' path = Some (f_mapping f) \<and> fs' (temporary_name path pid gen) = None"
  using Create_runs [of target records fs path pid gen io dur] assms by simp

theorem delta_create_succeeds_witness:
  "\<exists>fs' f. Create sample_io 1 Map.empty ''d'' sample_target 9
      [sample_record 3 ''b'', sample_record 2 ''a''] kProcessCrashSafe = Some (fs', Inr f) \<and>
    fs' ''d'' = Some (f_mapping f) \<and> fs' (temporary_name ''d'' 1 9) = None"
  by (rule delta_create_succeeds [OF sample_creatable])
    (simp_all add: sample_prepared sample_fits sample_io_ok)

lemma Create_cases:
  assumes "Create io pid fs path target gen records dur = Some (fs', res)"
    and "image_size (prepare_records records) < 2 ^ 64"
  shows "(fs' path = fs path \<and> (\<exists>e. res = Inl e) \<or>
          fs' path = Some (created_image target gen (prepare_records records))) \<and>
    (\<forall>q. q \<noteq> path \<and> q \<noteq> temporary_name path pid gen \<longrightarrow> fs' q = fs q)"
proof (cases "records = [] \<or> t_base_file_id target = kInvalidFileId \<or>
    \<not> values_fit (prepare_records records)")
  case True
  have "fs' = fs \<and> (\<exists>e. res = Inl e)"
  proof (cases "records = [] \<or> t_base_file_id target = kInvalidFileId")
    case True
    with assms(1) show ?thesis by (auto simp: Create_def split: if_splits)
  next
    case False
    with True have "\<not> values_fit (prepare_records records)" by simp
    then obtain e where "encode_records (prepare_records records) [] [] kLatestPropertyCommit 0 = Inl e"
      using encode_records_Inr [of "prepare_records records" "[]" "[]" kLatestPropertyCommit 0]
      by (cases "encode_records (prepare_records records) [] [] kLatestPropertyCommit 0") auto
    with False assms(1) show ?thesis by (auto simp: Create_def)
  qed
  then show ?thesis by auto
next
  case False
  let ?rs = "prepare_records records"
  have "publish_file io fs (temporary_name path pid gen) path
      [encode_header (created_header target gen ?rs),
       concat (map encode_record (disk_list 0 ?rs)), value_bytes ?rs] dur = Some (fs', res)"
    using assms False Create_encoded [of records target] by simp
  from publish_outcome [OF this] show ?thesis by (auto simp: created_image_def)
qed



text \<open>C12. Opening a file is memory-safe for arbitrary content: if validation accepts the bytes of a
  file, then the record table and every value range lie inside the mapping, the record table is
  in version order, and a full traversal visits every record without hitting its bounds check.\<close>

theorem delta_open_bounds:
  assumes "OpenAndValidate io fs path = Inr f" "fs path = Some mapping" "length mapping < 2 ^ 64"
  shows "unat (f_records_offset f) + unat (m_record_count (f_metadata f)) * record_size \<le> length mapping \<and>
    (\<forall>i < unat (m_record_count (f_metadata f)).
       unat (f_values_offset f + d_value_offset (load_at f i)) + unat (d_value_length (load_at f i))
         \<le> length mapping) \<and>
    sorted (map rversion (file_records f)) \<and>
    ForEachRecord f (\<lambda>r acc. (True, acc @ [r])) [] = (True, file_records f)"
proof -
  note v = opened_valid(1) [OF assms] and m = opened_valid(2) [OF assms]
  have "ForEachRecord f (\<lambda>r acc. (True, acc @ [r])) [] = (True, file_records f)"
    unfolding ForEachRecord_valid [OF v] by (simp add: visit_list_collect)
  with v value_in_bounds(2) [OF v] show ?thesis
    by (simp add: delta_file_valid_def Let_def m)
qed

theorem delta_open_bounds_witness:
  "\<exists>f. OpenAndValidate \<lparr>io_open = True, io_fstat = True, io_mmap = True\<rparr>
       [''d'' \<mapsto> created_image sample_target 9 [sample_record 2 ''a'', sample_record 3 ''b'']] ''d'' = Inr f \<and>
     sorted (map rversion (file_records f))"
proof -
  let ?rs = "[sample_record 2 ''a'', sample_record 3 ''b'']"
  let ?fs = "[''d'' \<mapsto> created_image sample_target 9 ?rs]"
  have "sorted (map rversion ?rs)"
    by (simp add: rversion_def rkey_def sample_record_def)
  then have op: "OpenAndValidate \<lparr>io_open = True, io_fstat = True, io_mmap = True\<rparr> ?fs ''d'' =
      Inr (created_file ''d'' sample_target 9 ?rs)"
    using open_created [of ?fs "''d''" sample_target 9 ?rs] by (simp add: sample_fits)
  then show ?thesis
    using delta_open_bounds [OF op, of "created_image sample_target 9 ?rs"] by (simp add: sample_fits)
qed

text \<open>C11. Single-byte corruption never goes unnoticed: take the file \<^verbatim>\<open>Create\<close> writes and change any one
  of its bytes, in the header, the record table, a value or a stored checksum; opening it fails.\<close>

theorem delta_corruption_detected:
  assumes "creatable target records" "i < image_size (prepare_records records)"
    and "v \<noteq> created_image target gen (prepare_records records) ! i"
    and "fs path = Some ((created_image target gen (prepare_records records))[i := v])"
  shows "\<exists>e. OpenAndValidate io fs path = Inl e"
proof -
  let ?rs = "prepare_records records"
  let ?m = "created_image target gen ?rs"
  let ?hd = "slice 0 header_size ?m"
  have hs: "header_size = 120" by (simp add: header_size_def)
  have fit: "values_fit ?rs" "image_size ?rs < 2 ^ 64" using assms(1) by (simp_all add: creatable_def)
  have val: "validate_header ?m (decode_header ?hd) = None"
    using created_validates [OF fit] prepare_sorted [of records]
    by (simp add: decode_created_header strict_sorted_imp_sorted)
  have "validate_header (?m[i := v]) (decode_header (slice 0 header_size (?m[i := v]))) \<noteq> None"
  proof (cases "i < header_size")
    case True
    have len: "length ?hd = 120" by (simp add: hs image_size_def)
    have "HeaderChecksum (decode_header ?hd) = h_header_checksum (decode_header ?hd)"
      by (simp add: decode_created_header created_header_checksum)
    moreover have "v \<noteq> ?hd ! i" using assms(3) True by (simp add: slice_def)
    ultimately have "HeaderChecksum (decode_header (?hd[i := v])) \<noteq>
        h_header_checksum (decode_header (?hd[i := v]))"
      using True by (intro header_byte_detected [OF len]) (simp_all add: hs)
    moreover have "slice 0 header_size (?m[i := v]) = ?hd[i := v]"
      using slice_update_inside [of 0 i header_size ?m v] True by simp
    ultimately show ?thesis by (auto simp: validate_header_def Let_def)
  next
    case False
    then have "slice 0 header_size (?m[i := v]) = ?hd" by (simp add: slice_update_outside)
    with payload_byte_detected [OF val, of i v] False assms(2,3) fit(2) show ?thesis by simp
  qed
  then show ?thesis using assms(4) by (auto simp: OpenAndValidate_def Let_def)
qed

theorem delta_corruption_detected_witness:
  "\<exists>e. OpenAndValidate \<lparr>io_open = True, io_fstat = True, io_mmap = True\<rparr>
     [''d'' \<mapsto> (created_image sample_target 9 [sample_record 2 ''a'', sample_record 3 ''b''])[0 := 0]]
     ''d'' = Inl e"
proof -
  have "created_image sample_target 9 [sample_record 2 ''a'', sample_record 3 ''b''] ! 0 = 0x52"
    by (simp add: created_image_def encode_header_def kMagic_def bytes_of_def)
  then show ?thesis
    using delta_corruption_detected [OF sample_creatable, of 0 0 9
        "[''d'' \<mapsto> (created_image sample_target 9 [sample_record 2 ''a'', sample_record 3 ''b''])[0 := 0]]"
        "''d''"]
    by (simp add: sample_prepared sample_fits)
qed

end
