(* ===== verification/DeltaView.thy ===== *)
theory DeltaView
  imports DeltaFile
begin

text \<open>
  An immutable read view over a chain of delta files (\<^verbatim>\<open>PropertyDeltaReadView\<close> of
  \<^verbatim>\<open>core/property_delta_store.h\<close> and \<^verbatim>\<open>src/property_delta_store.cpp\<close>) and the iterator adapter that
  overlays it on a base value. The scan over the chain relies on a delta file only through
  the contract \<open>delta_reader\<close>, which the files of the development satisfy.
\<close>

section \<open>Definitions\<close>

record PropertyDeltaLookupCounters =
  k_lookups :: u64
  k_files_probed :: u64
  k_hits :: u64
  k_base_fallbacks :: u64

text \<open>A mapped column file (\<^verbatim>\<open>MappedPropertyFile\<close>); \<^verbatim>\<open>Open\<close> refuses an empty file.\<close>

record MappedPropertyFile =
  mp_data :: bytes
  mp_generation :: u64

record mapped_io =
  mi_open :: bool
  mi_fstat :: bool
  mi_mmap :: bool

definition MappedPropertyFile_Open ::
  "mapped_io \<Rightarrow> file_system \<Rightarrow> string \<Rightarrow> u64 \<Rightarrow> io_error + MappedPropertyFile" where
  "MappedPropertyFile_Open io fs path generation =
     (case fs path of
        None \<Rightarrow> Inl OpenFailed
      | Some content \<Rightarrow>
          if \<not> mi_open io then Inl OpenFailed
          else if \<not> mi_fstat io \<or> content = [] then Inl FstatFailed
          else if \<not> mi_mmap io then Inl MmapFailed
          else Inr \<lparr>mp_data = content, mp_generation = generation\<rparr>)"

record PropertyDeltaReadView =
  v_merged_base :: "MappedPropertyFile option"
  v_deltas :: "PropertyDeltaFile list"
  v_generation :: u64

type_synonym lookup_key = "VertexId_t \<times> VertexId_t \<times> SequenceNumber_t \<times> bool \<times> u8"

definition logical :: "lookup_key \<Rightarrow> logical_key" where
  "logical k = (case k of (src, dst, base, is_out, et) \<Rightarrow> key_of src dst is_out et base)"

definition file_lookup :: "PropertyDeltaFile \<Rightarrow> lookup_key \<Rightarrow> u64 \<Rightarrow> (string \<times> u64) option" where
  "file_lookup f k s = (case k of (src, dst, base, is_out, et) \<Rightarrow> Lookup f src dst base is_out et s)"

definition file_min_commit :: "PropertyDeltaFile \<Rightarrow> u64" where
  "file_min_commit f = m_min_commit_sequence (f_metadata f)"

definition file_max_commit :: "PropertyDeltaFile \<Rightarrow> u64" where
  "file_max_commit f = m_max_commit_sequence (f_metadata f)"

text \<open>The loop of \<^verbatim>\<open>PropertyDeltaReadView::Lookup\<close> over the files, newest first: a file is skipped when
  all its commits are too new, or none can beat the best so far. The result is the best
  value with its commit and the number of files probed.\<close>

fun view_scan ::
  "('f \<Rightarrow> 'k \<Rightarrow> u64 \<Rightarrow> (string \<times> u64) option) \<Rightarrow> ('f \<Rightarrow> u64) \<Rightarrow> ('f \<Rightarrow> u64) \<Rightarrow> 'k \<Rightarrow> u64 \<Rightarrow>
   'f list \<Rightarrow> (string \<times> u64) option \<Rightarrow> u64 \<Rightarrow> (string \<times> u64) option \<times> u64" where
  "view_scan look minc maxc k s [] best probed = (best, probed)"
| "view_scan look minc maxc k s (f # fs) best probed =
     (if minc f > s \<or> (case best of None \<Rightarrow> False | Some (_, best_commit) \<Rightarrow> maxc f \<le> best_commit)
      then view_scan look minc maxc k s fs best probed
      else let best' = (case look f k s of
                          None \<Rightarrow> best
                        | Some (v, c) \<Rightarrow>
                            (case best of None \<Rightarrow> Some (v, c)
                             | Some (_, best_commit) \<Rightarrow> if c > best_commit then Some (v, c) else best))
           in view_scan look minc maxc k s fs best' (probed + 1))"

definition ReadView_Lookup ::
  "PropertyDeltaReadView \<Rightarrow> lookup_key \<Rightarrow> PropertyCommitSequence \<Rightarrow> PropertyDeltaLookupCounters \<Rightarrow>
   (string \<times> PropertyCommitSequence) option \<times> PropertyDeltaLookupCounters" where
  "ReadView_Lookup view k read_sequence counters =
     (let (best, probed) = view_scan file_lookup file_min_commit file_max_commit k read_sequence
                             (rev (v_deltas view)) None 0;
          counters1 = counters\<lparr>k_lookups := k_lookups counters + 1,
                               k_files_probed := k_files_probed counters + probed\<rparr>
      in case best of
           Some r \<Rightarrow> (Some r, counters1\<lparr>k_hits := k_hits counters1 + 1\<rparr>)
         | None \<Rightarrow> (None, counters1\<lparr>k_base_fallbacks := k_base_fallbacks counters1 + 1\<rparr>))"

definition BaseDataOr :: "PropertyDeltaReadView \<Rightarrow> bytes \<Rightarrow> bytes" where
  "BaseDataOr view original = (case v_merged_base view of None \<Rightarrow> original | Some m \<Rightarrow> mp_data m)"

text \<open>\<^verbatim>\<open>PropertyDeltaOverlayIterator::edge_data\<close>: the visible delta if there is one, else the value of
  the wrapped iterator; \<open>None\<close> for the view stands for the null pointer.\<close>

definition overlay_edge_data ::
  "PropertyDeltaReadView option \<Rightarrow> bool \<Rightarrow> lookup_key \<Rightarrow> PropertyCommitSequence \<Rightarrow> string \<Rightarrow>
   PropertyDeltaLookupCounters \<Rightarrow> string \<times> PropertyDeltaLookupCounters" where
  "overlay_edge_data read_view base_valid k read_sequence base_data counters =
     (case read_view of
        None \<Rightarrow> (base_data, counters)
      | Some view \<Rightarrow>
          if \<not> base_valid then (base_data, counters)
          else case ReadView_Lookup view k read_sequence counters of
                 (Some (v, _), counters') \<Rightarrow> (v, counters')
               | (None, counters') \<Rightarrow> (base_data, counters'))"

section \<open>The contract of a delta file\<close>

locale delta_reader =
  fixes look :: "'f \<Rightarrow> 'k \<Rightarrow> u64 \<Rightarrow> (string \<times> u64) option"
    and records :: "'f \<Rightarrow> PropertyDeltaRecord list"
    and key :: "'k \<Rightarrow> logical_key"
    and minc maxc :: "'f \<Rightarrow> u64"
    and ok :: "'f \<Rightarrow> bool"
  assumes look_newest: "ok f \<Longrightarrow> look f k s =
      map_option (\<lambda>r. (r_value r, r_commit_sequence r)) (newest (key k) s (records f))"
    and commit_bounds: "ok f \<Longrightarrow> r \<in> set (records f) \<Longrightarrow>
      minc f \<le> r_commit_sequence r \<and> r_commit_sequence r \<le> maxc f"
begin

text \<open>The pruned scan from the newest file to the oldest finds the newest version of the whole chain.\<close>

lemma scan_step:
  assumes "ok f" "best = map_option (\<lambda>r. (r_value r, r_commit_sequence r)) b"
  shows "(if minc f > s \<or> (case best of None \<Rightarrow> False | Some (_, c) \<Rightarrow> maxc f \<le> c) then best
     else case look f k s of None \<Rightarrow> best
          | Some (v, c) \<Rightarrow> (case best of None \<Rightarrow> Some (v, c)
              | Some (_, bc) \<Rightarrow> if c > bc then Some (v, c) else best)) =
    map_option (\<lambda>r. (r_value r, r_commit_sequence r)) (newer (newest (key k) s (records f)) b)"
proof (cases "newest (key k) s (records f)")
  case None
  with assms look_newest [OF assms(1), of k s] show ?thesis by (auto split: option.splits)
next
  case (Some r)
  have r: "r_commit_sequence r \<le> s" "r \<in> set (records f)"
    using newest_Some [OF Some] held_Some by blast+
  then have "minc f \<le> s" "r_commit_sequence r \<le> maxc f"
    using commit_bounds [OF assms(1) r(2)] by (auto intro: order_trans)
  with Some assms look_newest [OF assms(1), of k s] show ?thesis
    by (cases b) (auto simp: newer_def not_less)
qed

lemma scan_newest:
  assumes "list_all ok fs" "best = map_option (\<lambda>r. (r_value r, r_commit_sequence r)) b"
  shows "fst (view_scan look minc maxc k s fs best n) =
    map_option (\<lambda>r. (r_value r, r_commit_sequence r))
      (newer (newest (key k) s (concat (map records (rev fs)))) b)"
  using assms
proof (induction fs arbitrary: best b n)
  case (Cons f fs)
  let ?b = "newer (newest (key k) s (records f)) b"
  have okf: "ok f" using Cons.prems(1) by simp
  have "fst (view_scan look minc maxc k s (f # fs) best n) =
      map_option (\<lambda>r. (r_value r, r_commit_sequence r))
        (newer (newest (key k) s (concat (map records (rev fs)))) ?b)"
  proof (cases "minc f > s \<or> (case best of None \<Rightarrow> False | Some (_, c) \<Rightarrow> maxc f \<le> c)")
    case True
    have "best = map_option (\<lambda>r. (r_value r, r_commit_sequence r)) ?b"
      using scan_step [OF okf Cons.prems(2), of s k] unfolding if_P [OF True] .
    then show ?thesis
      unfolding view_scan.simps if_P [OF True] using Cons.prems by (intro Cons.IH) simp_all
  next
    case False
    have "(case look f k s of None \<Rightarrow> best
          | Some (v, c) \<Rightarrow> (case best of None \<Rightarrow> Some (v, c)
              | Some (_, bc) \<Rightarrow> if c > bc then Some (v, c) else best)) =
        map_option (\<lambda>r. (r_value r, r_commit_sequence r)) ?b"
      using scan_step [OF okf Cons.prems(2), of s k] unfolding if_not_P [OF False] .
    then show ?thesis
      unfolding view_scan.simps if_not_P [OF False] Let_def using Cons.prems
      by (intro Cons.IH) simp_all
  qed
  then show ?case by (simp add: newest_append newer_assoc)
qed simp

end

text \<open>The files of the development are such readers.\<close>

interpretation delta_files: delta_reader file_lookup file_records logical file_min_commit file_max_commit delta_file_ok
proof
  fix f k s assume "delta_file_ok f"
  then show "file_lookup f k s =
      map_option (\<lambda>r. (r_value r, r_commit_sequence r)) (newest (logical k) s (file_records f))"
    by (simp add: file_lookup_def logical_def Lookup_newest split: prod.splits)
next
  fix f r assume "delta_file_ok f" "r \<in> set (file_records f)"
  then show "file_min_commit f \<le> r_commit_sequence r \<and> r_commit_sequence r \<le> file_max_commit f"
    by (simp add: delta_file_ok_def list_all_iff file_min_commit_def file_max_commit_def)
qed

section \<open>Properties\<close>

text \<open>What a view holds: the records of its files, oldest file first.\<close>

definition view_records :: "PropertyDeltaReadView \<Rightarrow> PropertyDeltaRecord list" where
  "view_records view = concat (map file_records (v_deltas view))"

lemma ReadView_newest:
  assumes "list_all delta_file_ok (v_deltas view)"
  shows "fst (ReadView_Lookup view k s counters) =
    map_option (\<lambda>r. (r_value r, r_commit_sequence r)) (newest (logical k) s (view_records view))"
proof -
  have "list_all delta_file_ok (rev (v_deltas view))" using assms by (simp add: list_all_iff)
  from delta_files.scan_newest [OF this, of None None k s 0]
  show ?thesis
    by (auto simp: ReadView_Lookup_def view_records_def Let_def split: prod.splits option.splits)
qed

text \<open>C16. A lookup over a chain of delta files, with its commit-range pruning, returns the newest version
  visible at the read sequence among all records of all files, the later file winning a tie; each
  lookup is counted once, as a hit exactly when it found a value and as a fallback otherwise.\<close>

theorem read_view_lookup_newest:
  assumes "list_all delta_file_ok (v_deltas view)"
  shows "fst (ReadView_Lookup view k s counters) =
      map_option (\<lambda>r. (r_value r, r_commit_sequence r)) (newest (logical k) s (view_records view)) \<and>
    k_lookups (snd (ReadView_Lookup view k s counters)) = k_lookups counters + 1 \<and>
    k_hits (snd (ReadView_Lookup view k s counters)) =
      k_hits counters + (if newest (logical k) s (view_records view) = None then 0 else 1) \<and>
    k_base_fallbacks (snd (ReadView_Lookup view k s counters)) =
      k_base_fallbacks counters + (if newest (logical k) s (view_records view) = None then 1 else 0)"
proof -
  obtain best probed where scan: "view_scan file_lookup file_min_commit file_max_commit k s
      (rev (v_deltas view)) None 0 = (best, probed)" by fastforce
  have "best = map_option (\<lambda>r. (r_value r, r_commit_sequence r)) (newest (logical k) s (view_records view))"
    using ReadView_newest [OF assms, of k s counters] scan
    by (cases best) (auto simp: ReadView_Lookup_def)
  with scan show ?thesis
    by (cases "newest (logical k) s (view_records view)") (auto simp: ReadView_Lookup_def)
qed

definition sample_view :: PropertyDeltaReadView where
  "sample_view = \<lparr> v_merged_base = None,
     v_deltas = [created_file ''d'' sample_target 9 [sample_record 2 ''a'', sample_record 3 ''b''],
                 created_file ''e'' sample_target 10 [sample_record 3 ''c'']],
     v_generation = 10 \<rparr>"

lemma sample_view_ok: "list_all delta_file_ok (v_deltas sample_view)"
  "view_records sample_view = [sample_record 2 ''a'', sample_record 3 ''b'', sample_record 3 ''c'']"
proof -
  have fit: "values_fit [sample_record 3 ''c'']" "image_size [sample_record 3 ''c''] < 2 ^ 64"
    by (simp_all add: values_fit_def image_size_def value_bytes_def sample_record_def
        header_size_def record_size_def)
  have fit2: "values_fit [sample_record 2 ''a'', sample_record 3 ''b'']"
    "image_size [sample_record 2 ''a'', sample_record 3 ''b''] < 2 ^ 64"
    by (simp_all add: sample_fits)
  have "sorted (map rversion [sample_record 2 ''a'', sample_record 3 ''b''])"
    by (simp add: rversion_def rkey_def sample_record_def)
  then show "list_all delta_file_ok (v_deltas sample_view)"
    using created_file_ok [OF fit2] created_file_ok [OF fit] by (simp add: sample_view_def)
  show "view_records sample_view = [sample_record 2 ''a'', sample_record 3 ''b'', sample_record 3 ''c'']"
    using created_file_records [OF fit2] created_file_records [OF fit]
    by (simp add: sample_view_def view_records_def)
qed

theorem read_view_lookup_newest_witness:
  "fst (ReadView_Lookup sample_view (1, 2, 5, True, 0) 9
     \<lparr> k_lookups = 0, k_files_probed = 0, k_hits = 0, k_base_fallbacks = 0 \<rparr>) = Some (''c'', 3)"
  using read_view_lookup_newest [OF sample_view_ok(1), of "(1, 2, 5, True, 0)" 9
      "\<lparr> k_lookups = 0, k_files_probed = 0, k_hits = 0, k_base_fallbacks = 0 \<rparr>"]
  by (simp add: sample_view_ok(2) logical_def sample_record_def rkey_def newer_def)

end
