(* ===== verification/DeltaMerge.thy ===== *)
theory DeltaMerge
  imports SstSearch DeltaView
begin

text \<open>
  Folding property deltas into a table's column (\<^verbatim>\<open>MergePropertyDeltaColumn\<close> of \<^verbatim>\<open>src/lsmstore.cpp\<close>) and
  the point read that sees the column through a delta view (\<^verbatim>\<open>find_edge_in_lonely_SStableCache\<close>). The
  merge is shown to leave what a reader of the latest version sees unchanged.
\<close>

section \<open>Definitions\<close>

text \<open>The part of \<^verbatim>\<open>LSMStore\<close> a merge uses: what it stores, where, and its open tables.\<close>

record lsm_config =
  l_kind :: PropertyObjectKind
  l_shard :: u32
  l_lengths :: "u32 list"
  l_durability :: DeltaDurability
  l_data_dir :: string
  l_tables :: "FileId_t \<rightharpoonup> SstTable"

datatype merge_error =
    InvalidMergeRequest | MergeTargetUnavailable | MergeBaseEmpty | TopologyMismatch
  | PropertyOffsetInvalid | StoreOutsideMapping | MergeNoMessage | MergeIo io_error

text \<open>One Boolean per system call of the merge, and the calls of the final mapping.\<close>

record merge_io =
  mg_open :: bool
  mg_ftruncate :: bool
  mg_mmap :: bool
  mg_msync :: bool
  mg_fdatasync :: bool
  mg_close :: bool
  mg_unlink :: bool
  mg_rename :: bool
  mg_open_directory :: bool
  mg_fsync_directory :: bool
  mg_reopen :: mapped_io

definition pFileName :: "string \<Rightarrow> FileId_t \<Rightarrow> string" where
  "pFileName db_path current_time = db_path @ ''/'' @ to_string (unat current_time) @ ''.sst_p''"

definition eFileName :: "string \<Rightarrow> FileId_t \<Rightarrow> string" where
  "eFileName db_path current_time = db_path @ ''/'' @ to_string (unat current_time) @ ''.sst''"

definition pFileName_with_id :: "string \<Rightarrow> nat \<Rightarrow> string" where
  "pFileName_with_id property_file i = property_file @ ''_'' @ to_string i"

definition MakePropertyDeltaTarget :: "lsm_config \<Rightarrow> FileId_t \<Rightarrow> int \<Rightarrow> PropertyDeltaTarget" where
  "MakePropertyDeltaTarget cfg base_file_id property_id =
     \<lparr>t_kind = l_kind cfg, t_shard_id = l_shard cfg, t_base_file_id = base_file_id,
      t_base_generation = ucast base_file_id, t_property_id = word_of_int property_id\<rparr>"

definition SyncPropertyDeltaParent :: "merge_io \<Rightarrow> io_error option" where
  "SyncPropertyDeltaParent io =
     (if \<not> mg_open_directory io then Some DirOpenFailed
      else if \<not> mg_fsync_directory io then Some DirFsyncFailed else None)"

text \<open>The visitor the merge passes to \<^verbatim>\<open>ForEachRecord\<close>: the output column and the error so far.\<close>

definition merge_record ::
  "layout_env \<Rightarrow> SstTable option \<Rightarrow> int \<Rightarrow> nat \<Rightarrow> PropertyDeltaRecord \<Rightarrow>
   bytes \<times> merge_error option \<Rightarrow> bool \<times> (bytes \<times> merge_error option)" where
  "merge_record env data property_id base_size r s =
     (case s of (output, err) \<Rightarrow>
       case LocateSstEdgeOrdinal data r of
         None \<Rightarrow> (False, (output, Some TopologyMismatch))
       | Some edge_ordinal \<Rightarrow>
           let slot_length = ucast (GetSubPropertyFixedLength env property_id);
               offset = edge_ordinal * slot_length
           in if offset > word_of_nat base_size \<or> slot_length > word_of_nat base_size - offset
              then (False, (output, Some PropertyOffsetInvalid))
              else case WritePaddedSubPropertySlot env output (unat offset) (r_value r) property_id of
                     None \<Rightarrow> (False, (output, Some StoreOutsideMapping))
                   | Some output' \<Rightarrow> (True, (output', err)))"

fun merge_files ::
  "(PropertyDeltaRecord \<Rightarrow> 's \<Rightarrow> bool \<times> 's) \<Rightarrow> PropertyDeltaFile list \<Rightarrow> 's \<Rightarrow> bool \<times> 's" where
  "merge_files visitor [] s = (True, s)"
| "merge_files visitor (f # fs) s =
     (case ForEachRecord f visitor s of
        (False, s') \<Rightarrow> (False, s')
      | (True, s') \<Rightarrow> merge_files visitor fs s')"

text \<open>From the \<^verbatim>\<open>open\<close> of the temporary to the final mapping.\<close>

definition publish_column ::
  "lsm_config \<Rightarrow> merge_io \<Rightarrow> file_system \<Rightarrow> string \<Rightarrow> string \<Rightarrow> (bool \<times> bytes \<times> merge_error option) \<Rightarrow>
   u64 \<Rightarrow> file_system \<times> (merge_error + MappedPropertyFile)" where
  "publish_column cfg io fs temporary_path final_path filled output_generation =
     (if fs temporary_path \<noteq> None \<or> \<not> mg_open io then (fs, Inl (MergeIo OpenFailed))
      else
        let durable = (l_durability cfg = kProcessCrashSafe);
            (filled_ok, output, fill_error) = filled;
            failure =
              (if \<not> mg_ftruncate io then Some (MergeIo TruncateFailed)
               else if \<not> mg_mmap io then Some (MergeIo MmapFailed)
               else if \<not> filled_ok
               then Some (case fill_error of None \<Rightarrow> MergeNoMessage | Some e \<Rightarrow> e)
               else if durable \<and> \<not> mg_msync io then Some (MergeIo MsyncFailed)
               else if durable \<and> \<not> mg_fdatasync io then Some (MergeIo FdatasyncFailed)
               else if \<not> mg_close io then Some (MergeIo CloseFailed)
               else None);
            leftover = (if \<not> mg_ftruncate io then []
                        else if \<not> mg_mmap io then replicate (length output) 0 else output);
            fs_unlinked = (if mg_unlink io then fs(temporary_path := None)
                           else fs(temporary_path \<mapsto> leftover));
            fs_renamed = fs(temporary_path := None, final_path \<mapsto> output)
        in case failure of
             Some e \<Rightarrow> (fs_unlinked, Inl e)
           | None \<Rightarrow>
               if \<not> mg_rename io then (fs_unlinked, Inl (MergeIo RenameFailed))
               else if durable \<and> SyncPropertyDeltaParent io \<noteq> None
               then (fs_renamed, Inl (MergeIo (the (SyncPropertyDeltaParent io))))
               else (fs_renamed,
                     case MappedPropertyFile_Open (mg_reopen io) fs_renamed final_path output_generation of
                       Inl e \<Rightarrow> Inl (MergeIo e)
                     | Inr m \<Rightarrow> Inr m))"

definition MergePropertyDeltaColumn ::
  "lsm_config \<Rightarrow> layout_env \<Rightarrow> merge_io \<Rightarrow> file_system \<Rightarrow> PropertyDeltaTarget \<Rightarrow> MappedPropertyFile option \<Rightarrow>
   PropertyDeltaFile list \<Rightarrow> u64 \<Rightarrow> file_system \<times> (merge_error + MappedPropertyFile)" where
  "MergePropertyDeltaColumn cfg thread_env io fs target current_base deltas output_generation =
     (if deltas = [] \<or> t_kind target \<noteq> l_kind cfg \<or> t_shard_id target \<noteq> l_shard cfg \<or>
         unat (t_property_id target) \<ge> length (l_lengths cfg)
      then (fs, Inl InvalidMergeRequest)
      else
        let env = snd (ScopedFixedPropertyLayout_enter (Some (l_lengths cfg)) thread_env) in
        case l_tables cfg (t_base_file_id target) of
          None \<Rightarrow> (fs, Inl MergeTargetUnavailable)
        | Some data \<Rightarrow>
            let pid = unat (t_property_id target);
                base_data = (case current_base of None \<Rightarrow> s_property_data data ! pid
                             | Some m \<Rightarrow> mp_data m);
                base_size = length base_data
            in if base_size = 0 then (fs, Inl MergeBaseEmpty)
               else
                 let final_path = pFileName_with_id (pFileName (l_data_dir cfg) (t_base_file_id target)) pid;
                     temporary_path = final_path @ ''.merge.'' @ to_string (unat output_generation) @ ''.tmp''
                 in publish_column cfg io fs temporary_path final_path
                      (merge_files (merge_record env (Some data) (int pid) base_size) deltas (base_data, None))
                      output_generation)"

text \<open>The point read in one table. The result is \<open>None\<close> where the source would read outside the index
  or the column; the second component is what is stored in the caller's string, if anything.\<close>

definition find_edge_in_lonely_SStableCache ::
  "layout_env \<Rightarrow> PropertyDeltaReadView option \<Rightarrow> SstTable \<Rightarrow> VertexId_t \<Rightarrow> VertexId_t \<Rightarrow> int \<Rightarrow> bool \<Rightarrow> u8 \<Rightarrow>
   PropertyDeltaLookupCounters \<Rightarrow> (Status \<times> string option) option" where
  "find_edge_in_lonely_SStableCache env delta_view t src dst property_id is_out edge_type counters =
     (let pos = SST_get t src in
      if pos < 0 then Some (kNotFound, None)
      else if pos + 1 \<ge> int (length (s_indexes t)) then None
      else let (rs, low) = FindEdgeByDstDirectionAndType (s_edge_data t)
                             (sint (ix_offset (s_indexes t ! nat pos)))
                             (sint (ix_offset (s_indexes t ! nat (pos + 1)))) dst is_out edge_type;
               found = (case delta_view of
                   Some view \<Rightarrow> if rs = kOk
                     then fst (ReadView_Lookup view (src, dst, get_seq_raw (drop (nat low) (s_edge_data t)),
                            is_out, edge_type) kLatestPropertyCommit counters)
                     else None
                 | None \<Rightarrow> None)
           in case found of
                Some (v, _) \<Rightarrow> Some (kOk, Some v)
              | None \<Rightarrow>
                  if rs \<noteq> kOk then Some (rs, None)
                  else let property_buffer = (case delta_view of
                             None \<Rightarrow> s_property_data t ! nat property_id
                           | Some view \<Rightarrow> BaseDataOr view (s_property_data t ! nat property_id));
                           property_offset = GetSubPropertyOffsetByEdgeOrdinal env
                             (GetEdgeOrdinalFromBodyOffset (word_of_int low)) property_id
                       in if GetSubPropertyFixedLength env property_id > 0
                          then map_option (\<lambda>v. (rs, Some v))
                                 (ReadSubPropertyFromSlot env property_buffer (unat property_offset) property_id)
                          else Some (rs, None))"

section \<open>Lemmas\<close>

subsection \<open>The visitor over the files is one pass over their records\<close>

lemma visit_list_append:
  "visit_list visitor (xs @ ys) s =
     (case visit_list visitor xs s of (False, s') \<Rightarrow> (False, s') | (True, s') \<Rightarrow> visit_list visitor ys s')"
  by (induction xs arbitrary: s) (auto split: prod.splits bool.splits)

lemma merge_files_records:
  "list_all delta_file_ok fs \<Longrightarrow>
   merge_files visitor fs s = visit_list visitor (concat (map file_records fs)) s"
  by (induction fs arbitrary: s)
    (auto simp: visit_list_append ForEachRecord_valid delta_file_ok_def split: prod.splits bool.splits)

subsection \<open>The column after a merge\<close>

text \<open>The record that decides the slot of an ordinal: the last one located there.\<close>

fun last_located :: "SstTable option \<Rightarrow> u64 \<Rightarrow> PropertyDeltaRecord list \<Rightarrow> PropertyDeltaRecord option" where
  "last_located data j [] = None"
| "last_located data j (r # rs) =
     (case last_located data j rs of
        Some x \<Rightarrow> Some x
      | None \<Rightarrow> if LocateSstEdgeOrdinal data r = Some j then Some r else None)"

definition column_slot :: "layout_env \<Rightarrow> int \<Rightarrow> bytes \<Rightarrow> u64 \<Rightarrow> string option" where
  "column_slot env i col j = ReadSubPropertyFromSlot env col (unat (GetSubPropertyOffsetByEdgeOrdinal env j i)) i"

definition in_column :: "layout_env \<Rightarrow> int \<Rightarrow> bytes \<Rightarrow> u64 \<Rightarrow> bool" where
  "in_column env i col j \<longleftrightarrow> (unat j + 1) * unat (GetSubPropertyFixedLength env i) \<le> length col"

lemma located_small: "LocateSstEdgeOrdinal data r = Some k \<Longrightarrow> unat k < 2 ^ 28"
proof -
  assume "LocateSstEdgeOrdinal data r = Some k"
  then obtain w where "k = GetEdgeOrdinalFromBodyOffset w"
    by (auto simp: LocateSstEdgeOrdinal_def Let_def split: option.splits prod.splits if_splits)
  then have "unat k = unat w div 16"
    by (simp add: GetEdgeOrdinalFromBodyOffset_def EDGEBODY_SIZE_def unat_ucast_widen unat_div)
  moreover have "unat w < 2 ^ 32" using unsigned_less [of w] by simp
  ultimately show ?thesis by simp
qed

lemma slot_guard:
  assumes "unat k < 2 ^ 28" "n < 2 ^ 64"
    "\<not> (k * ucast L > (word_of_nat n :: u64) \<or> ucast L > (word_of_nat n :: u64) - k * ucast (L :: u32))"
  shows "unat (k * ucast L) = unat k * unat L" "(unat k + 1) * unat L \<le> n"
proof -
  have "unat L < 2 ^ 32" using unsigned_less [of L] by simp
  then have "unat k * unat L \<le> 2 ^ 28 * 2 ^ 32"
    using assms(1) by (intro mult_le_mono) auto
  then show prod: "unat (k * ucast L) = unat k * unat L"
    by (simp add: unat_word_ariths unat_ucast_widen)
  have n: "unat (word_of_nat n :: u64) = n"
    using assms(2) by (simp add: unat_of_nat)
  have "unat k * unat L \<le> n" using assms(3) prod n by (simp add: not_less word_le_nat_alt)
  moreover have "unat L \<le> n - unat k * unat L"
    using assms(3) prod n unat_sub [of "k * ucast L" "word_of_nat n :: u64"]
    by (simp add: not_less word_le_nat_alt unat_ucast_widen)
  ultimately show "(unat k + 1) * unat L \<le> n" by simp
qed

lemma merge_record_step:
  assumes "merge_record env data i (length out) r (out, err) = (True, (out', err'))"
    "length out < 2 ^ 64"
  obtains k where "LocateSstEdgeOrdinal data r = Some k" "in_column env i out k"
    "err' = err" "length out' = length out"
    "\<And>j. in_column env i out j \<Longrightarrow> column_slot env i out' j =
       (if j = k then Some (TrimTrailingZero (take (unat (GetSubPropertyFixedLength env i)) (r_value r)))
        else column_slot env i out j)"
proof -
  let ?L = "GetSubPropertyFixedLength env i"
  from assms(1) obtain k where k: "LocateSstEdgeOrdinal data r = Some k"
    and guard: "\<not> (k * ucast ?L > (word_of_nat (length out) :: u64) \<or>
                  ucast ?L > (word_of_nat (length out) :: u64) - k * ucast ?L)"
    and w: "WritePaddedSubPropertySlot env out (unat (k * ucast ?L)) (r_value r) i = Some out'"
    and err: "err' = err"
    by (auto simp: merge_record_def Let_def split: option.splits if_splits)
  have col: "(unat k + 1) * unat ?L \<le> length out"
    using slot_guard(2) [OF located_small [OF k] assms(2) guard] .
  have w': "WritePaddedSubPropertySlot env out (unat (GetSubPropertyOffsetByEdgeOrdinal env k i)) (r_value r) i
      = Some out'"
    using w by (simp add: GetSubPropertyOffsetByEdgeOrdinal_def)
  show ?thesis
  proof (rule that [OF k _ err])
    show "in_column env i out k" using col by (simp add: in_column_def)
    show "length out' = length out" using slot_write_read [OF col col assms(2), of "r_value r"] w' by auto
    show "column_slot env i out' j =
       (if j = k then Some (TrimTrailingZero (take (unat ?L) (r_value r))) else column_slot env i out j)"
      if "in_column env i out j" for j
      using slot_write_read [OF col _ assms(2), of j "r_value r"] that w'
      by (auto simp: in_column_def column_slot_def)
  qed
qed

lemma merge_fold:
  assumes "visit_list (merge_record env data i (length out)) rs (out, err) = (True, (out', err'))"
    "length out < 2 ^ 64"
  shows "length out' = length out \<and>
    (\<forall>r \<in> set rs. \<exists>k. LocateSstEdgeOrdinal data r = Some k \<and> in_column env i out k) \<and>
    (\<forall>j. in_column env i out j \<longrightarrow> column_slot env i out' j =
       (case last_located data j rs of
          Some r \<Rightarrow> Some (TrimTrailingZero (take (unat (GetSubPropertyFixedLength env i)) (r_value r)))
        | None \<Rightarrow> column_slot env i out j))"
  using assms
proof (induction rs arbitrary: out err)
  case (Cons r rs)
  obtain mid e where step: "merge_record env data i (length out) r (out, err) = (True, (mid, e))"
    and rest: "visit_list (merge_record env data i (length out)) rs (mid, e) = (True, (out', err'))"
    using Cons.prems(1) by (auto split: prod.splits bool.splits)
  obtain k where k: "LocateSstEdgeOrdinal data r = Some k" "in_column env i out k"
    "length mid = length out"
    and slot: "\<And>j. in_column env i out j \<Longrightarrow> column_slot env i mid j =
       (if j = k then Some (TrimTrailingZero (take (unat (GetSubPropertyFixedLength env i)) (r_value r)))
        else column_slot env i out j)"
    using merge_record_step [OF step Cons.prems(2)] by metis
  have col: "in_column env i mid j = in_column env i out j" for j by (simp add: in_column_def k(3))
  have "length mid < 2 ^ 64" using Cons.prems(2) k(3) by simp
  from Cons.IH [OF rest [folded k(3)] this] show ?case
    unfolding col using k slot by (auto split: option.splits)
qed simp

subsection \<open>The last record located at a slot is the newest version\<close>

text \<open>The files of a chain hold the versions of an edge in commit order.\<close>

definition commit_ordered :: "PropertyDeltaRecord list \<Rightarrow> bool" where
  "commit_ordered rs \<longleftrightarrow> sorted_wrt (\<lambda>a b. rkey a = rkey b \<longrightarrow> r_commit_sequence a \<le> r_commit_sequence b) rs"

lemma latest_sees_all [simp]: "c \<le> kLatestPropertyCommit"
proof -
  have "kLatestPropertyCommit = - 1" by (simp add: kLatestPropertyCommit_def)
  then show ?thesis by (metis word_order.extremum)
qed

lemma newest_member: "newest k s rs = Some r \<Longrightarrow> rkey r = k \<and> r \<in> set rs"
  using newest_Some held_Some by blast

lemma last_located_newest:
  assumes "sst_ok t es starts" "LocateSstEdgeOrdinal (Some t) q = Some j" "commit_ordered rs"
  shows "last_located (Some t) j rs = newest (rkey q) kLatestPropertyCommit rs"
  using assms(3)
proof (induction rs)
  case (Cons r rs)
  have at: "LocateSstEdgeOrdinal (Some t) r = Some j \<longleftrightarrow> rkey r = rkey q"
    using LocateSstEdgeOrdinal_inj [OF assms(1) _ assms(2)] LocateSstEdgeOrdinal_key [of r q] assms(2) by metis
  have IH: "last_located (Some t) j rs = newest (rkey q) kLatestPropertyCommit rs"
    using Cons by (simp add: commit_ordered_def)
  show ?case
  proof (cases "newest (rkey q) kLatestPropertyCommit rs")
    case (Some x)
    then have "rkey x = rkey q" "x \<in> set rs" by (simp_all add: newest_member)
    then have "rkey r = rkey q \<Longrightarrow> r_commit_sequence r \<le> r_commit_sequence x"
      using Cons.prems by (simp add: commit_ordered_def)
    with Some IH show ?thesis by (simp add: newer_def)
  qed (simp add: IH at newer_def)
qed simp

lemma newest_ordered_append:
  assumes "commit_ordered (xs @ ys)"
  shows "newest k s (xs @ ys) = (case newest k s ys of None \<Rightarrow> newest k s xs | Some r \<Rightarrow> Some r)"
proof (cases "newest k s ys")
  case None
  then show ?thesis by (simp add: newest_append newer_def)
next
  case (Some b)
  show ?thesis
  proof (cases "newest k s xs")
    case (Some a)
    have "rkey a = k" "a \<in> set xs" "rkey b = k" "b \<in> set ys"
      using newest_member [OF Some] newest_member [OF \<open>newest k s ys = Some b\<close>] by simp_all
    then have "r_commit_sequence a \<le> r_commit_sequence b"
      using assms by (auto simp: commit_ordered_def sorted_wrt_append)
    with Some \<open>newest k s ys = Some b\<close> show ?thesis by (simp add: newest_append newer_def)
  qed (simp add: newest_append newer_def Some)
qed

subsection \<open>Outcomes of a merge\<close>

definition merge_base :: "SstTable \<Rightarrow> MappedPropertyFile option \<Rightarrow> nat \<Rightarrow> bytes" where
  "merge_base t current_base pid = (case current_base of None \<Rightarrow> s_property_data t ! pid | Some m \<Rightarrow> mp_data m)"

definition column_path :: "lsm_config \<Rightarrow> PropertyDeltaTarget \<Rightarrow> string" where
  "column_path cfg target =
     pFileName_with_id (pFileName (l_data_dir cfg) (t_base_file_id target)) (unat (t_property_id target))"

definition merge_layout :: "lsm_config \<Rightarrow> layout_env \<Rightarrow> layout_env" where
  "merge_layout cfg env = snd (ScopedFixedPropertyLayout_enter (Some (l_lengths cfg)) env)"

lemma publish_column_outcome:
  assumes "publish_column cfg io fs tmp path (filled_ok, out, err) gen = (fs', res)" "tmp \<noteq> path"
  shows "(fs' path = fs path \<and> (\<exists>e. res = Inl e) \<or> fs' path = Some out \<and> filled_ok) \<and>
    (\<forall>m. res = Inr m \<longrightarrow> filled_ok \<and> fs' path = Some out \<and> m = \<lparr>mp_data = out, mp_generation = gen\<rparr>) \<and>
    (\<forall>q. q \<noteq> path \<and> q \<noteq> tmp \<longrightarrow> fs' q = fs q)"
proof (cases "fs tmp \<noteq> None \<or> \<not> mg_open io")
  case True
  with assms show ?thesis by (auto simp: publish_column_def)
next
  case False
  have open_ok: "MappedPropertyFile_Open io' (fs(tmp := None, path \<mapsto> out)) path gen = Inr m \<Longrightarrow>
      m = \<lparr>mp_data = out, mp_generation = gen\<rparr>" for io' m
    by (auto simp: MappedPropertyFile_Open_def split: if_splits)
  show ?thesis
    using assms False open_ok
    by (auto simp: publish_column_def Let_def split: if_splits sum.splits)
qed

lemma merge_outcome:
  assumes "MergePropertyDeltaColumn cfg env io fs target current_base deltas gen = (fs', Inr m)"
    "list_all delta_file_ok deltas"
  obtains t err where "l_tables cfg (t_base_file_id target) = Some t"
    "unat (t_property_id target) < length (l_lengths cfg)"
    "visit_list (merge_record (merge_layout cfg env) (Some t) (int (unat (t_property_id target)))
       (length (merge_base t current_base (unat (t_property_id target)))))
       (concat (map file_records deltas)) (merge_base t current_base (unat (t_property_id target)), None) =
     (True, (mp_data m, err))"
    "mp_generation m = gen" "fs' (column_path cfg target) = Some (mp_data m)"
proof -
  let ?pid = "unat (t_property_id target)"
  from assms(1) obtain t where t: "l_tables cfg (t_base_file_id target) = Some t"
    and pid: "?pid < length (l_lengths cfg)"
    by (auto simp: MergePropertyDeltaColumn_def Let_def split: if_splits option.splits)
  let ?base = "merge_base t current_base ?pid"
  let ?v = "merge_record (merge_layout cfg env) (Some t) (int ?pid) (length ?base)"
  obtain okf out err where fill: "visit_list ?v (concat (map file_records deltas)) (?base, None) = (okf, (out, err))"
    by (metis prod.exhaust)
  have fill': "merge_files ?v deltas (?base, None) = (okf, (out, err))"
    using fill merge_files_records [OF assms(2)] by metis
  have pub: "publish_column cfg io fs (column_path cfg target @ ''.merge.'' @ to_string (unat gen) @ ''.tmp'')
      (column_path cfg target) (okf, (out, err)) gen = (fs', Inr m)"
    using assms(1) t fill'
    by (simp add: MergePropertyDeltaColumn_def Let_def merge_base_def [symmetric] merge_layout_def [symmetric]
        column_path_def [symmetric] split: if_splits)
  from publish_column_outcome [OF pub]
  have "okf" "fs' (column_path cfg target) = Some out" "m = \<lparr>mp_data = out, mp_generation = gen\<rparr>" by auto
  with fill that [OF t pid] show ?thesis by simp
qed

lemma merge_filled:
  assumes "MergePropertyDeltaColumn cfg env io fs target current_base deltas gen = (fs', Inr m)"
    "list_all delta_file_ok deltas" "l_tables cfg (t_base_file_id target) = Some t"
    "merge_base t current_base (unat (t_property_id target)) = base"
  shows "\<exists>err. visit_list (merge_record (merge_layout cfg env) (Some t) (int (unat (t_property_id target)))
      (length base)) (concat (map file_records deltas)) (base, None) = (True, (mp_data m, err))"
  using merge_outcome [OF assms(1,2)] assms(3,4) by (metis option.inject)

subsection \<open>The point read\<close>

text \<open>What a reader of the latest version gets for the edge at ordinal \<open>i\<close>.\<close>

definition edge_value :: "layout_env \<Rightarrow> PropertyDeltaReadView \<Rightarrow> SstTable \<Rightarrow> int \<Rightarrow> lookup_key \<Rightarrow> nat \<Rightarrow> string option" where
  "edge_value env view t pid k i =
     (case newest (logical k) kLatestPropertyCommit (view_records view) of
        Some r \<Rightarrow> Some (r_value r)
      | None \<Rightarrow> column_slot env pid (BaseDataOr view (s_property_data t ! nat pid)) (word_of_nat i))"

lemma find_edge_in_table:
  assumes "sst_ok t es starts" "list_all delta_file_ok (v_deltas view)"
    "GetSubPropertyFixedLength env pid > 0"
    "Suc p < length (s_indexes t)" "ix_key (s_indexes t ! p) = src"
  shows "find_edge_in_lonely_SStableCache env (Some view) t src dst pid is_out et counters =
    (case first_edge es (starts ! p) (starts ! Suc p) dst is_out et of
       None \<Rightarrow> Some (kNotFound, None)
     | Some i \<Rightarrow> if get_marker (es ! i) then Some (kDelete, None)
         else map_option (\<lambda>v. (kOk, Some v))
                (edge_value env view t pid (src, dst, get_seq (es ! i), is_out, et) i))"
proof -
  have pos: "SST_get t src = int p" using assms by (intro SST_get_hit) (auto simp: sst_ok_def)
  have nat_p: "nat (int p + 1) = Suc p" by simp
  have data: "s_edge_data t = concat (map EdgeBody_image es)" and small: "16 * length es < 2 ^ 31"
    and run: "sst_run_ok es (starts ! p) (starts ! Suc p)"
    using assms by (auto simp: sst_ok_def)
  show ?thesis
  proof (cases "first_edge es (starts ! p) (starts ! Suc p) dst is_out et")
    case None
    then show ?thesis using assms(4)
      by (simp add: find_edge_in_lonely_SStableCache_def pos sst_find_edge [OF assms(1,4)] nat_p)
  next
    case (Some i)
    then have i: "i < length es" using first_edge_SomeD [OF Some] run by (auto simp: sst_run_ok_def)
    then have seq: "get_seq_raw (drop (nat (16 * int i)) (s_edge_data t)) = get_seq (es ! i)"
      by (simp add: data get_seq_raw_image nat_mult_distrib)
    have ord: "GetEdgeOrdinalFromBodyOffset (16 * word_of_nat i) = word_of_nat i"
      using ordinal_of_offset [of i] i small by simp
    show ?thesis
    proof (cases "get_marker (es ! i)")
      case True
      with Some assms(4) show ?thesis
        by (simp add: find_edge_in_lonely_SStableCache_def pos sst_find_edge [OF assms(1,4)] nat_p)
    next
      case False
      with Some assms(3,4) show ?thesis
        by (cases "newest (logical (src, dst, get_seq (es ! i), is_out, et)) kLatestPropertyCommit (view_records view)")
          (simp_all add: find_edge_in_lonely_SStableCache_def pos sst_find_edge [OF assms(1,4)] nat_p seq ord
            ReadView_newest [OF assms(2)] edge_value_def column_slot_def)
    qed
  qed
qed

lemma find_edge_no_index:
  assumes "SST_get t src < 0 \<or> int (length (s_indexes t)) \<le> SST_get t src + 1"
  shows "find_edge_in_lonely_SStableCache env view t src dst pid is_out et counters =
         find_edge_in_lonely_SStableCache env view' t src dst pid is_out et counters"
  using assms by (auto simp: find_edge_in_lonely_SStableCache_def Let_def)

text \<open>A value the column can hold as it is: no longer than the slot, no trailing zero byte.\<close>

definition slot_fits :: "u32 \<Rightarrow> string \<Rightarrow> bool" where
  "slot_fits L v \<longleftrightarrow> length v \<le> unat L \<and> (v = [] \<or> last v \<noteq> CHR 0x00)"

definition merged_view :: "PropertyDeltaReadView \<Rightarrow> nat \<Rightarrow> MappedPropertyFile \<Rightarrow> u64 \<Rightarrow> PropertyDeltaReadView" where
  "merged_view view n m gen = \<lparr>v_merged_base = Some m, v_deltas = drop n (v_deltas view), v_generation = gen\<rparr>"

lemma view_records_split:
  "view_records view = concat (map file_records (take n (v_deltas view))) @ concat (map file_records (drop n (v_deltas view)))"
  by (simp add: view_records_def flip: concat_append map_append)

lemma column_slot_outside:
  assumes "unat j < 2 ^ 28" "\<not> in_column env i col j"
  shows "column_slot env i col j = None"
proof -
  let ?L = "GetSubPropertyFixedLength env i"
  have "unat ?L < 2 ^ 32" using unsigned_less [of ?L] by simp
  then have "unat j * unat ?L \<le> 2 ^ 28 * 2 ^ 32" using assms(1) by (intro mult_le_mono) auto
  then have "unat (j * ucast ?L) = unat j * unat ?L" by (simp add: unat_word_ariths unat_ucast_widen)
  with assms(2) show ?thesis
    by (simp add: column_slot_def in_column_def ReadSubPropertyFromSlot_def GetSubPropertyOffsetByEdgeOrdinal_def Let_def)
qed

text \<open>The slot of an edge after the fold: the newest folded version, else what was there.\<close>

lemma merged_slot:
  assumes t: "sst_ok t es starts" and q: "LocateSstEdgeOrdinal (Some t) q = Some j" and ordered: "commit_ordered rs"
    and fit: "\<forall>r \<in> set rs. slot_fits (GetSubPropertyFixedLength env pid) (r_value r)"
    and size: "length base < 2 ^ 64"
    and fold: "visit_list (merge_record env (Some t) pid (length base)) rs (base, None) = (True, (out, err))"
  shows "column_slot env pid out j =
      (case newest (rkey q) kLatestPropertyCommit rs of
         Some r \<Rightarrow> Some (r_value r) | None \<Rightarrow> column_slot env pid base j)"
proof (cases "newest (rkey q) kLatestPropertyCommit rs")
  case None
  note merged = merge_fold [OF fold size]
  show ?thesis
  proof (cases "in_column env pid base j")
    case True
    with merged None last_located_newest [OF t q ordered] show ?thesis by simp
  next
    case False
    with merged have "\<not> in_column env pid out j" by (simp add: in_column_def)
    with False None located_small [OF q] show ?thesis by (simp add: column_slot_outside)
  qed
next
  case (Some r)
  note merged = merge_fold [OF fold size]
  have r: "r \<in> set rs" "rkey r = rkey q" using newest_member [OF Some] by simp_all
  then have "in_column env pid base j"
    using merged q LocateSstEdgeOrdinal_key [OF r(2)] by fastforce
  moreover have "TrimTrailingZero (take (unat (GetSubPropertyFixedLength env pid)) (r_value r)) = r_value r"
    using fit r(1) by (auto simp: slot_fits_def)
  ultimately show ?thesis using merged Some last_located_newest [OF t q ordered] by simp
qed

lemma merged_edge_value:
  assumes t: "sst_ok t es starts" and q: "LocateSstEdgeOrdinal (Some t) q = Some (word_of_nat i)"
    and k: "logical k = rkey q" and ordered: "commit_ordered (view_records view)"
    and fit: "\<forall>r \<in> set rs. slot_fits (GetSubPropertyFixedLength env pid) (r_value r)"
    and rs: "rs = concat (map file_records (take n (v_deltas view)))"
    and size: "length base < 2 ^ 64" and base: "base = BaseDataOr view (s_property_data t ! nat pid)"
    and fold: "visit_list (merge_record env (Some t) pid (length base)) rs (base, None) = (True, (mp_data m, err))"
  shows "edge_value env (merged_view view n m gen) t pid k i = edge_value env view t pid k i"
proof -
  let ?rest = "concat (map file_records (drop n (v_deltas view)))"
  have split: "view_records view = rs @ ?rest" by (simp add: rs view_records_split [of view n])
  have newest: "newest (logical k) kLatestPropertyCommit (rs @ ?rest) =
      (case newest (logical k) kLatestPropertyCommit ?rest of
         None \<Rightarrow> newest (logical k) kLatestPropertyCommit rs | Some r \<Rightarrow> Some r)"
    using newest_ordered_append ordered unfolding split .
  have "commit_ordered rs" using ordered by (simp add: split commit_ordered_def sorted_wrt_append)
  note slot = merged_slot [OF t q this fit size fold, folded k]
  have parts: "view_records (merged_view view n m gen) = ?rest"
    "BaseDataOr (merged_view view n m gen) orig = mp_data m" for orig
    by (simp_all add: merged_view_def view_records_def BaseDataOr_def)
  show ?thesis
    unfolding edge_value_def parts split newest slot base
    by (auto split: option.splits)
qed

section \<open>Properties\<close>

text \<open>C13. A merge is invisible to readers. If folding the oldest \<open>n\<close> files of a chain into the column
  succeeds, then every point read in that table (any source, destination, direction, type) gives the same
  answer through the new view (merged column, remaining files) as through the old one, including for
  absent and deleted edges. The files hold an edge's versions in commit order, and the folded values fit
  the column.\<close>

theorem merge_preserves_reads:
  assumes "l_tables cfg (t_base_file_id target) = Some t" "sst_ok t es starts"
    "list_all delta_file_ok (v_deltas view)" "commit_ordered (view_records view)"
    "length (BaseDataOr view (s_property_data t ! unat (t_property_id target))) < 2 ^ 64"
    "0 < GetSubPropertyFixedLength (merge_layout cfg env) (int (unat (t_property_id target)))"
    "\<forall>r \<in> set (view_records view). slot_fits
       (GetSubPropertyFixedLength (merge_layout cfg env) (int (unat (t_property_id target)))) (r_value r)"
    "MergePropertyDeltaColumn cfg env io fs target (v_merged_base view) (take n (v_deltas view)) gen = (fs', Inr m)"
  shows "find_edge_in_lonely_SStableCache (merge_layout cfg env) (Some (merged_view view n m gen)) t src dst
      (int (unat (t_property_id target))) is_out et counters =
    find_edge_in_lonely_SStableCache (merge_layout cfg env) (Some view) t src dst
      (int (unat (t_property_id target))) is_out et counters"
proof (cases "SST_get t src < 0 \<or> int (length (s_indexes t)) \<le> SST_get t src + 1")
  case True
  then show ?thesis by (rule find_edge_no_index)
next
  case False
  let ?pid = "int (unat (t_property_id target))"
  let ?env = "merge_layout cfg env"
  define p where "p = nat (SST_get t src)"
  have p: "Suc p < length (s_indexes t)" "ix_key (s_indexes t ! p) = src"
    using False SST_find_sound [of "s_indexes t" src 0 "int (length (s_indexes t)) - 1"]
    by (auto simp: p_def SST_get_def)
  have batch: "list_all delta_file_ok (take n (v_deltas view))" "list_all delta_file_ok (drop n (v_deltas view))"
    using assms(3) by (auto simp: list_all_iff dest: in_set_takeD in_set_dropD)
  have base: "merge_base t (v_merged_base view) (unat (t_property_id target)) =
      BaseDataOr view (s_property_data t ! nat ?pid)"
    by (simp add: merge_base_def BaseDataOr_def)
  obtain err where fold: "visit_list (merge_record ?env (Some t) ?pid
       (length (BaseDataOr view (s_property_data t ! nat ?pid))))
       (concat (map file_records (take n (v_deltas view)))) (BaseDataOr view (s_property_data t ! nat ?pid), None) =
     (True, (mp_data m, err))"
    using merge_filled [OF assms(8) batch(1) assms(1) base] by blast
  have same: "edge_value ?env (merged_view view n m gen) t ?pid (src, dst, get_seq (es ! i), is_out, et) i =
      edge_value ?env view t ?pid (src, dst, get_seq (es ! i), is_out, et) i"
    if i: "first_edge es (starts ! p) (starts ! Suc p) dst is_out et = Some i" "\<not> get_marker (es ! i)" for i
  proof -
    define q where "q = \<lparr>r_src = src, r_dst = dst, r_base_sequence = get_seq (es ! i), r_commit_sequence = 0,
      r_is_out = is_out, r_edge_type = et, r_value = []\<rparr>"
    have "LocateSstEdgeOrdinal (Some t) q = Some (word_of_nat i)"
      using LocateSstEdgeOrdinal_eq [OF assms(2) p(1), of q] p(2) i by (simp add: q_def)
    moreover have "logical (src, dst, get_seq (es ! i), is_out, et) = rkey q"
      by (simp add: logical_def rkey_def q_def)
    moreover have "\<forall>r \<in> set (concat (map file_records (take n (v_deltas view)))).
        slot_fits (GetSubPropertyFixedLength ?env ?pid) (r_value r)"
      using assms(7) view_records_split [of view n] by auto
    ultimately show ?thesis
      using merged_edge_value [OF assms(2) _ _ assms(4) _ refl _ refl fold] assms(5) by simp
  qed
  have view': "list_all delta_file_ok (v_deltas (merged_view view n m gen))"
    using batch(2) by (simp add: merged_view_def)
  show ?thesis
    unfolding find_edge_in_table [OF assms(2) assms(3) assms(6) p]
      find_edge_in_table [OF assms(2) view' assms(6) p]
    using same by (auto simp del: of_nat_unat split: option.splits)
qed

subsection \<open>A merge succeeds, is atomic and can be repeated\<close>

lemma merge_record_succeeds:
  assumes "LocateSstEdgeOrdinal data r = Some k" "in_column env i out k" "length out < 2 ^ 64"
  shows "\<exists>out'. merge_record env data i (length out) r (out, err) = (True, (out', err)) \<and> length out' = length out"
proof -
  let ?L = "GetSubPropertyFixedLength env i"
  have col: "(unat k + 1) * unat ?L \<le> length out" using assms(2) by (simp add: in_column_def)
  have n: "unat (word_of_nat (length out) :: u64) = length out" using assms(3) by (simp add: unat_of_nat)
  have off: "unat (k * ucast ?L) = unat k * unat ?L"
    using unat_slot_offset [OF col assms(3)] by (simp add: GetSubPropertyOffsetByEdgeOrdinal_def)
  have "k * ucast ?L \<le> word_of_nat (length out)" using col off n by (simp add: word_le_nat_alt)
  then have "\<not> (k * ucast ?L > word_of_nat (length out) \<or>
      ucast ?L > (word_of_nat (length out) :: u64) - k * ucast ?L)"
    using col off n by (simp add: not_less word_le_nat_alt unat_sub unat_ucast_widen)
  then show ?thesis
    using slot_write_read [OF col col assms(3), of "r_value r"] assms(1)
    by (auto simp: merge_record_def Let_def GetSubPropertyOffsetByEdgeOrdinal_def)
qed

lemma merge_fold_succeeds:
  assumes "\<forall>r \<in> set rs. \<exists>k. LocateSstEdgeOrdinal data r = Some k \<and> in_column env i out k" "length out < 2 ^ 64"
  shows "\<exists>out'. visit_list (merge_record env data i (length out)) rs (out, err) = (True, (out', err)) \<and>
    length out' = length out"
  using assms
proof (induction rs arbitrary: out)
  case (Cons r rs)
  then obtain k where "LocateSstEdgeOrdinal data r = Some k" "in_column env i out k" by auto
  from merge_record_succeeds [OF this Cons.prems(2)] obtain mid
    where mid: "merge_record env data i (length out) r (out, err) = (True, (mid, err))" "length mid = length out"
    by blast
  have "\<forall>r \<in> set rs. \<exists>k. LocateSstEdgeOrdinal data r = Some k \<and> in_column env i mid k"
    using Cons.prems(1) mid(2) by (auto simp: in_column_def)
  with Cons.IH [of mid] Cons.prems(2) mid show ?case by simp
qed simp

definition merge_io_ok :: "merge_io \<Rightarrow> bool" where
  "merge_io_ok io \<longleftrightarrow> mg_open io \<and> mg_ftruncate io \<and> mg_mmap io \<and> mg_msync io \<and> mg_fdatasync io \<and>
     mg_close io \<and> mg_rename io \<and> mg_open_directory io \<and> mg_fsync_directory io \<and>
     mi_open (mg_reopen io) \<and> mi_fstat (mg_reopen io) \<and> mi_mmap (mg_reopen io)"

definition merge_request_ok ::
  "lsm_config \<Rightarrow> layout_env \<Rightarrow> PropertyDeltaTarget \<Rightarrow> SstTable \<Rightarrow> MappedPropertyFile option \<Rightarrow> PropertyDeltaFile list \<Rightarrow> bool"
where
  "merge_request_ok cfg env target t base deltas \<longleftrightarrow>
     deltas \<noteq> [] \<and> list_all delta_file_ok deltas \<and> t_kind target = l_kind cfg \<and> t_shard_id target = l_shard cfg \<and>
     unat (t_property_id target) < length (l_lengths cfg) \<and> l_tables cfg (t_base_file_id target) = Some t \<and>
     merge_base t base (unat (t_property_id target)) \<noteq> [] \<and>
     length (merge_base t base (unat (t_property_id target))) < 2 ^ 64 \<and>
     list_all (\<lambda>r. case LocateSstEdgeOrdinal (Some t) r of None \<Rightarrow> False
        | Some k \<Rightarrow> in_column (merge_layout cfg env) (int (unat (t_property_id target)))
                     (merge_base t base (unat (t_property_id target))) k)
       (concat (map file_records deltas))"

text \<open>The state every outcome of a merge leaves: the column file as it was, or fully merged.\<close>

lemma merge_cases:
  assumes "l_tables cfg (t_base_file_id target) = Some t" "list_all delta_file_ok deltas"
    "MergePropertyDeltaColumn cfg env io fs target current_base deltas gen = (fs', res)"
  shows "(fs' (column_path cfg target) = fs (column_path cfg target) \<and> (\<exists>e. res = Inl e) \<or>
      (\<exists>out err. fs' (column_path cfg target) = Some out \<and>
        visit_list (merge_record (merge_layout cfg env) (Some t) (int (unat (t_property_id target)))
            (length (merge_base t current_base (unat (t_property_id target)))))
          (concat (map file_records deltas)) (merge_base t current_base (unat (t_property_id target)), None) =
        (True, (out, err)))) \<and>
    (\<forall>q. q \<noteq> column_path cfg target \<and>
        q \<noteq> column_path cfg target @ ''.merge.'' @ to_string (unat gen) @ ''.tmp'' \<longrightarrow> fs' q = fs q)"
proof (cases "fs' = fs \<and> (\<exists>e. res = Inl e)")
  case False
  let ?pid = "unat (t_property_id target)"
  let ?base = "merge_base t current_base ?pid"
  let ?v = "merge_record (merge_layout cfg env) (Some t) (int ?pid) (length ?base)"
  obtain okf out err where fill: "visit_list ?v (concat (map file_records deltas)) (?base, None) = (okf, (out, err))"
    by (metis prod.exhaust)
  have fill': "merge_files ?v deltas (?base, None) = (okf, (out, err))"
    using fill merge_files_records [OF assms(2)] by metis
  have pub: "publish_column cfg io fs (column_path cfg target @ ''.merge.'' @ to_string (unat gen) @ ''.tmp'')
      (column_path cfg target) (okf, (out, err)) gen = (fs', res)"
    using assms(1,3) fill' False
    by (auto simp: MergePropertyDeltaColumn_def Let_def merge_base_def [symmetric] merge_layout_def [symmetric]
        column_path_def [symmetric] split: if_splits)
  from publish_column_outcome [OF pub] fill show ?thesis by auto
qed auto

lemma merge_returns:
  assumes "merge_request_ok cfg env target t base deltas" "merge_io_ok io"
    "fs (column_path cfg target @ ''.merge.'' @ to_string (unat gen) @ ''.tmp'') = None"
  shows "\<exists>m. MergePropertyDeltaColumn cfg env io fs target base deltas gen =
      (fs(column_path cfg target \<mapsto> mp_data m), Inr m) \<and> mp_generation m = gen \<and>
    length (mp_data m) = length (merge_base t base (unat (t_property_id target)))"
proof -
  let ?pid = "unat (t_property_id target)"
  let ?base = "merge_base t base ?pid"
  let ?tmp = "column_path cfg target @ ''.merge.'' @ to_string (unat gen) @ ''.tmp''"
  have "\<forall>r \<in> set (concat (map file_records deltas)). \<exists>k. LocateSstEdgeOrdinal (Some t) r = Some k \<and>
      in_column (merge_layout cfg env) (int ?pid) ?base k"
    using assms(1) by (fastforce simp: merge_request_ok_def list_all_iff split: option.splits)
  then obtain out where out: "visit_list (merge_record (merge_layout cfg env) (Some t) (int ?pid) (length ?base))
      (concat (map file_records deltas)) (?base, None) = (True, (out, None))" "length out = length ?base"
    using merge_fold_succeeds [of _ "Some t" "merge_layout cfg env" "int ?pid" ?base None] assms(1)
    unfolding merge_request_ok_def by blast
  have "merge_files (merge_record (merge_layout cfg env) (Some t) (int ?pid) (length ?base)) deltas (?base, None) =
      (True, (out, None))"
    using out(1) assms(1) by (simp add: merge_files_records merge_request_ok_def)
  moreover have "out \<noteq> []" using out(2) assms(1) by (auto simp: merge_request_ok_def)
  moreover have "fs(?tmp := None) = fs" using assms(3) by (simp add: fun_upd_idem)
  ultimately have "MergePropertyDeltaColumn cfg env io fs target base deltas gen =
      (fs(column_path cfg target \<mapsto> out), Inr \<lparr>mp_data = out, mp_generation = gen\<rparr>)"
    using assms
    by (simp add: MergePropertyDeltaColumn_def merge_request_ok_def Let_def merge_base_def [symmetric]
        merge_layout_def [symmetric] column_path_def [symmetric] publish_column_def merge_io_ok_def
        SyncPropertyDeltaParent_def MappedPropertyFile_Open_def)
  with out(2) show ?thesis by auto
qed

text \<open>C15. A merge succeeds. When no system call fails, the temporary name is free and every delta record
  names a live edge of the table inside the column, the merge returns the new column: it has the old
  column's size, is tagged with the output generation and is the file at the column's path; no other
  file has changed.\<close>

theorem merge_succeeds:
  assumes "merge_request_ok cfg env target t base deltas" "merge_io_ok io"
    "fs (column_path cfg target @ ''.merge.'' @ to_string (unat gen) @ ''.tmp'') = None"
  shows "\<exists>m. MergePropertyDeltaColumn cfg env io fs target base deltas gen =
      (fs(column_path cfg target \<mapsto> mp_data m), Inr m) \<and> mp_generation m = gen \<and>
    length (mp_data m) = length (merge_base t base (unat (t_property_id target)))"
  using assms by (rule merge_returns)

lemma sst_ok_property_data [simp]: "sst_ok (t\<lparr>s_property_data := x\<rparr>) es starts = sst_ok t es starts"
  by (simp add: sst_ok_def)

lemma Locate_property_data [simp]:
  "LocateSstEdgeOrdinal (Some (t\<lparr>s_property_data := x\<rparr>)) = LocateSstEdgeOrdinal (Some t)"
  by (rule ext) (simp add: LocateSstEdgeOrdinal_def SST_get_def Let_def cong: if_cong)

lemma last_located_property_data [simp]:
  "last_located (Some (t\<lparr>s_property_data := x\<rparr>)) j rs = last_located (Some t) j rs"
  by (induction rs) simp_all

text \<open>C14. An interrupted merge can be run again. Let a merge of a table's own column end in any way, by
  success or by any failure, with \<open>col\<close> the column file it leaves. Reopening the table on that file and
  merging the same deltas again gives, slot by slot, the column an undisturbed merge gives.\<close>

theorem merge_repeatable:
  assumes "l_tables cfg (t_base_file_id target) = Some t" "list_all delta_file_ok deltas"
    "unat (t_property_id target) < length (s_property_data t)"
    "length (s_property_data t ! unat (t_property_id target)) < 2 ^ 64"
    "fs (column_path cfg target) = Some (s_property_data t ! unat (t_property_id target))"
    "MergePropertyDeltaColumn cfg env io fs target None deltas gen = (fs1, res)"
    "fs1 (column_path cfg target) = Some col"
    "MergePropertyDeltaColumn (cfg\<lparr>l_tables := (l_tables cfg)(t_base_file_id target \<mapsto>
        t\<lparr>s_property_data := (s_property_data t)[unat (t_property_id target) := col]\<rparr>)\<rparr>)
      env io' fs2 target None deltas gen' = (fs3, Inr again)"
    "MergePropertyDeltaColumn cfg env io0 fs0 target None deltas gen0 = (fs4, Inr direct)"
    "in_column (merge_layout cfg env) (int (unat (t_property_id target)))
       (s_property_data t ! unat (t_property_id target)) j"
  shows "column_slot (merge_layout cfg env) (int (unat (t_property_id target))) (mp_data again) j =
    column_slot (merge_layout cfg env) (int (unat (t_property_id target))) (mp_data direct) j"
proof -
  let ?pid = "unat (t_property_id target)" and ?env = "merge_layout cfg env"
  let ?base = "s_property_data t ! ?pid" and ?rs = "concat (map file_records deltas)"
  let ?t' = "t\<lparr>s_property_data := (s_property_data t)[?pid := col]\<rparr>"
  let ?cfg' = "cfg\<lparr>l_tables := (l_tables cfg)(t_base_file_id target \<mapsto> ?t')\<rparr>"
  have rec: "merge_record e (Some ?t') = merge_record e (Some t)" for e
    by (intro ext) (simp add: merge_record_def)
  have base: "merge_base t None ?pid = ?base" "merge_base ?t' None ?pid = col"
    using assms(3) by (simp_all add: merge_base_def)
  have lay: "merge_layout ?cfg' env = ?env" by (simp add: merge_layout_def)
  obtain e1 where direct: "visit_list (merge_record ?env (Some t) (int ?pid) (length ?base)) ?rs (?base, None) =
      (True, (mp_data direct, e1))"
    using merge_filled [OF assms(9,2,1) base(1)] by blast
  obtain e2 where again: "visit_list (merge_record ?env (Some t) (int ?pid) (length col)) ?rs (col, None) =
      (True, (mp_data again, e2))"
    using merge_filled [OF assms(8,2) _ base(2)] unfolding lay rec by auto
  note d = merge_fold [OF direct assms(4)]
  consider "col = ?base" | e3 where "visit_list (merge_record ?env (Some t) (int ?pid) (length ?base)) ?rs (?base, None) = (True, (col, e3))"
    using merge_cases [OF assms(1,2,6)] assms(5,7) base(1) by auto
  then have "length col = length ?base" and
    old: "column_slot ?env (int ?pid) col j = (case last_located (Some t) j ?rs of
        Some r \<Rightarrow> column_slot ?env (int ?pid) col j | None \<Rightarrow> column_slot ?env (int ?pid) ?base j)"
    by (cases, use d direct assms(10) in \<open>auto simp del: of_nat_unat split: option.splits\<close>)+
  then have "length col < 2 ^ 64" "in_column ?env (int ?pid) col j"
    using assms(4,10) by (simp_all add: in_column_def)
  with merge_fold [OF again] d old assms(10) show ?thesis by (auto simp del: of_nat_unat split: option.splits)
qed

subsection \<open>A sample merge\<close>

definition sample_column_table :: SstTable where
  "sample_column_table = sample_table\<lparr>s_property_data := [replicate 20 0]\<rparr>"

definition sample_config :: lsm_config where
  "sample_config = \<lparr>l_kind = kEdge, l_shard = 0, l_lengths = [4], l_durability = kProcessCrashSafe,
     l_data_dir = ''db'', l_tables = [12 \<mapsto> sample_column_table]\<rparr>"

definition sample_merge_target :: PropertyDeltaTarget where
  "sample_merge_target = \<lparr>t_kind = kEdge, t_shard_id = 0, t_base_file_id = 12, t_base_generation = 12,
     t_property_id = 0\<rparr>"

definition sample_merge_io :: merge_io where
  "sample_merge_io = \<lparr>mg_open = True, mg_ftruncate = True, mg_mmap = True, mg_msync = True, mg_fdatasync = True,
     mg_close = True, mg_unlink = True, mg_rename = True, mg_open_directory = True, mg_fsync_directory = True,
     mg_reopen = \<lparr>mi_open = True, mi_fstat = True, mi_mmap = True\<rparr>\<rparr>"

definition sample_layout :: layout_env where
  "sample_layout = \<lparr>tls_fixed_property_lengths = None, FLAGS_sub_property_num = 1, FLAGS_max_property_length = 8\<rparr>"

definition sample_merge_view :: PropertyDeltaReadView where
  "sample_merge_view = \<lparr>v_merged_base = None,
     v_deltas = [created_file ''d'' sample_merge_target 3 [sample_edge_record]], v_generation = 3\<rparr>"

lemma sample_merge_files:
  "list_all delta_file_ok (v_deltas sample_merge_view)" "view_records sample_merge_view = [sample_edge_record]"
proof -
  have fit: "values_fit [sample_edge_record]" "image_size [sample_edge_record] < 2 ^ 64"
    by (simp_all add: values_fit_def image_size_def value_bytes_def sample_edge_record_def
        header_size_def record_size_def)
  show "list_all delta_file_ok (v_deltas sample_merge_view)"
    using created_file_ok [OF fit] by (simp add: sample_merge_view_def)
  show "view_records sample_merge_view = [sample_edge_record]"
    using created_file_records [OF fit] by (simp add: sample_merge_view_def view_records_def)
qed

lemma sample_located: "LocateSstEdgeOrdinal (Some sample_table) sample_edge_record = Some 0"
proof -
  have "first_edge sample_bodies 0 3 4 True 1 = Some 0" by code_simp
  with LocateSstEdgeOrdinal_eq [OF sample_table_ok, of 0 sample_edge_record] sample_bodies_newest show ?thesis
    by (simp add: sample_table_def sample_edge_record_def)
qed

lemma sample_column_ok: "sst_ok sample_column_table sample_bodies [0, 3, 4]"
  using sample_table_ok by (simp add: sample_column_table_def)

lemma sample_slot_length: "GetSubPropertyFixedLength (merge_layout sample_config sample_layout) 0 = 4"
  by (simp add: merge_layout_def sample_config_def ScopedFixedPropertyLayout_enter_def
      GetSubPropertyFixedLength_def c_int_def)

lemma sample_request:
  assumes "length col = 20" "l_tables cfg = [12 \<mapsto> sample_column_table\<lparr>s_property_data := [col]\<rparr>]"
    "l_kind cfg = kEdge" "l_shard cfg = 0" "l_lengths cfg = [4]" "deltas \<noteq> []" "list_all delta_file_ok deltas"
    "concat (map file_records deltas) = [sample_edge_record]"
  shows "merge_request_ok cfg sample_layout sample_merge_target (sample_column_table\<lparr>s_property_data := [col]\<rparr>) None deltas"
proof -
  have "merge_layout cfg sample_layout = merge_layout sample_config sample_layout"
    using assms(5) by (simp add: merge_layout_def sample_config_def)
  moreover have "col \<noteq> []" using assms(1) by auto
  ultimately show ?thesis
    using assms sample_located
    by (simp add: merge_request_ok_def sample_merge_target_def merge_base_def in_column_def sample_slot_length
        sample_column_table_def)
qed

lemma sample_view_deltas:
  "v_deltas sample_merge_view \<noteq> []" "concat (map file_records (v_deltas sample_merge_view)) = [sample_edge_record]"
  using sample_merge_files(2) by (simp_all add: sample_merge_view_def view_records_def)

lemma sample_config_request:
  "merge_request_ok sample_config sample_layout sample_merge_target sample_column_table None (v_deltas sample_merge_view)"
  using sample_request [of "replicate 20 0" sample_config "v_deltas sample_merge_view"] sample_merge_files(1) sample_view_deltas
  by (simp add: sample_config_def sample_column_table_def)

lemma sample_merge_io_ok: "merge_io_ok sample_merge_io"
  by (simp add: merge_io_ok_def sample_merge_io_def)

lemmas sample_merge_runs = merge_returns [OF sample_config_request sample_merge_io_ok]

theorem merge_succeeds_witness:
  "\<exists>m. MergePropertyDeltaColumn sample_config sample_layout sample_merge_io Map.empty sample_merge_target None
      (v_deltas sample_merge_view) 4 =
    (Map.empty(column_path sample_config sample_merge_target \<mapsto> mp_data m), Inr m) \<and> length (mp_data m) = 20"
  using merge_succeeds [OF sample_config_request sample_merge_io_ok, of Map.empty 4]
  by (auto simp: merge_base_def sample_column_table_def sample_merge_target_def)

theorem merge_preserves_reads_witness:
  "\<exists>fs m. MergePropertyDeltaColumn sample_config sample_layout sample_merge_io Map.empty sample_merge_target None
      (v_deltas sample_merge_view) 4 = (fs, Inr m) \<and>
    find_edge_in_lonely_SStableCache (merge_layout sample_config sample_layout)
      (Some (merged_view sample_merge_view 1 m 4)) sample_column_table 1 4 0 True 1
      \<lparr>k_lookups = 0, k_files_probed = 0, k_hits = 0, k_base_fallbacks = 0\<rparr> =
    find_edge_in_lonely_SStableCache (merge_layout sample_config sample_layout)
      (Some sample_merge_view) sample_column_table 1 4 0 True 1
      \<lparr>k_lookups = 0, k_files_probed = 0, k_hits = 0, k_base_fallbacks = 0\<rparr>"
proof -
  obtain fs m where run: "MergePropertyDeltaColumn sample_config sample_layout sample_merge_io Map.empty
      sample_merge_target None (v_deltas sample_merge_view) 4 = (fs, Inr m)"
    using sample_merge_runs [of Map.empty 4] by auto
  have table: "l_tables sample_config (t_base_file_id sample_merge_target) = Some sample_column_table"
    by (simp add: sample_config_def sample_merge_target_def)
  have facts: "commit_ordered (view_records sample_merge_view)"
    "length (BaseDataOr sample_merge_view
       (s_property_data sample_column_table ! unat (t_property_id sample_merge_target))) < 2 ^ 64"
    "0 < GetSubPropertyFixedLength (merge_layout sample_config sample_layout)
       (int (unat (t_property_id sample_merge_target)))"
    "\<forall>r \<in> set (view_records sample_merge_view). slot_fits (GetSubPropertyFixedLength
       (merge_layout sample_config sample_layout) (int (unat (t_property_id sample_merge_target)))) (r_value r)"
    by (simp_all add: sample_merge_target_def commit_ordered_def sample_merge_files BaseDataOr_def
        sample_column_table_def slot_fits_def sample_edge_record_def sample_slot_length)
      (simp add: sample_merge_view_def)
  have run': "MergePropertyDeltaColumn sample_config sample_layout sample_merge_io Map.empty sample_merge_target
      (v_merged_base sample_merge_view) (take 1 (v_deltas sample_merge_view)) 4 = (fs, Inr m)"
    using run by (simp add: sample_merge_view_def)
  show ?thesis
    using run merge_preserves_reads [OF table sample_column_ok sample_merge_files(1) facts run']
    by (auto simp: sample_merge_target_def)
qed

theorem merge_repeatable_witness:
  "\<exists>cfg' fs m again. MergePropertyDeltaColumn sample_config sample_layout sample_merge_io
      [column_path sample_config sample_merge_target \<mapsto> replicate 20 0] sample_merge_target None
      (v_deltas sample_merge_view) 4 = (fs, Inr m) \<and>
    MergePropertyDeltaColumn cfg' sample_layout sample_merge_io Map.empty sample_merge_target None
      (v_deltas sample_merge_view) 5 = (Map.empty(column_path cfg' sample_merge_target \<mapsto> mp_data again), Inr again) \<and>
    column_slot (merge_layout sample_config sample_layout) 0 (mp_data again) 0 =
    column_slot (merge_layout sample_config sample_layout) 0 (mp_data m) 0"
proof -
  let ?path = "column_path sample_config sample_merge_target"
  let ?tmp = "?path @ ''.merge.'' @ to_string (unat (4 :: u64)) @ ''.tmp''"
  have t: "l_tables sample_config (t_base_file_id sample_merge_target) = Some sample_column_table"
    by (simp add: sample_config_def sample_merge_target_def)
  have pid: "unat (t_property_id sample_merge_target) = 0" by (simp add: sample_merge_target_def)
  have col: "s_property_data sample_column_table = [replicate 20 0]" by (simp add: sample_column_table_def)
  obtain m where m: "MergePropertyDeltaColumn sample_config sample_layout sample_merge_io
      [?path \<mapsto> replicate 20 0] sample_merge_target None (v_deltas sample_merge_view) 4 =
      ([?path \<mapsto> mp_data m], Inr m)" "length (mp_data m) = 20"
    using sample_merge_runs [of "[?path \<mapsto> replicate 20 0]" 4] by (auto simp: merge_base_def col pid)
  define cfg' where "cfg' = sample_config\<lparr>l_tables := (l_tables sample_config)(t_base_file_id sample_merge_target \<mapsto>
      sample_column_table\<lparr>s_property_data := (s_property_data sample_column_table)
        [unat (t_property_id sample_merge_target) := mp_data m]\<rparr>)\<rparr>"
  have "merge_request_ok cfg' sample_layout sample_merge_target (sample_column_table\<lparr>s_property_data := [mp_data m]\<rparr>)
      None (v_deltas sample_merge_view)"
    using m(2) sample_merge_files(1) sample_view_deltas
    by (intro sample_request) (simp_all add: cfg'_def sample_config_def sample_merge_target_def col)
  from merge_returns [OF this sample_merge_io_ok, of Map.empty 5] obtain again
    where again: "MergePropertyDeltaColumn cfg' sample_layout sample_merge_io Map.empty sample_merge_target None
      (v_deltas sample_merge_view) 5 = (Map.empty(column_path cfg' sample_merge_target \<mapsto> mp_data again), Inr again)"
    by auto
  have "column_slot (merge_layout sample_config sample_layout) (int (unat (t_property_id sample_merge_target))) (mp_data again) 0 =
    column_slot (merge_layout sample_config sample_layout) (int (unat (t_property_id sample_merge_target))) (mp_data m) 0"
    using merge_repeatable [OF t sample_merge_files(1) _ _ _ m(1) _ again [unfolded cfg'_def] m(1), of 0]
    by (simp add: pid col in_column_def sample_slot_length)
  with m(1) again show ?thesis by (auto simp: pid)
qed

end
