(* ===== verification/DeltaManifest.thy ===== *)
theory DeltaManifest
  imports DeltaFile
begin

text \<open>
  The append-only commit log of published deltas (\<^verbatim>\<open>src/property_delta_manifest.cpp\<close>): record and
  payload images, the in-memory list of active entries, appending, and recovery with its
  treatment of a torn tail. The log is the list of bytes of the file \<^verbatim>\<open>MANIFEST\<close>, opened for
  appending; answers of \<^verbatim>\<open>pread\<close> are inputs like those of \<^verbatim>\<open>write\<close>.
\<close>

section \<open>Definitions\<close>

subsection \<open>Data\<close>

datatype manifest_error =
    InvalidManifestHeader | ManifestChecksumMismatch | EditSequenceNotIncreasing
  | InvalidAddPayload | InvalidRemovePayload | PayloadTooLong | NotABasename
  | InvalidRemoveName | CreateDirectoryFailed | ManifestIo io_error

record PropertyDeltaManifestEntry =
  e_file_name :: string
  e_metadata :: PropertyDeltaFileMetadata
  e_target_is_persistent :: bool

record ManifestDiskHeader =
  mh_magic :: bytes
  mh_version :: u32
  mh_type :: u8
  mh_reserved :: bytes
  mh_payload_bytes :: u32
  mh_edit_sequence :: u64
  mh_checksum :: u64

record ManifestAddPayload =
  ap_object_kind :: u8
  ap_target_is_persistent :: u8
  ap_reserved0 :: bytes
  ap_shard_id :: u32
  ap_property_id :: u32
  ap_base_file_id :: u32
  ap_base_generation :: u64
  ap_file_generation :: u64
  ap_record_count :: u64
  ap_file_bytes :: u64
  ap_min_commit_sequence :: u64
  ap_max_commit_sequence :: u64
  ap_payload_checksum :: u64
  ap_file_name_bytes :: u32

definition kManifestMagic :: bytes where "kManifestMagic = bytes_of ''RGMANIF3''"
definition kManifestVersion :: u32 where "kManifestVersion = 3"
definition kAddRecord :: u8 where "kAddRecord = 1"
definition kRemoveRecord :: u8 where "kRemoveRecord = 2"
definition manifest_header_size :: nat where "manifest_header_size = 36"
definition add_payload_size :: nat where "add_payload_size = 76"

definition encode_manifest_header :: "ManifestDiskHeader \<Rightarrow> bytes" where
  "encode_manifest_header h =
     mh_magic h @ le_bytes 4 (mh_version h) @ le_bytes 1 (mh_type h) @ mh_reserved h @
     le_bytes 4 (mh_payload_bytes h) @ le_bytes 8 (mh_edit_sequence h) @ le_bytes 8 (mh_checksum h)"

definition decode_manifest_header :: "bytes \<Rightarrow> ManifestDiskHeader" where
  "decode_manifest_header bs =
     \<lparr> mh_magic = slice 0 8 bs, mh_version = le_word (slice 8 4 bs), mh_type = le_word (slice 12 1 bs),
       mh_reserved = slice 13 3 bs, mh_payload_bytes = le_word (slice 16 4 bs),
       mh_edit_sequence = le_word (slice 20 8 bs), mh_checksum = le_word (slice 28 8 bs) \<rparr>"

definition encode_add_payload :: "ManifestAddPayload \<Rightarrow> bytes" where
  "encode_add_payload p =
     le_bytes 1 (ap_object_kind p) @ le_bytes 1 (ap_target_is_persistent p) @ ap_reserved0 p @
     le_bytes 4 (ap_shard_id p) @ le_bytes 4 (ap_property_id p) @ le_bytes 4 (ap_base_file_id p) @
     le_bytes 8 (ap_base_generation p) @ le_bytes 8 (ap_file_generation p) @
     le_bytes 8 (ap_record_count p) @ le_bytes 8 (ap_file_bytes p) @
     le_bytes 8 (ap_min_commit_sequence p) @ le_bytes 8 (ap_max_commit_sequence p) @
     le_bytes 8 (ap_payload_checksum p) @ le_bytes 4 (ap_file_name_bytes p)"

definition decode_add_payload :: "bytes \<Rightarrow> ManifestAddPayload" where
  "decode_add_payload bs =
     \<lparr> ap_object_kind = le_word (slice 0 1 bs), ap_target_is_persistent = le_word (slice 1 1 bs),
       ap_reserved0 = slice 2 2 bs, ap_shard_id = le_word (slice 4 4 bs),
       ap_property_id = le_word (slice 8 4 bs), ap_base_file_id = le_word (slice 12 4 bs),
       ap_base_generation = le_word (slice 16 8 bs), ap_file_generation = le_word (slice 24 8 bs),
       ap_record_count = le_word (slice 32 8 bs), ap_file_bytes = le_word (slice 40 8 bs),
       ap_min_commit_sequence = le_word (slice 48 8 bs),
       ap_max_commit_sequence = le_word (slice 56 8 bs),
       ap_payload_checksum = le_word (slice 64 8 bs), ap_file_name_bytes = le_word (slice 72 4 bs) \<rparr>"

definition RecordChecksum :: "ManifestDiskHeader \<Rightarrow> bytes \<Rightarrow> u64" where
  "RecordChecksum header payload =
     (let hash = ExtendChecksum fnv_offset (encode_manifest_header (header\<lparr>mh_checksum := 0\<rparr>))
      in if payload \<noteq> [] then ExtendChecksum hash payload else hash)"

subsection \<open>Names and payloads\<close>

text \<open>\<^verbatim>\<open>path::filename\<close>: what follows the last separator.\<close>

definition path_filename :: "string \<Rightarrow> string" where
  "path_filename n = rev (takeWhile (\<lambda>c. c \<noteq> CHR ''/'') (rev n))"

definition ValidFileName :: "string \<Rightarrow> bool" where
  "ValidFileName file_name \<longleftrightarrow>
     (if file_name = [] then False
      else hd file_name \<noteq> CHR ''/'' \<and> path_filename file_name = file_name \<and>
           file_name \<noteq> ''.'' \<and> file_name \<noteq> ''..'')"

definition EncodeAdd :: "PropertyDeltaManifestEntry \<Rightarrow> bytes" where
  "EncodeAdd entry =
     (let m = e_metadata entry; t = m_target m
      in encode_add_payload
           \<lparr> ap_object_kind = kind_byte (t_kind t),
             ap_target_is_persistent = (if e_target_is_persistent entry then 1 else 0),
             ap_reserved0 = replicate 2 0, ap_shard_id = t_shard_id t,
             ap_property_id = t_property_id t, ap_base_file_id = t_base_file_id t,
             ap_base_generation = t_base_generation t, ap_file_generation = m_file_generation m,
             ap_record_count = m_record_count m, ap_file_bytes = m_file_bytes m,
             ap_min_commit_sequence = m_min_commit_sequence m,
             ap_max_commit_sequence = m_max_commit_sequence m,
             ap_payload_checksum = m_payload_checksum m,
             ap_file_name_bytes = word_of_nat (length (e_file_name entry)) \<rparr> @
         bytes_of (e_file_name entry))"

definition DecodeAdd :: "bytes \<Rightarrow> PropertyDeltaManifestEntry option" where
  "DecodeAdd payload =
     (if length payload < add_payload_size then None
      else let fixed = decode_add_payload (slice 0 add_payload_size payload) in
        if \<not> IsValidObjectKind (ap_object_kind fixed) \<or> ap_target_is_persistent fixed > 1 \<or>
           unat (ap_file_name_bytes fixed) \<noteq> length payload - add_payload_size
        then None
        else let name = string_of (slice add_payload_size (unat (ap_file_name_bytes fixed)) payload) in
          if \<not> ValidFileName name then None
          else Some
            \<lparr> e_file_name = name,
              e_metadata =
                \<lparr> m_target = \<lparr> t_kind = kind_of_byte (ap_object_kind fixed),
                               t_shard_id = ap_shard_id fixed,
                               t_base_file_id = ap_base_file_id fixed,
                               t_base_generation = ap_base_generation fixed,
                               t_property_id = ap_property_id fixed \<rparr>,
                  m_file_generation = ap_file_generation fixed,
                  m_record_count = ap_record_count fixed, m_file_bytes = ap_file_bytes fixed,
                  m_min_commit_sequence = ap_min_commit_sequence fixed,
                  m_max_commit_sequence = ap_max_commit_sequence fixed,
                  m_payload_checksum = ap_payload_checksum fixed \<rparr>,
              e_target_is_persistent = (ap_target_is_persistent fixed \<noteq> 0) \<rparr>)"

definition EncodeRemove :: "string list \<Rightarrow> bytes" where
  "EncodeRemove file_names =
     le_bytes 4 (word_of_nat (length file_names) :: u32) @
     concat (map (\<lambda>n. le_bytes 4 (word_of_nat (length n) :: u32) @ bytes_of n) file_names)"

text \<open>\<^verbatim>\<open>ConsumePod\<close> of a 32-bit count at the cursor; the cursor is what is left of the payload.\<close>

definition ConsumePod :: "bytes \<Rightarrow> (u32 \<times> bytes) option" where
  "ConsumePod rest = (if 4 > length rest then None else Some (le_word (take 4 rest), drop 4 rest))"

primrec decode_names :: "nat \<Rightarrow> bytes \<Rightarrow> string list \<Rightarrow> string list option" where
  "decode_names 0 rest names = (if rest = [] then Some names else None)"
| "decode_names (Suc n) rest names =
     (case ConsumePod rest of None \<Rightarrow> None
      | Some (len, rest') \<Rightarrow>
          if unat len > length rest' then None
          else let name = string_of (take (unat len) rest') in
            if \<not> ValidFileName name then None
            else decode_names n (drop (unat len) rest') (names @ [name]))"

definition DecodeRemove :: "bytes \<Rightarrow> string list option" where
  "DecodeRemove payload =
     (case ConsumePod payload of None \<Rightarrow> None
      | Some (count, rest) \<Rightarrow> decode_names (unat count) rest [])"

fun ApplyAdd :: "PropertyDeltaManifestEntry list \<Rightarrow> PropertyDeltaManifestEntry \<Rightarrow>
    PropertyDeltaManifestEntry list" where
  "ApplyAdd [] entry = [entry]"
| "ApplyAdd (item # items) entry =
     (if e_file_name item = e_file_name entry then entry # items else item # ApplyAdd items entry)"

definition ApplyRemove :: "PropertyDeltaManifestEntry list \<Rightarrow> string list \<Rightarrow>
    PropertyDeltaManifestEntry list" where
  "ApplyRemove active file_names = filter (\<lambda>entry. e_file_name entry \<notin> set file_names) active"

subsection \<open>Appending\<close>

record PropertyDeltaManifest =
  mf_log :: bytes
  mf_durability :: DeltaDurability
  mf_next_edit_sequence :: u64
  mf_active_entries :: "PropertyDeltaManifestEntry list"

record append_io =
  io_append_writes :: "write_response list"
  io_append_sync :: bool

definition manifest_record :: "u8 \<Rightarrow> bytes \<Rightarrow> u64 \<Rightarrow> bytes" where
  "manifest_record type payload edit_sequence =
     (let header = \<lparr> mh_magic = kManifestMagic, mh_version = kManifestVersion, mh_type = type,
                     mh_reserved = replicate 3 0, mh_payload_bytes = word_of_nat (length payload),
                     mh_edit_sequence = edit_sequence, mh_checksum = 0 \<rparr>
      in encode_manifest_header (header\<lparr>mh_checksum := RecordChecksum header payload\<rparr>) @ payload)"

text \<open>\<open>None\<close> when a write never returns; otherwise the manifest and the error, if any.\<close>

definition AppendRecord ::
  "append_io \<Rightarrow> PropertyDeltaManifest \<Rightarrow> u8 \<Rightarrow> bytes \<Rightarrow>
   (PropertyDeltaManifest \<times> manifest_error option) option" where
  "AppendRecord io m type payload =
     (if length payload > 2 ^ 32 - 1 then Some (m, Some PayloadTooLong)
      else case WriteAll (io_append_writes io)
                  (manifest_record type payload (mf_next_edit_sequence m)) (mf_log m) of
        None \<Rightarrow> None
      | Some (_, log, Some e) \<Rightarrow> Some (m\<lparr>mf_log := log\<rparr>, Some (ManifestIo e))
      | Some (_, log, None) \<Rightarrow>
          if mf_durability m = kProcessCrashSafe \<and> \<not> io_append_sync io
          then Some (m\<lparr>mf_log := log\<rparr>, Some (ManifestIo FdatasyncFailed))
          else Some (m\<lparr>mf_log := log, mf_next_edit_sequence := mf_next_edit_sequence m + 1\<rparr>, None))"

definition AppendAdd ::
  "append_io \<Rightarrow> PropertyDeltaManifest \<Rightarrow> PropertyDeltaManifestEntry \<Rightarrow>
   (PropertyDeltaManifest \<times> manifest_error option) option" where
  "AppendAdd io m entry =
     (if \<not> ValidFileName (e_file_name entry) then Some (m, Some NotABasename)
      else case AppendRecord io m kAddRecord (EncodeAdd entry) of
        None \<Rightarrow> None
      | Some (m', Some e) \<Rightarrow> Some (m', Some e)
      | Some (m', None) \<Rightarrow>
          Some (m'\<lparr>mf_active_entries := ApplyAdd (mf_active_entries m') entry\<rparr>, None))"

definition AppendRemove ::
  "append_io \<Rightarrow> PropertyDeltaManifest \<Rightarrow> string list \<Rightarrow>
   (PropertyDeltaManifest \<times> manifest_error option) option" where
  "AppendRemove io m file_names =
     (if file_names = [] then Some (m, None)
      else if length file_names > 2 ^ 32 - 1 \<or>
        list_ex (\<lambda>n. \<not> ValidFileName n \<or> length n > 2 ^ 32 - 1) file_names
      then Some (m, Some InvalidRemoveName)
      else case AppendRecord io m kRemoveRecord (EncodeRemove file_names) of
        None \<Rightarrow> None
      | Some (m', Some e) \<Rightarrow> Some (m', Some e)
      | Some (m', None) \<Rightarrow>
          Some (m'\<lparr>mf_active_entries := ApplyRemove (mf_active_entries m') file_names\<rparr>, None))"

subsection \<open>Recovery\<close>

datatype read_response = ReadCount nat | ReadEINTR | ReadError

text \<open>\<^verbatim>\<open>ReadAllAt\<close>: the responses left and the bytes, or \<open>None\<close> for the bytes when it returns false.\<close>

fun ReadAllAt ::
  "read_response list \<Rightarrow> bytes \<Rightarrow> nat \<Rightarrow> nat \<Rightarrow> (read_response list \<times> bytes option) option" where
  "ReadAllAt responses log off 0 = Some (responses, Some [])"
| "ReadAllAt [] log off (Suc n) = None"
| "ReadAllAt (ReadEINTR # responses) log off (Suc n) = ReadAllAt responses log off (Suc n)"
| "ReadAllAt (ReadError # responses) log off (Suc n) = Some (responses, None)"
| "ReadAllAt (ReadCount k # responses) log off (Suc n) =
     (let count = min k (min (Suc n) (length log - off)) in
      if count = 0 then Some (responses, None)
      else case ReadAllAt responses log (off + count) (Suc n - count) of
             None \<Rightarrow> None
           | Some (rest, None) \<Rightarrow> Some (rest, None)
           | Some (rest, Some bs) \<Rightarrow> Some (rest, Some (slice off count log @ bs)))"

record recover_io =
  io_create_directory :: bool
  io_open_log :: bool
  io_fstat_log :: bool
  io_reads :: "read_response list"
  io_truncate :: bool
  io_sync_repaired :: bool

text \<open>How the scan of the log ends: an error, or the end of the valid prefix (by reaching the end
  of the file or by a \<^verbatim>\<open>break\<close>) with the last sequence and the entries.\<close>

datatype recover_step =
    RecoverStop "manifest_error + (nat \<times> u64 \<times> PropertyDeltaManifestEntry list)"
  | RecoverNext "read_response list" nat u64 "PropertyDeltaManifestEntry list"

definition apply_payload :: "u8 \<Rightarrow> bytes \<Rightarrow> PropertyDeltaManifestEntry list \<Rightarrow>
    manifest_error + PropertyDeltaManifestEntry list" where
  "apply_payload type payload active =
     (if type = kAddRecord
      then case DecodeAdd payload of None \<Rightarrow> Inl InvalidAddPayload
           | Some entry \<Rightarrow> Inr (ApplyAdd active entry)
      else case DecodeRemove payload of None \<Rightarrow> Inl InvalidRemovePayload
           | Some names \<Rightarrow> Inr (ApplyRemove active names))"

text \<open>One iteration of the loop, at an offset inside the file.\<close>

definition recover_iteration ::
  "read_response list \<Rightarrow> bytes \<Rightarrow> nat \<Rightarrow> u64 \<Rightarrow> PropertyDeltaManifestEntry list \<Rightarrow> recover_step option" where
  "recover_iteration reads log off last_sequence active =
     (let stop = Some (RecoverStop (Inr (off, last_sequence, active))) in
      if length log - off < manifest_header_size then stop
      else case ReadAllAt reads log off manifest_header_size of
        None \<Rightarrow> None
      | Some (reads1, None) \<Rightarrow> stop
      | Some (reads1, Some header_bytes) \<Rightarrow>
          let header = decode_manifest_header header_bytes;
              size = manifest_header_size + unat (mh_payload_bytes header)
          in if mh_magic header \<noteq> kManifestMagic \<or> mh_version header \<noteq> kManifestVersion \<or>
                (mh_type header \<noteq> kAddRecord \<and> mh_type header \<noteq> kRemoveRecord) \<or>
                mh_payload_bytes header > 2 ^ 30
             then Some (RecoverStop (Inl InvalidManifestHeader))
             else if size > length log - off then stop
             else case ReadAllAt reads1 log (off + manifest_header_size) (unat (mh_payload_bytes header)) of
               None \<Rightarrow> None
             | Some (reads2, None) \<Rightarrow> stop
             | Some (reads2, Some payload) \<Rightarrow>
                 if RecordChecksum header payload \<noteq> mh_checksum header
                 then if off + size = length log then stop
                      else Some (RecoverStop (Inl ManifestChecksumMismatch))
                 else if mh_edit_sequence header \<le> last_sequence
                 then Some (RecoverStop (Inl EditSequenceNotIncreasing))
                 else case apply_payload (mh_type header) payload active of
                        Inl e \<Rightarrow> Some (RecoverStop (Inl e))
                      | Inr active' \<Rightarrow>
                          Some (RecoverNext reads2 (off + size) (mh_edit_sequence header) active'))"

text \<open>Every iteration that goes on has moved the offset, so the scan ends.\<close>

lemma recover_iteration_progress:
  "recover_iteration reads log off last_sequence active = Some (RecoverNext reads' off' last' active') \<Longrightarrow>
   off < off'"
  by (auto simp: recover_iteration_def Let_def manifest_header_size_def
      split: if_splits option.splits sum.splits prod.splits)

function recover_loop ::
  "read_response list \<Rightarrow> bytes \<Rightarrow> nat \<Rightarrow> u64 \<Rightarrow> PropertyDeltaManifestEntry list \<Rightarrow>
   (manifest_error + (nat \<times> u64 \<times> PropertyDeltaManifestEntry list)) option" where
  "recover_loop reads log off last_sequence active =
     (if off < length log
      then case recover_iteration reads log off last_sequence active of
             None \<Rightarrow> None
           | Some (RecoverStop r) \<Rightarrow> Some r
           | Some (RecoverNext reads' off' last' active') \<Rightarrow>
               recover_loop reads' log off' last' active'
      else Some (Inr (off, last_sequence, active)))"
  by pat_completeness auto
termination
  by (relation "measure (\<lambda>(reads, log, off, last, active). length log - off)")
    (auto dest: recover_iteration_progress)

declare recover_loop.simps [simp del]

definition OpenAndRecover ::
  "recover_io \<Rightarrow> DeltaDurability \<Rightarrow> bytes \<Rightarrow> (bytes \<times> (manifest_error + PropertyDeltaManifest)) option" where
  "OpenAndRecover io durability log =
     (if \<not> io_create_directory io then Some (log, Inl CreateDirectoryFailed)
      else if \<not> io_open_log io then Some (log, Inl (ManifestIo OpenFailed))
      else if \<not> io_fstat_log io then Some (log, Inl (ManifestIo FstatFailed))
      else case recover_loop (io_reads io) log 0 0 [] of
        None \<Rightarrow> None
      | Some (Inl e) \<Rightarrow> Some (log, Inl e)
      | Some (Inr (valid_end, last_sequence, active)) \<Rightarrow>
          let m = \<lparr> mf_log = take valid_end log, mf_durability = durability,
                    mf_next_edit_sequence = last_sequence + 1, mf_active_entries = active \<rparr>
          in if valid_end \<noteq> length log then
               (if \<not> io_truncate io then Some (log, Inl (ManifestIo TruncateFailed))
                else if durability = kProcessCrashSafe \<and> \<not> io_sync_repaired io
                then Some (take valid_end log, Inl (ManifestIo FdatasyncFailed))
                else Some (take valid_end log, Inr m))
             else Some (log, Inr m))"

definition ActiveEntries :: "PropertyDeltaManifest \<Rightarrow> PropertyDeltaManifestEntry list" where
  "ActiveEntries m = mf_active_entries m"

section \<open>Lemmas\<close>

subsection \<open>Images\<close>

lemma length_encode_manifest_header:
  "length (mh_magic h) = 8 \<Longrightarrow> length (mh_reserved h) = 3 \<Longrightarrow>
   length (encode_manifest_header h) = manifest_header_size"
  by (simp add: encode_manifest_header_def manifest_header_size_def)

lemma decode_encode_manifest_header:
  assumes "length (mh_magic h) = 8" "length (mh_reserved h) = 3"
  shows "decode_manifest_header (encode_manifest_header h) = h"
  by (rule ManifestDiskHeader.equality)
    (simp_all add: decode_manifest_header_def encode_manifest_header_def layout assms)

lemma length_encode_add_payload:
  "length (ap_reserved0 p) = 2 \<Longrightarrow> length (encode_add_payload p) = add_payload_size"
  by (simp add: encode_add_payload_def add_payload_size_def)

lemma decode_encode_add_payload:
  assumes "length (ap_reserved0 p) = 2"
  shows "decode_add_payload (encode_add_payload p) = p"
  by (rule ManifestAddPayload.equality)
    (simp_all add: decode_add_payload_def encode_add_payload_def layout assms)

lemma decode_encode_add:
  assumes "ValidFileName (e_file_name entry)" "length (e_file_name entry) < 2 ^ 32"
  shows "DecodeAdd (EncodeAdd entry) = Some entry"
proof -
  have n: "unat (word_of_nat (length (e_file_name entry)) :: u32) = length (e_file_name entry)"
    using assms(2) by (simp add: unat_of_nat)
  show ?thesis
    using assms(1)
    by (simp add: DecodeAdd_def EncodeAdd_def Let_def length_encode_add_payload
        decode_encode_add_payload n slice_skip)
qed

lemma length_EncodeAdd: "length (EncodeAdd entry) = add_payload_size + length (e_file_name entry)"
  by (simp add: EncodeAdd_def Let_def length_encode_add_payload)

lemma ConsumePod_image [simp]: "ConsumePod (le_bytes 4 w @ rest) = Some (w, rest)"
  by (simp add: ConsumePod_def)

lemma decode_names_image:
  assumes "list_all (\<lambda>n. ValidFileName n \<and> length n < 2 ^ 32) names"
  shows "decode_names (length names)
      (concat (map (\<lambda>n. le_bytes 4 (word_of_nat (length n) :: u32) @ bytes_of n) names)) acc =
    Some (acc @ names)"
  using assms
proof (induction names arbitrary: acc)
  case (Cons n names)
  then have "unat (word_of_nat (length n) :: u32) = length n" by (simp add: unat_of_nat)
  with Cons show ?case by (simp add: Let_def)
qed simp

lemma decode_encode_remove:
  assumes "list_all (\<lambda>n. ValidFileName n \<and> length n < 2 ^ 32) names" "length names < 2 ^ 32"
  shows "DecodeRemove (EncodeRemove names) = Some names"
proof -
  have "unat (word_of_nat (length names) :: u32) = length names"
    using assms(2) by (simp add: unat_of_nat)
  with decode_names_image [OF assms(1), of "[]"] show ?thesis
    by (simp add: DecodeRemove_def EncodeRemove_def)
qed

subsection \<open>Reading\<close>

definition reads_ok :: "read_response list \<Rightarrow> bool" where
  "reads_ok responses =
     list_all (\<lambda>r. case r of ReadCount n \<Rightarrow> 0 < n | ReadEINTR \<Rightarrow> True | ReadError \<Rightarrow> False) responses"

definition read_budget :: "read_response list \<Rightarrow> nat" where
  "read_budget responses = length (filter (\<lambda>r. case r of ReadCount n \<Rightarrow> True | _ \<Rightarrow> False) responses)"

lemma ReadAllAt_succeeds:
  assumes "reads_ok responses" "n \<le> read_budget responses" "off + n \<le> length log"
  shows "\<exists>rest. ReadAllAt responses log off n = Some (rest, Some (slice off n log)) \<and> reads_ok rest \<and>
           read_budget responses \<le> read_budget rest + n"
  using assms
proof (induction responses log off n rule: ReadAllAt.induct)
  case (3 responses log off n)
  then show ?case by (auto simp: reads_ok_def read_budget_def)
next
  case (5 k responses log off n)
  define c where "c = min k (min (Suc n) (length log - off))"
  have k: "0 < k" and ok: "reads_ok responses" using "5.prems" by (auto simp: reads_ok_def)
  have c: "0 < c" "c \<le> Suc n" "off + c + (Suc n - c) \<le> length log"
    using k "5.prems" by (auto simp: c_def)
  have "Suc n - c \<le> read_budget responses" using "5.prems" c by (simp add: read_budget_def)
  from "5.IH" [OF c_def _ ok this c(3)] c(1) obtain rest where
    rest: "ReadAllAt responses log (off + c) (Suc n - c) =
        Some (rest, Some (slice (off + c) (Suc n - c) log))" "reads_ok rest"
      "read_budget responses \<le> read_budget rest + (Suc n - c)" by auto
  have "slice off c log @ slice (off + c) (Suc n - c) log = slice off (Suc n) log"
    using c(2) by (simp add: slice_join)
  moreover have "read_budget (ReadCount k # responses) \<le> read_budget rest + Suc n"
    using rest(3) c by (simp add: read_budget_def)
  ultimately show ?case using rest c(1) by (simp add: c_def [symmetric])
qed (auto simp: reads_ok_def read_budget_def slice_def)

subsection \<open>Logs of edits\<close>

text \<open>The abstract log: a sequence of edits, and what it means to apply one.\<close>

datatype edit = EditAdd PropertyDeltaManifestEntry | EditRemove "string list"

fun edit_type :: "edit \<Rightarrow> u8" where
  "edit_type (EditAdd e) = kAddRecord"
| "edit_type (EditRemove ns) = kRemoveRecord"

fun edit_payload :: "edit \<Rightarrow> bytes" where
  "edit_payload (EditAdd e) = EncodeAdd e"
| "edit_payload (EditRemove ns) = EncodeRemove ns"

fun apply_edit :: "PropertyDeltaManifestEntry list \<Rightarrow> edit \<Rightarrow> PropertyDeltaManifestEntry list" where
  "apply_edit active (EditAdd e) = ApplyAdd active e"
| "apply_edit active (EditRemove ns) = ApplyRemove active ns"

text \<open>An edit the readers accept: basenames, and a payload of at most \<open>2 ^ 30\<close> bytes.\<close>

fun edit_names :: "edit \<Rightarrow> string list" where
  "edit_names (EditAdd e) = [e_file_name e]"
| "edit_names (EditRemove ns) = ns"

definition edit_ok :: "edit \<Rightarrow> bool" where
  "edit_ok e \<longleftrightarrow> list_all ValidFileName (edit_names e) \<and> length (edit_payload e) \<le> 2 ^ 30"

definition encode_edit :: "u64 \<Rightarrow> edit \<Rightarrow> bytes" where
  "encode_edit n e = manifest_record (edit_type e) (edit_payload e) n"

primrec log_of :: "u64 \<Rightarrow> edit list \<Rightarrow> bytes" where
  "log_of n [] = []"
| "log_of n (e # es) = encode_edit n e @ log_of (n + 1) es"

lemma log_of_append: "log_of n (es @ fs) = log_of n es @ log_of (n + word_of_nat (length es)) fs"
  by (induction es arbitrary: n) (simp_all add: algebra_simps)

lemma length_EncodeRemove_ge:
  "4 * length ns \<le> length (EncodeRemove ns)" "n \<in> set ns \<Longrightarrow> length n \<le> length (EncodeRemove ns)"
  by (induction ns) (auto simp: EncodeRemove_def)

lemma edit_ok_apply:
  assumes "edit_ok e"
  shows "apply_payload (edit_type e) (edit_payload e) active = Inr (apply_edit active e)"
proof (cases e)
  case (EditAdd entry)
  then have "ValidFileName (e_file_name entry)" "length (e_file_name entry) < 2 ^ 32"
    using assms by (simp_all add: edit_ok_def length_EncodeAdd)
  with EditAdd show ?thesis by (simp add: apply_payload_def decode_encode_add)
next
  case (EditRemove ns)
  then have ok: "list_all ValidFileName ns" "length (EncodeRemove ns) \<le> 2 ^ 30"
    using assms by (simp_all add: edit_ok_def)
  then have "list_all (\<lambda>n. ValidFileName n \<and> length n < 2 ^ 32) ns" "length ns < 2 ^ 32"
    using length_EncodeRemove_ge(1) [of ns] length_EncodeRemove_ge(2) [of _ ns]
    by (force simp: list_all_iff)+
  with EditRemove show ?thesis
    by (simp add: apply_payload_def decode_encode_remove kAddRecord_def kRemoveRecord_def)
qed

text \<open>The header of a written record.\<close>

definition record_header :: "u8 \<Rightarrow> bytes \<Rightarrow> u64 \<Rightarrow> ManifestDiskHeader" where
  "record_header type payload n =
     (let header = \<lparr> mh_magic = kManifestMagic, mh_version = kManifestVersion, mh_type = type,
                     mh_reserved = replicate 3 0, mh_payload_bytes = word_of_nat (length payload),
                     mh_edit_sequence = n, mh_checksum = 0 \<rparr>
      in header\<lparr>mh_checksum := RecordChecksum header payload\<rparr>)"

lemma record_header_fields [simp]:
  "mh_magic (record_header type payload n) = kManifestMagic"
  "mh_version (record_header type payload n) = kManifestVersion"
  "mh_type (record_header type payload n) = type"
  "mh_reserved (record_header type payload n) = replicate 3 0"
  "mh_payload_bytes (record_header type payload n) = word_of_nat (length payload)"
  "mh_edit_sequence (record_header type payload n) = n"
  "RecordChecksum (record_header type payload n) payload = mh_checksum (record_header type payload n)"
  by (simp_all add: record_header_def Let_def RecordChecksum_def)

lemma length_kManifestMagic [simp]: "length kManifestMagic = 8"
  by (simp add: kManifestMagic_def)

lemma manifest_record_split:
  "manifest_record type payload n = encode_manifest_header (record_header type payload n) @ payload"
  by (simp add: manifest_record_def record_header_def Let_def)

lemma length_record_header [simp]:
  "length (encode_manifest_header (record_header type payload n)) = manifest_header_size"
  by (simp add: length_encode_manifest_header)

lemma length_manifest_record [simp]:
  "length (manifest_record type payload n) = manifest_header_size + length payload"
  by (simp add: manifest_record_split)

lemma decode_record_header [simp]:
  "decode_manifest_header (encode_manifest_header (record_header type payload n)) =
     record_header type payload n"
  by (simp add: decode_encode_manifest_header)

lemma payload_bytes_fit:
  "length payload < 2 ^ 32 \<Longrightarrow> unat (word_of_nat (length payload) :: u32) = length payload"
  by (simp add: unat_of_nat)

lemma payload_limit:
  assumes "length payload < 2 ^ 32"
  shows "(word_of_nat (length payload) :: u32) > 2 ^ 30 \<longleftrightarrow> length payload > 2 ^ 30"
  using payload_bytes_fit [OF assms] by (simp add: word_less_nat_alt)

text \<open>A complete record at the offset is applied, unless its sequence does not increase.\<close>

lemma recover_iteration_record:
  assumes log: "log = pre @ encode_edit n e @ post" and e: "edit_ok e"
    and reads: "reads_ok reads" "length log - length pre \<le> read_budget reads"
  obtains reads' where "reads_ok reads'"
    "length log - (length pre + length (encode_edit n e)) \<le> read_budget reads'"
    "recover_iteration reads log (length pre) ls active =
      Some (if n \<le> ls then RecoverStop (Inl EditSequenceNotIncreasing)
            else RecoverNext reads' (length pre + length (encode_edit n e)) n (apply_edit active e))"
proof -
  let ?p = "edit_payload e" and ?H = "manifest_header_size"
  let ?h = "record_header (edit_type e) ?p n"
  have plen: "length ?p \<le> 2 ^ 30" using e by (simp add: edit_ok_def)
  then have pb: "unat (word_of_nat (length ?p) :: u32) = length ?p" by (simp add: unat_of_nat)
  have lim: "\<not> (word_of_nat (length ?p) :: u32) > 2 ^ 30"
    using plen payload_limit [of ?p] by simp
  have len: "length log = length pre + ?H + length ?p + length post"
    by (simp add: log encode_edit_def)
  have hd: "slice (length pre) ?H log = encode_manifest_header ?h"
    by (simp add: log encode_edit_def manifest_record_split slice_skip)
  have pl: "slice (length pre + ?H) (length ?p) log = ?p"
    by (simp add: log encode_edit_def manifest_record_split slice_skip)
  obtain r1 where r1: "ReadAllAt reads log (length pre) ?H = Some (r1, Some (encode_manifest_header ?h))"
    "reads_ok r1" "read_budget reads \<le> read_budget r1 + ?H"
    using ReadAllAt_succeeds [OF reads(1), of ?H "length pre" log] reads(2) len hd by auto
  obtain r2 where r2: "ReadAllAt r1 log (length pre + ?H) (length ?p) = Some (r2, Some ?p)"
    "reads_ok r2" "read_budget r1 \<le> read_budget r2 + length ?p"
    using ReadAllAt_succeeds [OF r1(2), of "length ?p" "length pre + ?H" log] r1(3) reads(2) len pl by auto
  have ty: "\<not> (edit_type e \<noteq> kAddRecord \<and> edit_type e \<noteq> kRemoveRecord)" by (cases e) simp_all
  have "recover_iteration reads log (length pre) ls active =
      Some (if n \<le> ls then RecoverStop (Inl EditSequenceNotIncreasing)
            else RecoverNext r2 (length pre + length (encode_edit n e)) n (apply_edit active e))"
    using r1(1) r2(1) lim ty edit_ok_apply [OF e]
    by (simp add: recover_iteration_def Let_def len pb encode_edit_def)
  moreover have "length log - (length pre + length (encode_edit n e)) \<le> read_budget r2"
    using reads(2) r1(3) r2(3) len by (simp add: encode_edit_def)
  ultimately show ?thesis using r2(2) that by blast
qed

lemma encode_edit_nonempty: "0 < length (encode_edit n e)"
  by (simp add: encode_edit_def manifest_header_size_def)

lemma recover_record:
  assumes "log = pre @ encode_edit n e @ post" "edit_ok e" "ls < n"
    and "reads_ok reads" "length log - length pre \<le> read_budget reads"
  shows "\<exists>reads'. recover_loop reads log (length pre) ls active =
      recover_loop reads' log (length pre + length (encode_edit n e)) n (apply_edit active e) \<and>
      reads_ok reads' \<and> length log - (length pre + length (encode_edit n e)) \<le> read_budget reads'"
proof -
  obtain r where r: "reads_ok r" "length log - (length pre + length (encode_edit n e)) \<le> read_budget r"
    "recover_iteration reads log (length pre) ls active =
      Some (if n \<le> ls then RecoverStop (Inl EditSequenceNotIncreasing)
            else RecoverNext r (length pre + length (encode_edit n e)) n (apply_edit active e))"
    using recover_iteration_record [OF assms(1,2,4,5)] by blast
  moreover have "length pre < length log" using assms(1) encode_edit_nonempty [of n e] by simp
  ultimately show ?thesis
    using assms(3) by (intro exI [of _ r]) (simp add: recover_loop.simps [of reads] not_le [symmetric])
qed

lemma recover_stale:
  assumes "log = pre @ encode_edit n e @ post" "edit_ok e" "n \<le> ls"
    and "reads_ok reads" "length log - length pre \<le> read_budget reads"
  shows "recover_loop reads log (length pre) ls active = Some (Inl EditSequenceNotIncreasing)"
proof -
  obtain r where "recover_iteration reads log (length pre) ls active =
      Some (if n \<le> ls then RecoverStop (Inl EditSequenceNotIncreasing)
            else RecoverNext r (length pre + length (encode_edit n e)) n (apply_edit active e))"
    using recover_iteration_record [OF assms(1,2,4,5)] by blast
  moreover have "length pre < length log" using assms(1) encode_edit_nonempty [of n e] by simp
  ultimately show ?thesis using assms(3) by (simp add: recover_loop.simps [of reads])
qed

lemma recover_edits:
  assumes "log = pre @ log_of n es @ tail" "list_all edit_ok es" "ls < n"
    "unat n + length es \<le> 2 ^ 64" "reads_ok reads" "length log - length pre \<le> read_budget reads"
  shows "\<exists>reads'. recover_loop reads log (length pre) ls active =
      recover_loop reads' log (length pre + length (log_of n es))
        (if es = [] then ls else n + word_of_nat (length es) - 1) (foldl apply_edit active es) \<and>
      reads_ok reads' \<and> length log - (length pre + length (log_of n es)) \<le> read_budget reads'"
  using assms
proof (induction es arbitrary: pre n ls reads active)
  case (Cons e es)
  obtain r1 where r1: "recover_loop reads log (length pre) ls active =
      recover_loop r1 log (length pre + length (encode_edit n e)) n (apply_edit active e)"
    "reads_ok r1" "length log - (length pre + length (encode_edit n e)) \<le> read_budget r1"
    using recover_record [of log pre n e "log_of (n + 1) es @ tail" ls reads active] Cons.prems by auto
  show ?case
  proof (cases "es = []")
    case True
    with r1 show ?thesis by auto
  next
    case False
    then have "unat n + 1 < 2 ^ 64" using Cons.prems(4) by (cases es) auto
    then have n1: "unat (n + 1) = unat n + 1" by (simp add: unat_add_guard)
    then have "n < n + 1" by (simp add: word_less_nat_alt)
    then obtain r2 where "recover_loop r1 log (length (pre @ encode_edit n e)) n (apply_edit active e) =
        recover_loop r2 log (length (pre @ encode_edit n e) + length (log_of (n + 1) es))
          (if es = [] then n else n + 1 + word_of_nat (length es) - 1) (foldl apply_edit (apply_edit active e) es)"
      "reads_ok r2"
      "length log - (length (pre @ encode_edit n e) + length (log_of (n + 1) es)) \<le> read_budget r2"
      using Cons.IH [of "pre @ encode_edit n e" "n + 1" n r1 "apply_edit active e"] Cons.prems r1 n1 by auto
    with r1(1) False show ?thesis by (auto simp: algebra_simps)
  qed
qed auto

lemma recover_torn:
  assumes "log = pre @ take k (encode_edit n e)" "k < length (encode_edit n e)" "edit_ok e"
    "reads_ok reads" "length log - length pre \<le> read_budget reads"
  shows "recover_loop reads log (length pre) ls active = Some (Inr (length pre, ls, active))"
proof -
  let ?p = "edit_payload e" and ?H = "manifest_header_size"
  let ?h = "record_header (edit_type e) ?p n"
  have len: "length log = length pre + k" using assms(1,2) by simp
  have "recover_iteration reads log (length pre) ls active =
      Some (RecoverStop (Inr (length pre, ls, active)))"
  proof (cases "k < ?H")
    case True
    then show ?thesis by (simp add: recover_iteration_def len)
  next
    case False
    have plen: "length ?p \<le> 2 ^ 30" using assms(3) by (simp add: edit_ok_def)
    then have pb: "unat (word_of_nat (length ?p) :: u32) = length ?p" by (simp add: unat_of_nat)
    have lim: "\<not> (word_of_nat (length ?p) :: u32) > 2 ^ 30"
      using plen payload_limit [of ?p] by simp
    have hd: "slice (length pre) ?H log = encode_manifest_header ?h"
      using False assms(1) by (simp add: encode_edit_def manifest_record_split slice_skip)
    obtain r1 where r1: "ReadAllAt reads log (length pre) ?H = Some (r1, Some (encode_manifest_header ?h))"
      using ReadAllAt_succeeds [OF assms(4), of ?H "length pre" log] assms(5) len False hd by auto
    have ty: "\<not> (edit_type e \<noteq> kAddRecord \<and> edit_type e \<noteq> kRemoveRecord)" by (cases e) simp_all
    have "k < ?H + length ?p" using assms(2) by (simp add: encode_edit_def)
    with r1 lim ty False show ?thesis
      by (simp add: recover_iteration_def Let_def len pb)
  qed
  then show ?thesis by (simp add: recover_loop.simps [of reads])
qed

subsection \<open>The manifest invariant\<close>

definition manifest_inv :: "PropertyDeltaManifest \<Rightarrow> edit list \<Rightarrow> bool" where
  "manifest_inv m es \<longleftrightarrow> list_all edit_ok es \<and> length es + 1 < 2 ^ 64 \<and> mf_log m = log_of 1 es \<and>
     mf_active_entries m = foldl apply_edit [] es \<and>
     mf_next_edit_sequence m = 1 + word_of_nat (length es)"

definition recover_io_ok :: "recover_io \<Rightarrow> nat \<Rightarrow> bool" where
  "recover_io_ok io n \<longleftrightarrow> io_create_directory io \<and> io_open_log io \<and> io_fstat_log io \<and>
     reads_ok (io_reads io) \<and> n \<le> read_budget (io_reads io) \<and> io_truncate io \<and> io_sync_repaired io"

text \<open>Recovery of a log followed by a torn record gives the state before that record.\<close>

lemma recover_manifest:
  assumes inv: "manifest_inv m es" and "edit_ok e" "k < length (encode_edit (mf_next_edit_sequence m) e)"
    and io: "recover_io_ok io (length (mf_log m) + k)"
  shows "OpenAndRecover io dur (mf_log m @ take k (encode_edit (mf_next_edit_sequence m) e)) =
    Some (mf_log m, Inr (m\<lparr>mf_durability := dur\<rparr>))"
proof -
  let ?torn = "take k (encode_edit (mf_next_edit_sequence m) e)"
  let ?log = "mf_log m @ ?torn"
  let ?ls = "if es = [] then 0 else 1 + word_of_nat (length es) - 1 :: u64"
  have i: "list_all edit_ok es" "length es + 1 < 2 ^ 64" "mf_log m = log_of 1 es"
    "mf_active_entries m = foldl apply_edit [] es" "mf_next_edit_sequence m = 1 + word_of_nat (length es)"
    using inv by (simp_all add: manifest_inv_def)
  have r: "reads_ok (io_reads io)" "length ?log \<le> read_budget (io_reads io)"
    using io assms(3) by (simp_all add: recover_io_ok_def)
  obtain r1 where r1: "recover_loop (io_reads io) ?log 0 0 [] =
      recover_loop r1 ?log (length (mf_log m)) ?ls (mf_active_entries m)"
    "reads_ok r1" "length ?log - length (mf_log m) \<le> read_budget r1"
    using recover_edits [of ?log "[]" 1 es ?torn 0 "io_reads io" "[]"] i r by auto
  have "recover_loop r1 ?log (length (mf_log m)) ?ls (mf_active_entries m) =
      Some (Inr (length (mf_log m), ?ls, mf_active_entries m))"
    by (rule recover_torn [OF refl assms(3,2)]) (use r1 in simp_all)
  moreover have "?ls + 1 = mf_next_edit_sequence m" using i(5) by simp
  ultimately show ?thesis
    using r1(1) io by (simp add: OpenAndRecover_def recover_io_ok_def Let_def)
qed

lemma AppendRecord_edit:
  assumes "AppendRecord io m (edit_type e) (edit_payload e) = Some (m', None)"
  shows "m' = m\<lparr>mf_log := mf_log m @ encode_edit (mf_next_edit_sequence m) e,
                mf_next_edit_sequence := mf_next_edit_sequence m + 1\<rparr>"
  using assms WriteAll_result
  by (fastforce simp: AppendRecord_def encode_edit_def split: if_splits option.splits prod.splits)

lemma AppendRecord_sync_failed:
  assumes "AppendRecord io m (edit_type e) (edit_payload e) = Some (m', Some (ManifestIo FdatasyncFailed))"
  shows "mf_log m' = mf_log m @ encode_edit (mf_next_edit_sequence m) e \<and>
    mf_next_edit_sequence m' = mf_next_edit_sequence m"
proof -
  have no: "WriteAll w d l \<noteq> Some (r, l', Some FdatasyncFailed)" for w d l r l'
    by (induction w d l rule: WriteAll.induct) auto
  from assms obtain r l err where
    w: "WriteAll (io_append_writes io) (encode_edit (mf_next_edit_sequence m) e) (mf_log m) = Some (r, l, err)"
    by (auto simp: AppendRecord_def encode_edit_def split: if_splits option.splits)
  with assms no have "err = None" "m' = m\<lparr>mf_log := l\<rparr>"
    by (auto simp: AppendRecord_def encode_edit_def [symmetric] split: if_splits option.splits)
  with WriteAll_result [OF w] show ?thesis by simp
qed

text \<open>Either append operation, by the kind of edit.\<close>

fun append_edit :: "append_io \<Rightarrow> PropertyDeltaManifest \<Rightarrow> edit \<Rightarrow>
    (PropertyDeltaManifest \<times> manifest_error option) option" where
  "append_edit io m (EditAdd entry) = AppendAdd io m entry"
| "append_edit io m (EditRemove names) = AppendRemove io m names"

lemma append_edit_done:
  assumes "append_edit io m e = Some (m', None)"
  shows "e = EditRemove [] \<and> m' = m \<or>
    list_all ValidFileName (edit_names e) \<and>
    m' = m\<lparr>mf_log := mf_log m @ encode_edit (mf_next_edit_sequence m) e,
          mf_next_edit_sequence := mf_next_edit_sequence m + 1,
          mf_active_entries := apply_edit (mf_active_entries m) e\<rparr>"
proof (cases e)
  case (EditAdd entry)
  with assms obtain m1 where m1: "AppendRecord io m kAddRecord (EncodeAdd entry) = Some (m1, None)"
    "ValidFileName (e_file_name entry)"
    "m' = m1\<lparr>mf_active_entries := ApplyAdd (mf_active_entries m1) entry\<rparr>"
    by (auto simp: AppendAdd_def split: if_splits option.splits)
  with AppendRecord_edit [of io m e m1] EditAdd show ?thesis by simp
next
  case (EditRemove ns)
  show ?thesis
  proof (cases "ns = []")
    case True
    with EditRemove assms show ?thesis by (simp add: AppendRemove_def)
  next
    case False
    with EditRemove assms obtain m1 where m1: "AppendRecord io m kRemoveRecord (EncodeRemove ns) = Some (m1, None)"
      "list_all ValidFileName ns" "m' = m1\<lparr>mf_active_entries := ApplyRemove (mf_active_entries m1) ns\<rparr>"
      by (auto simp: AppendRemove_def list_all_iff list_ex_iff split: if_splits option.splits)
    with AppendRecord_edit [of io m e m1] EditRemove show ?thesis by simp
  qed
qed

lemma append_edit_inv:
  assumes "manifest_inv m es" "append_edit io m e = Some (m', None)"
    "length (edit_payload e) \<le> 2 ^ 30" "length es + 2 < 2 ^ 64"
  shows "\<exists>es'. manifest_inv m' es' \<and> length es' \<le> length es + 1"
proof -
  from append_edit_done [OF assms(2)] show ?thesis
  proof
    assume "e = EditRemove [] \<and> m' = m"
    with assms(1) show ?thesis by (intro exI [of _ es]) simp
  next
    assume *: "list_all ValidFileName (edit_names e) \<and>
      m' = m\<lparr>mf_log := mf_log m @ encode_edit (mf_next_edit_sequence m) e,
            mf_next_edit_sequence := mf_next_edit_sequence m + 1,
            mf_active_entries := apply_edit (mf_active_entries m) e\<rparr>"
    then have "edit_ok e" using assms(3) by (simp add: edit_ok_def)
    with * assms(1,4) have "manifest_inv m' (es @ [e])"
      by (simp add: manifest_inv_def log_of_append)
    then show ?thesis by (intro exI [of _ "es @ [e]"]) simp
  qed
qed

text \<open>A run of appends, each of which succeeds.\<close>

fun run_edits :: "PropertyDeltaManifest \<Rightarrow> (append_io \<times> edit) list \<Rightarrow> PropertyDeltaManifest option" where
  "run_edits m [] = Some m"
| "run_edits m ((io, e) # ops) =
     (case append_edit io m e of Some (m', None) \<Rightarrow> run_edits m' ops | _ \<Rightarrow> None)"

definition fresh_manifest :: "DeltaDurability \<Rightarrow> PropertyDeltaManifest" where
  "fresh_manifest dur = \<lparr> mf_log = [], mf_durability = dur, mf_next_edit_sequence = 1,
     mf_active_entries = [] \<rparr>"

definition payloads_ok :: "(append_io \<times> edit) list \<Rightarrow> bool" where
  "payloads_ok ops \<longleftrightarrow> list_all (\<lambda>(io, e). length (edit_payload e) \<le> 2 ^ 30) ops \<and> length ops + 1 < 2 ^ 64"

lemma run_edits_inv:
  assumes "run_edits m ops = Some m'" "manifest_inv m es" "length es + length ops + 1 < 2 ^ 64"
    "list_all (\<lambda>(io, e). length (edit_payload e) \<le> 2 ^ 30) ops"
  shows "\<exists>es'. manifest_inv m' es'"
  using assms
proof (induction ops arbitrary: m es)
  case (Cons op ops)
  obtain io e where op: "op = (io, e)" by (cases op)
  with Cons.prems(1) obtain m1 where m1: "append_edit io m e = Some (m1, None)" "run_edits m1 ops = Some m'"
    by (auto split: option.splits)
  then obtain es1 where "manifest_inv m1 es1" "length es1 \<le> length es + 1"
    using append_edit_inv [OF Cons.prems(2) m1(1)] Cons.prems op by auto
  with Cons.IH [OF m1(2)] Cons.prems show ?case by simp
qed auto

lemma fresh_run_inv:
  assumes "run_edits (fresh_manifest dur) ops = Some m" "payloads_ok ops"
  shows "\<exists>es. manifest_inv m es"
proof (rule run_edits_inv [OF assms(1)])
  show "manifest_inv (fresh_manifest dur) []" by (simp add: manifest_inv_def fresh_manifest_def)
qed (use assms(2) in \<open>simp_all add: payloads_ok_def\<close>)

subsection \<open>Active entries as a map\<close>

text \<open>The abstract state: a map from file names to entries.\<close>

fun map_edit :: "(string \<rightharpoonup> PropertyDeltaManifestEntry) \<Rightarrow> edit \<Rightarrow> (string \<rightharpoonup> PropertyDeltaManifestEntry)" where
  "map_edit a (EditAdd e) = a(e_file_name e \<mapsto> e)"
| "map_edit a (EditRemove ns) = a |` (- set ns)"

definition entry_map :: "PropertyDeltaManifestEntry list \<Rightarrow> (string \<rightharpoonup> PropertyDeltaManifestEntry)" where
  "entry_map active = map_of (map (\<lambda>e. (e_file_name e, e)) active)"

lemma set_names_ApplyAdd:
  "set (map e_file_name (ApplyAdd active e)) = insert (e_file_name e) (set (map e_file_name active))"
  by (induction active e rule: ApplyAdd.induct) auto

lemma distinct_apply_edit:
  "distinct (map e_file_name active) \<Longrightarrow> distinct (map e_file_name (apply_edit active ed))"
proof (cases ed)
  case (EditAdd e)
  assume "distinct (map e_file_name active)"
  then have "distinct (map e_file_name (ApplyAdd active e))"
  proof (induction active e rule: ApplyAdd.induct)
    case (2 item items entry)
    then show ?case using set_names_ApplyAdd [of items entry] by auto
  qed simp
  with EditAdd show ?thesis by simp
next
  case (EditRemove ns)
  assume "distinct (map e_file_name active)"
  with EditRemove show ?thesis by (simp add: ApplyRemove_def distinct_map_filter)
qed

lemma entry_map_apply_edit: "entry_map (apply_edit active ed) = map_edit (entry_map active) ed"
proof (cases ed)
  case (EditAdd e)
  have "entry_map (ApplyAdd active e) = (entry_map active)(e_file_name e \<mapsto> e)"
    by (induction active e rule: ApplyAdd.induct) (auto simp: entry_map_def fun_eq_iff)
  with EditAdd show ?thesis by simp
next
  case (EditRemove ns)
  have "entry_map (ApplyRemove active ns) = entry_map active |` (- set ns)"
    by (induction active) (auto simp: entry_map_def ApplyRemove_def restrict_map_def fun_eq_iff)
  with EditRemove show ?thesis by simp
qed

lemma foldl_apply_edit:
  "distinct (map e_file_name active) \<Longrightarrow>
   distinct (map e_file_name (foldl apply_edit active es)) \<and>
   entry_map (foldl apply_edit active es) = foldl map_edit (entry_map active) es"
proof (induction es arbitrary: active)
  case (Cons ed es)
  from Cons.IH [OF distinct_apply_edit [OF Cons.prems, of ed]] show ?case
    by (simp only: foldl_Cons entry_map_apply_edit)
qed simp

section \<open>Properties\<close>

definition sample_entry :: "string \<Rightarrow> PropertyDeltaManifestEntry" where
  "sample_entry name = \<lparr> e_file_name = name,
     e_metadata = \<lparr> m_target = sample_target, m_file_generation = 9, m_record_count = 2,
       m_file_bytes = 218, m_min_commit_sequence = 2, m_max_commit_sequence = 3,
       m_payload_checksum = 77 \<rparr>,
     e_target_is_persistent = True \<rparr>"

definition sample_append :: "bool \<Rightarrow> append_io" where
  "sample_append sync = \<lparr> io_append_writes = replicate 200 (Written 1), io_append_sync = sync \<rparr>"

definition sample_recover :: recover_io where
  "sample_recover = \<lparr> io_create_directory = True, io_open_log = True, io_fstat_log = True,
     io_reads = replicate 1000 (ReadCount 1), io_truncate = True, io_sync_repaired = True \<rparr>"

lemma sample_recover_ok: "n \<le> 1000 \<Longrightarrow> recover_io_ok sample_recover n"
  by (simp add: recover_io_ok_def sample_recover_def reads_ok_def read_budget_def list_all_iff)

lemma ValidFileName_letter [simp]: "ValidFileName [c] \<longleftrightarrow> c \<noteq> CHR ''/'' \<and> c \<noteq> CHR ''.''"
  by (auto simp: ValidFileName_def path_filename_def)

lemma AppendRecord_writes:
  assumes "length payload < 2 ^ 32" "writes_ok (io_append_writes io)"
    "manifest_header_size + length payload \<le> write_budget (io_append_writes io)"
  shows "AppendRecord io m type payload =
    (if mf_durability m = kProcessCrashSafe \<and> \<not> io_append_sync io
     then Some (m\<lparr>mf_log := mf_log m @ manifest_record type payload (mf_next_edit_sequence m)\<rparr>,
                Some (ManifestIo FdatasyncFailed))
     else Some (m\<lparr>mf_log := mf_log m @ manifest_record type payload (mf_next_edit_sequence m),
                  mf_next_edit_sequence := mf_next_edit_sequence m + 1\<rparr>, None))"
  using WriteAll_succeeds [OF assms(2), of "manifest_record type payload (mf_next_edit_sequence m)" "mf_log m"]
    assms by (auto simp: AppendRecord_def)

lemma sample_append_add:
  assumes "c \<noteq> CHR ''/''" "c \<noteq> CHR ''.''"
  shows "AppendAdd (sample_append sync) m (sample_entry [c]) =
    (if mf_durability m = kProcessCrashSafe \<and> \<not> sync
     then Some (m\<lparr>mf_log := mf_log m @ encode_edit (mf_next_edit_sequence m) (EditAdd (sample_entry [c]))\<rparr>,
                Some (ManifestIo FdatasyncFailed))
     else Some (m\<lparr>mf_log := mf_log m @ encode_edit (mf_next_edit_sequence m) (EditAdd (sample_entry [c])),
                  mf_next_edit_sequence := mf_next_edit_sequence m + 1,
                  mf_active_entries := ApplyAdd (mf_active_entries m) (sample_entry [c])\<rparr>, None))"
proof -
  have "e_file_name (sample_entry n) = n" for n by (simp add: sample_entry_def)
  moreover have "writes_ok (io_append_writes (sample_append sync))"
    "write_budget (io_append_writes (sample_append sync)) = 200" "io_append_sync (sample_append sync) = sync"
    by (simp_all add: sample_append_def writes_ok_def write_budget_def list_all_iff)
  ultimately show ?thesis
    using assms AppendRecord_writes [of "EncodeAdd (sample_entry [c])" "sample_append sync" m kAddRecord]
    by (simp add: AppendAdd_def length_EncodeAdd add_payload_size_def manifest_header_size_def encode_edit_def)
qed

lemma sample_edit_ok: "c \<noteq> CHR ''/'' \<Longrightarrow> c \<noteq> CHR ''.'' \<Longrightarrow> edit_ok (EditAdd (sample_entry [c]))"
  by (simp add: edit_ok_def length_EncodeAdd add_payload_size_def sample_entry_def)

text \<open>C17. What was appended is what is recovered: after any run of successful appends on a fresh
  manifest, reopening its log with working system calls returns the same active entries and
  next edit sequence, and leaves the log alone.\<close>

theorem manifest_recovers_run:
  assumes "run_edits (fresh_manifest dur) ops = Some m" "payloads_ok ops"
    and "recover_io_ok io (length (mf_log m))"
  shows "OpenAndRecover io dur' (mf_log m) = Some (mf_log m, Inr (m\<lparr>mf_durability := dur'\<rparr>))"
proof -
  obtain es where "manifest_inv m es" using fresh_run_inv [OF assms(1,2)] by blast
  moreover have "edit_ok (EditRemove [])" by (simp add: edit_ok_def EncodeRemove_def)
  ultimately show ?thesis
    using recover_manifest [of m es "EditRemove []" 0 io dur'] assms(3) encode_edit_nonempty by simp
qed

lemma sample_run:
  "run_edits (fresh_manifest kProcessCrashSafe) [(sample_append True, EditAdd (sample_entry ''a''))] =
     Some \<lparr> mf_log = encode_edit 1 (EditAdd (sample_entry ''a'')), mf_durability = kProcessCrashSafe,
            mf_next_edit_sequence = 2, mf_active_entries = [sample_entry ''a''] \<rparr>"
  by (simp add: sample_append_add fresh_manifest_def)

lemma sample_payloads:
  "payloads_ok [(sample_append True, EditAdd (sample_entry ''a''))]"
  "length (encode_edit n (EditAdd (sample_entry ''a''))) = 113"
  "length (encode_edit n (EditAdd (sample_entry ''b''))) = 113"
  by (simp_all add: payloads_ok_def length_EncodeAdd add_payload_size_def sample_entry_def
      encode_edit_def manifest_header_size_def)

theorem manifest_recovers_run_witness:
  "\<exists>m log. OpenAndRecover sample_recover kProcessCrashSafe
       (encode_edit 1 (EditAdd (sample_entry ''a''))) = Some (log, Inr m) \<and>
     ActiveEntries m = [sample_entry ''a'']"
  using manifest_recovers_run [OF sample_run sample_payloads(1), of sample_recover kProcessCrashSafe]
  by (simp add: sample_recover_ok sample_payloads ActiveEntries_def)

text \<open>C18. A crash in the middle of an append loses nothing that was acknowledged: if the log of such a
  run is followed by any proper prefix of the next record, recovery returns exactly the state before
  that append and cuts the log back to it.\<close>

theorem manifest_crash_atomic:
  assumes "run_edits (fresh_manifest dur) ops = Some m" "payloads_ok ops" "edit_ok e"
    and "k < length (encode_edit (mf_next_edit_sequence m) e)"
    and "recover_io_ok io (length (mf_log m) + k)"
  shows "OpenAndRecover io dur' (mf_log m @ take k (encode_edit (mf_next_edit_sequence m) e)) =
    Some (mf_log m, Inr (m\<lparr>mf_durability := dur'\<rparr>))"
proof -
  obtain es where "manifest_inv m es" using fresh_run_inv [OF assms(1,2)] by blast
  from recover_manifest [OF this assms(3,4,5)] show ?thesis .
qed

theorem manifest_crash_atomic_witness:
  "\<exists>m. OpenAndRecover sample_recover kProcessCrashSafe
       (encode_edit 1 (EditAdd (sample_entry ''a'')) @ take 50 (encode_edit 2 (EditAdd (sample_entry ''b'')))) =
     Some (encode_edit 1 (EditAdd (sample_entry ''a'')), Inr m) \<and> ActiveEntries m = [sample_entry ''a'']"
  using manifest_crash_atomic [OF sample_run sample_payloads(1), of "EditAdd (sample_entry ''b'')" 50
      sample_recover kProcessCrashSafe]
  by (simp add: sample_recover_ok sample_payloads sample_edit_ok ActiveEntries_def)



text \<open>C35. A failed sync poisons the manifest: when the record of an append was written but \<^verbatim>\<open>fdatasync\<close>
  failed, the error is reported and the edit sequence is not advanced, so the next successful append
  writes a second record with the same sequence and the log can never be recovered again.\<close>

theorem manifest_sync_failure_unrecoverable:
  assumes "run_edits (fresh_manifest dur) ops = Some m" "payloads_ok ops" "edit_ok e1" "edit_ok e2"
    and "AppendRecord io1 m (edit_type e1) (edit_payload e1) = Some (m1, Some (ManifestIo FdatasyncFailed))"
    and "AppendRecord io2 m1 (edit_type e2) (edit_payload e2) = Some (m2, None)"
    and "recover_io_ok io (length (mf_log m2))"
  shows "OpenAndRecover io dur' (mf_log m2) = Some (mf_log m2, Inl EditSequenceNotIncreasing)"
proof -
  obtain es where inv: "manifest_inv m es" using fresh_run_inv [OF assms(1,2)] by blast
  let ?n = "1 + word_of_nat (length es) :: u64"
  have m1: "mf_log m1 = mf_log m @ encode_edit ?n e1" "mf_next_edit_sequence m1 = ?n"
    using AppendRecord_sync_failed [OF assms(5)] inv by (simp_all add: manifest_inv_def)
  have m2: "mf_log m2 = log_of 1 (es @ [e1]) @ encode_edit ?n e2"
    using AppendRecord_edit [OF assms(6)] m1 inv by (simp add: manifest_inv_def log_of_append)
  have ok: "list_all edit_ok (es @ [e1])" "length es + 1 < 2 ^ 64"
    using inv assms(3) by (simp_all add: manifest_inv_def)
  have r: "reads_ok (io_reads io)" "length (mf_log m2) \<le> read_budget (io_reads io)"
    using assms(7) by (simp_all add: recover_io_ok_def)
  obtain r1 where r1: "recover_loop (io_reads io) (mf_log m2) 0 0 [] =
      recover_loop r1 (mf_log m2) (length (log_of 1 (es @ [e1]))) ?n (foldl apply_edit [] (es @ [e1]))"
    "reads_ok r1" "length (mf_log m2) - length (log_of 1 (es @ [e1])) \<le> read_budget r1"
    using recover_edits [of "mf_log m2" "[]" 1 "es @ [e1]" "encode_edit ?n e2" 0 "io_reads io" "[]"] m2 ok r
    by auto
  have "recover_loop r1 (mf_log m2) (length (log_of 1 (es @ [e1]))) ?n (foldl apply_edit [] (es @ [e1])) =
      Some (Inl EditSequenceNotIncreasing)"
    by (rule recover_stale [of _ _ ?n e2 "[]"]) (use m2 assms(4) r1 in simp_all)
  with r1(1) assms(7) show ?thesis by (simp add: OpenAndRecover_def recover_io_ok_def)
qed

theorem manifest_sync_failure_unrecoverable_witness:
  "OpenAndRecover sample_recover kProcessCrashSafe
     (encode_edit 1 (EditAdd (sample_entry ''a'')) @ encode_edit 2 (EditAdd (sample_entry ''b'')) @
      encode_edit 2 (EditAdd (sample_entry ''a''))) =
   Some (encode_edit 1 (EditAdd (sample_entry ''a'')) @ encode_edit 2 (EditAdd (sample_entry ''b'')) @
      encode_edit 2 (EditAdd (sample_entry ''a'')), Inl EditSequenceNotIncreasing)"
proof -
  let ?m = "\<lparr> mf_log = encode_edit 1 (EditAdd (sample_entry ''a'')), mf_durability = kProcessCrashSafe,
            mf_next_edit_sequence = 2, mf_active_entries = [sample_entry ''a''] \<rparr>"
  have len: "length (EncodeAdd (sample_entry [c])) = 77" for c
    by (simp add: length_EncodeAdd add_payload_size_def sample_entry_def)
  have io: "writes_ok (io_append_writes (sample_append sync))"
    "write_budget (io_append_writes (sample_append sync)) = 200" "io_append_sync (sample_append sync) = sync" for sync
    by (simp_all add: sample_append_def writes_ok_def write_budget_def list_all_iff)
  have one: "AppendRecord (sample_append False) ?m kAddRecord (EncodeAdd (sample_entry ''b'')) =
      Some (?m\<lparr>mf_log := mf_log ?m @ encode_edit 2 (EditAdd (sample_entry ''b''))\<rparr>,
        Some (ManifestIo FdatasyncFailed))"
    using AppendRecord_writes [of "EncodeAdd (sample_entry ''b'')" "sample_append False" ?m kAddRecord]
    by (simp add: len io manifest_header_size_def encode_edit_def)
  have two: "AppendRecord (sample_append True) (?m\<lparr>mf_log := mf_log ?m @ encode_edit 2 (EditAdd (sample_entry ''b''))\<rparr>)
      kAddRecord (EncodeAdd (sample_entry ''a'')) =
      Some (?m\<lparr>mf_log := mf_log ?m @ encode_edit 2 (EditAdd (sample_entry ''b'')) @
        encode_edit 2 (EditAdd (sample_entry ''a'')), mf_next_edit_sequence := 3\<rparr>, None)"
    using AppendRecord_writes [of "EncodeAdd (sample_entry ''a'')" "sample_append True"
        "?m\<lparr>mf_log := mf_log ?m @ encode_edit 2 (EditAdd (sample_entry ''b''))\<rparr>" kAddRecord]
    by (simp add: len io manifest_header_size_def encode_edit_def)
  show ?thesis
    using manifest_sync_failure_unrecoverable [OF sample_run sample_payloads(1), of
        "EditAdd (sample_entry ''b'')" "EditAdd (sample_entry ''a'')" "sample_append False"
        "?m\<lparr>mf_log := mf_log ?m @ encode_edit 2 (EditAdd (sample_entry ''b''))\<rparr>" "sample_append True"
        "?m\<lparr>mf_log := mf_log ?m @ encode_edit 2 (EditAdd (sample_entry ''b'')) @
          encode_edit 2 (EditAdd (sample_entry ''a'')), mf_next_edit_sequence := 3\<rparr>"
        sample_recover kProcessCrashSafe] one two
    by (simp add: sample_recover_ok sample_payloads sample_edit_ok)
qed

lemma ReadAllAt_error: "0 < n \<Longrightarrow> ReadAllAt (ReadError # reads) log off n = Some (reads, None)"
  by (cases n) simp_all

text \<open>C36. A read error during recovery discards the log: if the first \<^verbatim>\<open>pread\<close> fails, the scan stops as if
  the tail were torn, the whole log is truncated to nothing and opening reports success with no
  active entries, whatever the log held.\<close>

theorem manifest_read_error_discards_log:
  assumes "io_reads io = ReadError # reads" "manifest_header_size \<le> length log"
    and "io_create_directory io" "io_open_log io" "io_fstat_log io" "io_truncate io" "io_sync_repaired io"
  shows "OpenAndRecover io dur log = Some ([], Inr (fresh_manifest dur))"
proof -
  have "recover_iteration (ReadError # reads) log 0 0 [] = Some (RecoverStop (Inr (0, 0, [])))"
    using assms(2) by (simp add: recover_iteration_def ReadAllAt_error manifest_header_size_def)
  then have "recover_loop (ReadError # reads) log 0 0 [] = Some (Inr (0, 0, []))"
    by (simp add: recover_loop.simps [of "ReadError # reads"])
  with assms show ?thesis
    by (auto simp: OpenAndRecover_def Let_def fresh_manifest_def manifest_header_size_def)
qed

theorem manifest_read_error_discards_log_witness:
  "OpenAndRecover (sample_recover\<lparr>io_reads := [ReadError]\<rparr>) kProcessCrashSafe
     (encode_edit 1 (EditAdd (sample_entry ''a''))) = Some ([], Inr (fresh_manifest kProcessCrashSafe))"
  by (rule manifest_read_error_discards_log)
    (simp_all add: sample_payloads manifest_header_size_def sample_recover_def)

end
