(* ===== verification/DeltaStore.thy ===== *)
theory DeltaStore
  imports DeltaMerge DeltaManifest "HOL-Library.AList" "HOL-Library.Sublist"
begin

text \<open>
  The property delta store (\<^verbatim>\<open>src/property_delta_store.cpp\<close>): chains of delta files by target, attaching
  a batch, marking a target persistent, merging a chain in the background or before a compaction, and
  recovery from the manifest. The state holds the file system, so that every operation is one state
  transformer; system call outcomes and the merge callback are arguments. The sharded registry is an
  association list, its iteration order the order of first use.
\<close>

section \<open>Definitions\<close>

datatype store_error =
    EmptyBatch | DeltaFailed delta_error | ManifestFailed manifest_error | MergeFailed merge_error
  | NoMergeCallback | ChainChanged | ChainPrefixChanged | ChainBusy | MergeThresholdZero
  | RecoverFileFailed string delta_error | MetadataMismatch string

record Chain =
  c_read_view :: PropertyDeltaReadView
  c_target_is_persistent :: bool
  c_merge_scheduled_or_running :: bool

record PropertyDeltaStore =
  ps_fs :: file_system
  ps_directory :: string
  ps_merge_threshold :: u32
  ps_durability :: DeltaDurability
  ps_manifest :: PropertyDeltaManifest
  ps_chains :: "(PropertyDeltaTarget \<times> Chain) list"
  ps_next_file_generation :: u64
  ps_maximum_commit_sequence :: u64
  ps_persistent_base_files :: "FileId_t list"
  ps_jobs :: "PropertyDeltaTarget list"
  ps_running_jobs :: nat
  ps_background_error :: "store_error option"
  ps_files_created :: u64
  ps_files_recovered :: u64
  ps_records_written :: u64
  ps_bytes_written :: u64
  ps_merges_started :: u64
  ps_merges_completed :: u64
  ps_merge_failures :: u64

text \<open>\<^verbatim>\<open>PropertyDeltaMergeCallback\<close>: the file system it leaves and the merged column, or its error.\<close>

type_synonym merge_callback =
  "file_system \<Rightarrow> PropertyDeltaTarget \<Rightarrow> MappedPropertyFile option \<Rightarrow> PropertyDeltaFile list \<Rightarrow> u64 \<Rightarrow>
   file_system \<times> (merge_error + MappedPropertyFile)"

subsection \<open>Names and paths\<close>

definition MetadataMatches :: "PropertyDeltaFileMetadata \<Rightarrow> PropertyDeltaFileMetadata \<Rightarrow> bool" where
  "MetadataMatches expected actual \<longleftrightarrow>
     target_eq (m_target expected) (m_target actual) \<and>
     m_file_generation expected = m_file_generation actual \<and>
     m_record_count expected = m_record_count actual \<and>
     m_file_bytes expected = m_file_bytes actual \<and>
     m_min_commit_sequence expected = m_min_commit_sequence actual \<and>
     m_max_commit_sequence expected = m_max_commit_sequence actual \<and>
     m_payload_checksum expected = m_payload_checksum actual"

definition DeltaFileName :: "PropertyDeltaTarget \<Rightarrow> u64 \<Rightarrow> string" where
  "DeltaFileName target generation =
     ''delta-'' @ [if t_kind target = kNode then CHR ''n'' else CHR ''e''] @ ''-s'' @
     to_string (unat (t_shard_id target)) @ ''-f'' @ to_string (unat (t_base_file_id target)) @ ''-b'' @
     to_string (unat (t_base_generation target)) @ ''-p'' @ to_string (unat (t_property_id target)) @ ''-g'' @
     to_string (unat generation) @ ''.rgd''"

definition BaseName :: "string \<Rightarrow> string" where
  "BaseName path = path_filename path"

text \<open>\<^verbatim>\<open>std::filesystem::path\<close>: the join operator and \<^verbatim>\<open>parent_path\<close>.\<close>

definition path_join :: "string \<Rightarrow> string \<Rightarrow> string" where
  "path_join directory name =
     (if directory = [] then name
      else if last directory = CHR ''/'' then directory @ name else directory @ ''/'' @ name)"

definition parent_path :: "string \<Rightarrow> string" where
  "parent_path path = rev (drop 1 (dropWhile (\<lambda>c. c \<noteq> CHR ''/'') (rev path)))"

definition base_sst_path :: "string \<Rightarrow> FileId_t \<Rightarrow> string" where
  "base_sst_path directory base_file_id =
     path_join (parent_path directory) (to_string (unat base_file_id) @ ''.sst'')"

subsection \<open>Chains\<close>

definition empty_chain :: Chain where
  "empty_chain = \<lparr>c_read_view = \<lparr>v_merged_base = None, v_deltas = [], v_generation = 0\<rparr>,
     c_target_is_persistent = False, c_merge_scheduled_or_running = False\<rparr>"

definition FindChain :: "PropertyDeltaStore \<Rightarrow> PropertyDeltaTarget \<Rightarrow> Chain option" where
  "FindChain st target = map_of (ps_chains st) target"

definition set_chain :: "PropertyDeltaTarget \<Rightarrow> Chain \<Rightarrow> PropertyDeltaStore \<Rightarrow> PropertyDeltaStore" where
  "set_chain target chain st = st\<lparr>ps_chains := AList.update target chain (ps_chains st)\<rparr>"

definition GetOrCreateChain :: "PropertyDeltaStore \<Rightarrow> PropertyDeltaTarget \<Rightarrow> bool \<Rightarrow> PropertyDeltaStore \<times> Chain" where
  "GetOrCreateChain st target target_is_persistent =
     (let persistent = target_is_persistent \<or> t_base_file_id target \<in> set (ps_persistent_base_files st);
          chain = (case FindChain st target of Some c \<Rightarrow> c | None \<Rightarrow> empty_chain);
          chain' = (if persistent then chain\<lparr>c_target_is_persistent := True\<rparr> else chain)
      in (set_chain target chain' st, chain'))"

definition ReadView :: "PropertyDeltaStore \<Rightarrow> PropertyDeltaTarget \<Rightarrow> PropertyDeltaReadView option" where
  "ReadView st target = map_option c_read_view (FindChain st target)"

definition ScheduleMerge :: "PropertyDeltaStore \<Rightarrow> PropertyDeltaTarget \<Rightarrow> PropertyDeltaStore" where
  "ScheduleMerge st target =
     st\<lparr>ps_jobs := ps_jobs st @ [target], ps_merges_started := ps_merges_started st + 1\<rparr>"

definition RecordBackgroundError :: "PropertyDeltaStore \<Rightarrow> store_error \<Rightarrow> PropertyDeltaStore" where
  "RecordBackgroundError st e =
     (if ps_background_error st = None then st\<lparr>ps_background_error := Some e\<rparr> else st)"

subsection \<open>Attach\<close>

record attach_io =
  ai_create :: create_io
  ai_append :: append_io

text \<open>The part of \<^verbatim>\<open>Attach\<close> under the chain's mutex and after it, once the manifest has the file.\<close>

definition publish_attached ::
  "bool \<Rightarrow> PropertyDeltaStore \<Rightarrow> PropertyDeltaTarget \<Rightarrow> Chain \<Rightarrow> PropertyDeltaFile \<Rightarrow> u64 \<Rightarrow> PropertyDeltaStore" where
  "publish_attached has_callback st target chain attached generation =
     (let old_view = c_read_view chain;
          view = old_view\<lparr>v_deltas := v_deltas old_view @ [attached],
                          v_generation := max (v_generation old_view) generation\<rparr>;
          schedule = (has_callback \<and> c_target_is_persistent chain \<and>
                      \<not> c_merge_scheduled_or_running chain \<and>
                      length (v_deltas old_view) + 1 \<ge> unat (ps_merge_threshold st));
          chain' = chain\<lparr>c_read_view := view,
                         c_merge_scheduled_or_running := c_merge_scheduled_or_running chain \<or> schedule\<rparr>;
          st1 = (set_chain target chain' st)
            \<lparr>ps_files_created := ps_files_created st + 1,
             ps_records_written := ps_records_written st + m_record_count (f_metadata attached),
             ps_bytes_written := ps_bytes_written st + m_file_bytes (f_metadata attached),
             ps_maximum_commit_sequence :=
               max (ps_maximum_commit_sequence st) (m_max_commit_sequence (f_metadata attached))\<rparr>
      in if schedule then ScheduleMerge st1 target else st1)"

text \<open>Up to the creation of the file; then the commit, which looks at the chain again under its mutex.\<close>

definition attach_prepare ::
  "create_io \<Rightarrow> nat \<Rightarrow> PropertyDeltaStore \<Rightarrow> PropertyDeltaTarget \<Rightarrow> PropertyDeltaRecord list \<Rightarrow> bool \<Rightarrow>
   (PropertyDeltaStore \<times> (store_error + PropertyDeltaFile)) option" where
  "attach_prepare io pid st target records target_is_persistent =
     (if records = [] then Some (st, Inl EmptyBatch)
      else
        let (st1, chain) = GetOrCreateChain st target target_is_persistent;
            generation = ps_next_file_generation st1;
            st2 = st1\<lparr>ps_next_file_generation := generation + 1\<rparr>
        in case Create io pid (ps_fs st2) (path_join (ps_directory st2) (DeltaFileName target generation)) target
                  generation records (ps_durability st2) of
             None \<Rightarrow> None
           | Some (fs, Inl e) \<Rightarrow> Some (st2\<lparr>ps_fs := fs\<rparr>, Inl (DeltaFailed e))
           | Some (fs, Inr created) \<Rightarrow> Some (st2\<lparr>ps_fs := fs\<rparr>, Inr created))"

definition attach_commit ::
  "bool \<Rightarrow> append_io \<Rightarrow> PropertyDeltaStore \<Rightarrow> PropertyDeltaTarget \<Rightarrow> PropertyDeltaFile \<Rightarrow> u64 \<Rightarrow>
   (PropertyDeltaStore \<times> store_error option) option" where
  "attach_commit has_callback io st target created generation =
     (let chain = (case FindChain st target of Some c \<Rightarrow> c | None \<Rightarrow> empty_chain) in
      case AppendAdd io (ps_manifest st)
             \<lparr>e_file_name = DeltaFileName target generation, e_metadata = f_metadata created,
              e_target_is_persistent = c_target_is_persistent chain\<rparr> of
        None \<Rightarrow> None
      | Some (manifest, Some e) \<Rightarrow>
          Some (st\<lparr>ps_fs := destroy_file (ps_fs st) (created\<lparr>f_obsolete := True\<rparr>), ps_manifest := manifest\<rparr>,
                Some (ManifestFailed e))
      | Some (manifest, None) \<Rightarrow>
          Some (publish_attached has_callback (st\<lparr>ps_manifest := manifest\<rparr>) target chain created generation, None))"

definition Attach ::
  "bool \<Rightarrow> attach_io \<Rightarrow> nat \<Rightarrow> PropertyDeltaStore \<Rightarrow> PropertyDeltaTarget \<Rightarrow> PropertyDeltaRecord list \<Rightarrow> bool \<Rightarrow>
   (PropertyDeltaStore \<times> store_error option) option" where
  "Attach has_callback io pid st target records target_is_persistent =
     (case attach_prepare (ai_create io) pid st target records target_is_persistent of
        None \<Rightarrow> None
      | Some (st', Inl e) \<Rightarrow> Some (st', Some e)
      | Some (st', Inr created) \<Rightarrow>
          attach_commit has_callback (ai_append io) st' target created (ps_next_file_generation st))"

subsection \<open>Persistence of a target\<close>

text \<open>The loop that records the chain's files as persistent; the last component is the first error.\<close>

fun append_persistent ::
  "append_io list \<Rightarrow> PropertyDeltaManifest \<Rightarrow> PropertyDeltaFile list \<Rightarrow>
   (PropertyDeltaManifest \<times> manifest_error option) option" where
  "append_persistent ios m [] = Some (m, None)"
| "append_persistent [] m (f # fs) = None"
| "append_persistent (io # ios) m (f # fs) =
     (case AppendAdd io m \<lparr>e_file_name = BaseName (f_path f), e_metadata = f_metadata f,
                           e_target_is_persistent = True\<rparr> of
        None \<Rightarrow> None
      | Some (m', Some e) \<Rightarrow> Some (m', Some e)
      | Some (m', None) \<Rightarrow> append_persistent ios m' fs)"

definition MarkTargetPersistent ::
  "bool \<Rightarrow> append_io list \<Rightarrow> PropertyDeltaStore \<Rightarrow> PropertyDeltaTarget \<Rightarrow>
   (PropertyDeltaStore \<times> store_error option) option" where
  "MarkTargetPersistent has_callback ios st target =
     (let st1 = st\<lparr>ps_persistent_base_files := List.insert (t_base_file_id target) (ps_persistent_base_files st)\<rparr> in
      case FindChain st1 target of
        None \<Rightarrow> Some (st1, None)
      | Some chain \<Rightarrow>
          (case (if c_target_is_persistent chain then Some (ps_manifest st1, None)
                 else append_persistent ios (ps_manifest st1) (v_deltas (c_read_view chain))) of
             None \<Rightarrow> None
           | Some (manifest, Some e) \<Rightarrow>
               Some (RecordBackgroundError (st1\<lparr>ps_manifest := manifest\<rparr>) (ManifestFailed e),
                     Some (ManifestFailed e))
           | Some (manifest, None) \<Rightarrow>
               let schedule = (has_callback \<and> \<not> c_merge_scheduled_or_running chain \<and>
                       length (v_deltas (c_read_view chain)) \<ge> unat (ps_merge_threshold st1));
                   chain' = chain\<lparr>c_target_is_persistent := True,
                     c_merge_scheduled_or_running := c_merge_scheduled_or_running chain \<or> schedule\<rparr>;
                   st2 = set_chain target chain' (st1\<lparr>ps_manifest := manifest\<rparr>)
               in Some (if schedule then ScheduleMerge st2 target else st2, None)))"

subsection \<open>Merging a chain\<close>

text \<open>What a merge captures under the chain's mutex: the base and the prefix of files, if there is work.\<close>

definition merge_capture :: "PropertyDeltaStore \<Rightarrow> Chain \<Rightarrow> bool \<Rightarrow> (MappedPropertyFile option \<times> PropertyDeltaFile list) option" where
  "merge_capture st chain merge_all =
     (let captured = c_read_view chain in
      if \<not> c_target_is_persistent chain \<or> v_deltas captured = [] \<or>
         (\<not> merge_all \<and> length (v_deltas captured) < unat (ps_merge_threshold st)) then None
      else let count = (if merge_all then length (v_deltas captured) else unat (ps_merge_threshold st))
           in Some (v_merged_base captured, take count (v_deltas captured)))"

definition clear_busy :: "PropertyDeltaStore \<Rightarrow> PropertyDeltaTarget \<Rightarrow> Chain \<Rightarrow> PropertyDeltaStore" where
  "clear_busy st target chain = set_chain target (chain\<lparr>c_merge_scheduled_or_running := False\<rparr>) st"

text \<open>The publication under the chain's mutex; the merged files are marked obsolete and unlinked when the
  last reader lets go of them, here at once.\<close>

definition merge_publish ::
  "PropertyDeltaStore \<Rightarrow> PropertyDeltaTarget \<Rightarrow> Chain \<Rightarrow> PropertyDeltaFile list \<Rightarrow> MappedPropertyFile \<Rightarrow> u64 \<Rightarrow> bool \<Rightarrow>
   PropertyDeltaStore \<times> store_error option" where
  "merge_publish st target chain batch merged_base output_generation merge_all =
     (let current = c_read_view chain in
      if length (v_deltas current) < length batch then (st, Some ChainChanged)
      else if take (length batch) (v_deltas current) \<noteq> batch then (st, Some ChainPrefixChanged)
      else
        let next_view = \<lparr>v_merged_base = Some merged_base, v_deltas = drop (length batch) (v_deltas current),
                         v_generation = output_generation\<rparr>;
            schedule_next = (\<not> merge_all \<and> c_target_is_persistent chain \<and>
              length (v_deltas current) - length batch \<ge> unat (ps_merge_threshold st));
            chain' = chain\<lparr>c_read_view := next_view, c_merge_scheduled_or_running := schedule_next\<rparr>;
            st1 = (set_chain target chain' st)
              \<lparr>ps_fs := foldl destroy_file (ps_fs st) (map (\<lambda>f. f\<lparr>f_obsolete := True\<rparr>) batch),
               ps_merges_completed := ps_merges_completed st + 1\<rparr>
        in (if schedule_next then ScheduleMerge st1 target else st1, None))"

definition MergeChain ::
  "merge_callback option \<Rightarrow> append_io \<Rightarrow> PropertyDeltaStore \<Rightarrow> PropertyDeltaTarget \<Rightarrow> bool \<Rightarrow>
   (PropertyDeltaStore \<times> store_error option) option" where
  "MergeChain callback io st target merge_all =
     (case (callback, FindChain st target) of
        (Some merge, Some chain) \<Rightarrow>
          (case merge_capture st chain merge_all of
             None \<Rightarrow> Some (clear_busy st target chain, None)
           | Some (base, batch) \<Rightarrow>
               let output_generation = ps_next_file_generation st;
                   st1 = st\<lparr>ps_next_file_generation := output_generation + 1\<rparr>
               in case merge (ps_fs st1) target base batch output_generation of
                    (fs, Inl e) \<Rightarrow> Some (st1\<lparr>ps_fs := fs\<rparr>, Some (MergeFailed e))
                  | (fs, Inr merged_base) \<Rightarrow>
                      (case AppendRemove io (ps_manifest st1) (map (\<lambda>f. BaseName (f_path f)) batch) of
                         None \<Rightarrow> None
                       | Some (manifest, Some e) \<Rightarrow>
                           Some (st1\<lparr>ps_fs := fs, ps_manifest := manifest\<rparr>, Some (ManifestFailed e))
                       | Some (manifest, None) \<Rightarrow>
                           Some (merge_publish (st1\<lparr>ps_fs := fs, ps_manifest := manifest\<rparr>) target chain batch
                                   merged_base output_generation merge_all)))
      | _ \<Rightarrow> Some (st, Some NoMergeCallback))"

text \<open>One iteration of \<^verbatim>\<open>WorkerMain\<close> that finds a job; \<open>None\<close> when it has to wait or a call never returns.\<close>

definition merge_failed :: "PropertyDeltaStore \<Rightarrow> PropertyDeltaTarget \<Rightarrow> store_error \<Rightarrow> PropertyDeltaStore" where
  "merge_failed st target e =
     (let st1 = RecordBackgroundError (st\<lparr>ps_merge_failures := ps_merge_failures st + 1\<rparr>) e
      in case FindChain st1 target of None \<Rightarrow> st1 | Some chain \<Rightarrow> clear_busy st1 target chain)"

definition WorkerMain :: "merge_callback option \<Rightarrow> append_io \<Rightarrow> PropertyDeltaStore \<Rightarrow> PropertyDeltaStore option" where
  "WorkerMain callback io st =
     (case ps_jobs st of
        [] \<Rightarrow> None
      | target # jobs \<Rightarrow>
          (case MergeChain callback io (st\<lparr>ps_jobs := jobs\<rparr>) target False of
             None \<Rightarrow> None
           | Some (st', None) \<Rightarrow> Some st'
           | Some (st', Some e) \<Rightarrow> Some (merge_failed st' target e)))"

text \<open>\<^verbatim>\<open>WaitForIdle\<close> blocks (\<open>None\<close>) while there is work.\<close>

definition WaitForIdle :: "PropertyDeltaStore \<Rightarrow> store_error option option" where
  "WaitForIdle st = (if ps_jobs st = [] \<and> ps_running_jobs st = 0 then Some (ps_background_error st) else None)"

fun merge_each ::
  "merge_callback option \<Rightarrow> append_io list \<Rightarrow> (Chain \<Rightarrow> bool) \<Rightarrow> PropertyDeltaStore \<Rightarrow> PropertyDeltaTarget list \<Rightarrow>
   (PropertyDeltaStore \<times> store_error option) option" where
  "merge_each callback ios wanted st [] = Some (st, None)"
| "merge_each callback [] wanted st (target # targets) = None"
| "merge_each callback (io # ios) wanted st (target # targets) =
     (case FindChain st target of
        None \<Rightarrow> merge_each callback ios wanted st targets
      | Some chain \<Rightarrow>
          if \<not> wanted chain then merge_each callback ios wanted st targets
          else if c_merge_scheduled_or_running chain then Some (st, Some ChainBusy)
          else case MergeChain callback io
                      (set_chain target (chain\<lparr>c_merge_scheduled_or_running := True\<rparr>) st) target True of
                 None \<Rightarrow> None
               | Some (st', Some e) \<Rightarrow>
                   Some (case FindChain st' target of None \<Rightarrow> st' | Some c \<Rightarrow> clear_busy st' target c, Some e)
               | Some (st', None) \<Rightarrow> merge_each callback ios wanted st' targets)"

definition MergeAllForBaseFiles ::
  "merge_callback option \<Rightarrow> append_io list \<Rightarrow> PropertyDeltaStore \<Rightarrow> FileId_t list \<Rightarrow>
   (PropertyDeltaStore \<times> store_error option) option" where
  "MergeAllForBaseFiles callback ios st base_file_ids =
     (case WaitForIdle st of
        None \<Rightarrow> None
      | Some (Some e) \<Rightarrow> Some (st, Some e)
      | Some None \<Rightarrow> merge_each callback ios (\<lambda>chain. True) st
          (filter (\<lambda>target. t_base_file_id target \<in> set base_file_ids) (map fst (ps_chains st))))"

definition MergeAllPersistent ::
  "merge_callback option \<Rightarrow> append_io list \<Rightarrow> PropertyDeltaStore \<Rightarrow> (PropertyDeltaStore \<times> store_error option) option" where
  "MergeAllPersistent callback ios st =
     (case WaitForIdle st of
        None \<Rightarrow> None
      | Some (Some e) \<Rightarrow> Some (st, Some e)
      | Some None \<Rightarrow> merge_each callback ios
          (\<lambda>chain. c_target_is_persistent chain \<and> v_deltas (c_read_view chain) \<noteq> []) st (map fst (ps_chains st)))"

subsection \<open>Recovery\<close>

text \<open>Whether recovery removes a file of the directory: a delta file no entry names, or a temporary.\<close>

definition is_orphan :: "string list \<Rightarrow> string \<Rightarrow> bool" where
  "is_orphan active name \<longleftrightarrow>
     prefix ''delta-'' name \<and> sublist ''.rgd'' name \<and> name \<notin> set active \<or> sublist ''.tmp.'' name"

definition RemoveOrphanFiles :: "PropertyDeltaStore \<Rightarrow> PropertyDeltaStore" where
  "RemoveOrphanFiles st =
     (let active = map e_file_name (ActiveEntries (ps_manifest st)) in
      st\<lparr>ps_fs := (\<lambda>path. if path = path_join (ps_directory st) (path_filename path) \<and>
                            is_orphan active (path_filename path) then None else ps_fs st path)\<rparr>)"

text \<open>One entry of the recovery loop. The accumulators are the maximal generation seen, the names of the
  entries whose base table never reached disk, and the entries to record as persistent.\<close>

definition recover_entry ::
  "open_io \<Rightarrow> PropertyDeltaManifestEntry \<Rightarrow>
   PropertyDeltaStore \<times> u64 \<times> string list \<times> PropertyDeltaManifestEntry list \<Rightarrow>
   store_error + (PropertyDeltaStore \<times> u64 \<times> string list \<times> PropertyDeltaManifestEntry list)" where
  "recover_entry io entry acc =
     (case acc of (st, maximum_generation, abandoned, promoted) \<Rightarrow>
        let target = m_target (e_metadata entry);
            maximum = max maximum_generation (m_file_generation (e_metadata entry));
            on_disk = (ps_fs st (base_sst_path (ps_directory st) (t_base_file_id target)) \<noteq> None)
        in if \<not> e_target_is_persistent entry \<and> \<not> on_disk
           then Inr (st, maximum, abandoned @ [e_file_name entry], promoted)
           else
             let entry' = entry\<lparr>e_target_is_persistent := True\<rparr>;
                 promoted' = (if e_target_is_persistent entry then promoted else promoted @ [entry'])
             in case OpenAndValidate io (ps_fs st) (path_join (ps_directory st) (e_file_name entry)) of
                  Inl e \<Rightarrow> Inl (RecoverFileFailed (e_file_name entry) e)
                | Inr opened \<Rightarrow>
                    if \<not> MetadataMatches (e_metadata entry) (f_metadata opened)
                    then Inl (MetadataMismatch (e_file_name entry))
                    else
                      let (st1, chain) = GetOrCreateChain st target True;
                          old_view = c_read_view chain;
                          view = old_view
                            \<lparr>v_deltas := sort_key (\<lambda>f. m_file_generation (f_metadata f))
                                            (v_deltas old_view @ [opened]),
                             v_generation := max (v_generation old_view) (m_file_generation (e_metadata entry))\<rparr>
                      in Inr ((set_chain target (chain\<lparr>c_read_view := view\<rparr>) st1)
                                \<lparr>ps_maximum_commit_sequence := max (ps_maximum_commit_sequence st1)
                                     (m_max_commit_sequence (e_metadata entry)),
                                 ps_files_recovered := ps_files_recovered st1 + 1\<rparr>,
                              maximum, abandoned, promoted'))"

fun recover_entries ::
  "open_io \<Rightarrow> PropertyDeltaManifestEntry list \<Rightarrow>
   PropertyDeltaStore \<times> u64 \<times> string list \<times> PropertyDeltaManifestEntry list \<Rightarrow>
   store_error + (PropertyDeltaStore \<times> u64 \<times> string list \<times> PropertyDeltaManifestEntry list)" where
  "recover_entries io [] acc = Inr acc"
| "recover_entries io (entry # entries) acc =
     (case recover_entry io entry acc of Inl e \<Rightarrow> Inl e | Inr acc' \<Rightarrow> recover_entries io entries acc')"

fun append_all :: "append_io list \<Rightarrow> PropertyDeltaManifest \<Rightarrow> PropertyDeltaManifestEntry list \<Rightarrow>
    (PropertyDeltaManifest \<times> manifest_error option) option" where
  "append_all ios m [] = Some (m, None)"
| "append_all [] m (entry # entries) = None"
| "append_all (io # ios) m (entry # entries) =
     (case AppendAdd io m entry of
        None \<Rightarrow> None
      | Some (m', Some e) \<Rightarrow> Some (m', Some e)
      | Some (m', None) \<Rightarrow> append_all ios m' entries)"

text \<open>The last loop: chains already at the threshold are scheduled.\<close>

fun schedule_recovered :: "bool \<Rightarrow> PropertyDeltaStore \<Rightarrow> PropertyDeltaTarget list \<Rightarrow> PropertyDeltaStore" where
  "schedule_recovered has_callback st [] = st"
| "schedule_recovered has_callback st (target # targets) =
     schedule_recovered has_callback
       (case FindChain st target of
          None \<Rightarrow> st
        | Some chain \<Rightarrow>
            if has_callback \<and> c_target_is_persistent chain \<and>
               length (v_deltas (c_read_view chain)) \<ge> unat (ps_merge_threshold st)
            then ScheduleMerge (set_chain target (chain\<lparr>c_merge_scheduled_or_running := True\<rparr>) st) target
            else st) targets"

record store_io =
  si_manifest :: recover_io
  si_open :: open_io
  si_promote :: "append_io list"
  si_abandon :: append_io

definition new_store :: "file_system \<Rightarrow> string \<Rightarrow> u32 \<Rightarrow> DeltaDurability \<Rightarrow> PropertyDeltaManifest \<Rightarrow> PropertyDeltaStore" where
  "new_store fs directory merge_threshold durability manifest =
     \<lparr>ps_fs = fs, ps_directory = directory, ps_merge_threshold = merge_threshold, ps_durability = durability,
      ps_manifest = manifest, ps_chains = [], ps_next_file_generation = 1, ps_maximum_commit_sequence = 0,
      ps_persistent_base_files = [], ps_jobs = [], ps_running_jobs = 0, ps_background_error = None,
      ps_files_created = 0, ps_files_recovered = 0, ps_records_written = 0, ps_bytes_written = 0,
      ps_merges_started = 0, ps_merges_completed = 0, ps_merge_failures = 0\<rparr>"

definition finish_recovery ::
  "bool \<Rightarrow> store_io \<Rightarrow> PropertyDeltaStore \<Rightarrow> u64 \<Rightarrow> string list \<Rightarrow> PropertyDeltaManifestEntry list \<Rightarrow>
   (store_error + PropertyDeltaStore) option" where
  "finish_recovery has_callback io st maximum_generation abandoned promoted =
     (case append_all (si_promote io) (ps_manifest st) promoted of
        None \<Rightarrow> None
      | Some (manifest, Some e) \<Rightarrow> Some (Inl (ManifestFailed e))
      | Some (manifest, None) \<Rightarrow>
          (case AppendRemove (si_abandon io) manifest abandoned of
             None \<Rightarrow> None
           | Some (manifest', Some e) \<Rightarrow> Some (Inl (ManifestFailed e))
           | Some (manifest', None) \<Rightarrow>
               let st1 = st\<lparr>ps_manifest := manifest',
                       ps_fs := foldl (\<lambda>fs name. fs(path_join (ps_directory st) name := None)) (ps_fs st) abandoned,
                       ps_next_file_generation := maximum_generation + 1\<rparr>;
                   st2 = RemoveOrphanFiles st1
               in Some (Inr (schedule_recovered has_callback st2 (map fst (ps_chains st2))))))"

definition OpenAndRecoverStore ::
  "bool \<Rightarrow> store_io \<Rightarrow> file_system \<Rightarrow> string \<Rightarrow> u32 \<Rightarrow> DeltaDurability \<Rightarrow> bytes \<Rightarrow>
   (store_error + PropertyDeltaStore) option" where
  "OpenAndRecoverStore has_callback io fs directory merge_threshold durability log =
     (if merge_threshold = 0 then Some (Inl MergeThresholdZero)
      else case OpenAndRecover (si_manifest io) durability log of
        None \<Rightarrow> None
      | Some (log', Inl e) \<Rightarrow> Some (Inl (ManifestFailed e))
      | Some (log', Inr manifest) \<Rightarrow>
          (case recover_entries (si_open io) (ActiveEntries manifest)
                  (new_store fs directory merge_threshold durability manifest, 0, [], []) of
             Inl e \<Rightarrow> Some (Inl e)
           | Inr (st, maximum_generation, abandoned, promoted) \<Rightarrow>
               finish_recovery has_callback io st maximum_generation abandoned promoted))"

subsection \<open>Statistics\<close>

record PropertyDeltaStoreStats =
  sa_files_created :: u64
  sa_files_recovered :: u64
  sa_records_written :: u64
  sa_bytes_written :: u64
  sa_merges_started :: u64
  sa_merges_completed :: u64
  sa_merge_failures :: u64
  sa_chain_count :: u64
  sa_visible_files :: u64
  sa_max_chain_length :: u64
  sa_lookups :: u64
  sa_files_probed :: u64
  sa_hits :: u64
  sa_base_fallbacks :: u64

definition Stats :: "PropertyDeltaStore \<Rightarrow> PropertyDeltaLookupCounters \<Rightarrow> PropertyDeltaStoreStats" where
  "Stats st counters =
     (let lengths = map (\<lambda>(target, chain). length (v_deltas (c_read_view chain))) (ps_chains st)
      in \<lparr>sa_files_created = ps_files_created st, sa_files_recovered = ps_files_recovered st,
          sa_records_written = ps_records_written st, sa_bytes_written = ps_bytes_written st,
          sa_merges_started = ps_merges_started st, sa_merges_completed = ps_merges_completed st,
          sa_merge_failures = ps_merge_failures st, sa_chain_count = word_of_nat (length (ps_chains st)),
          sa_visible_files = word_of_nat (sum_list lengths),
          sa_max_chain_length = word_of_nat (foldl max 0 lengths),
          sa_lookups = k_lookups counters, sa_files_probed = k_files_probed counters,
          sa_hits = k_hits counters, sa_base_fallbacks = k_base_fallbacks counters\<rparr>)"

section \<open>Lemmas\<close>

subsection \<open>File names\<close>

lemma separator_split:
  assumes "xs @ c # r = ys @ c # q" "c \<notin> set xs" "c \<notin> set ys"
  shows "xs = ys \<and> r = q"
  using assms
proof (induction xs arbitrary: ys)
  case Nil
  then show ?case by (cases ys) auto
next
  case (Cons x xs)
  then show ?case by (cases ys) auto
qed

lemma to_string_separator [simp]:
  "to_string a @ CHR ''-'' # r = to_string b @ CHR ''-'' # q \<longleftrightarrow> a = b \<and> r = q"
  using separator_split [of "to_string a" "CHR ''-''" r "to_string b" q] by (auto simp: to_string_no_char)

lemma DeltaFileName_inj [simp]: "DeltaFileName t g = DeltaFileName t' g' \<longleftrightarrow> t = t' \<and> g = g'"
proof
  assume "DeltaFileName t g = DeltaFileName t' g'"
  moreover then have "t_kind t = t_kind t'"
    by (cases "t_kind t"; cases "t_kind t'") (simp_all add: DeltaFileName_def)
  ultimately show "t = t' \<and> g = g'"
    by (auto simp: DeltaFileName_def word_unat_eq_iff [symmetric] intro: PropertyDeltaTarget.equality)
qed simp

lemma DeltaFileName_chars:
  "CHR ''/'' \<notin> set (DeltaFileName t g)" "DeltaFileName t g \<noteq> []"
  "suffix ''.rgd'' (DeltaFileName t g)"
proof -
  show "CHR ''/'' \<notin> set (DeltaFileName t g)" by (simp add: DeltaFileName_def to_string_no_char)
  show "DeltaFileName t g \<noteq> []" by (simp add: DeltaFileName_def)
  have "DeltaFileName t g = butlast (butlast (butlast (butlast (DeltaFileName t g)))) @ ''.rgd''"
    by (simp add: DeltaFileName_def butlast_append)
  then show "suffix ''.rgd'' (DeltaFileName t g)" by (metis suffixI)
qed

lemma path_filename_plain: "CHR ''/'' \<notin> set n \<Longrightarrow> path_filename n = n"
proof -
  assume "CHR ''/'' \<notin> set n"
  then have "takeWhile (\<lambda>c. c \<noteq> CHR ''/'') (rev n) = rev n" by (auto simp: takeWhile_eq_all_conv)
  then show ?thesis by (simp only: path_filename_def rev_rev_ident)
qed

lemma BaseName_join:
  assumes "CHR ''/'' \<notin> set n"
  shows "BaseName (path_join dir n) = n"
proof -
  have all: "\<And>c. c \<in> set (rev n) \<Longrightarrow> c \<noteq> CHR ''/''" using assms by auto
  show ?thesis
  proof (cases "dir = []")
    case True
    then show ?thesis using path_filename_plain [OF assms] by (simp add: BaseName_def path_join_def)
  next
    case False
    then have "\<exists>d. path_join dir n = d @ CHR ''/'' # n"
      by (cases "last dir = CHR ''/''") (auto simp: path_join_def, metis append_butlast_last_id append.assoc append_Cons append_Nil)
    then obtain d where d: "path_join dir n = d @ CHR ''/'' # n" by blast
    have "takeWhile (\<lambda>c. c \<noteq> CHR ''/'') (rev n @ CHR ''/'' # rev d) = rev n"
      using takeWhile_append2 [of "rev n" "\<lambda>c. c \<noteq> CHR ''/''" "CHR ''/'' # rev d"] all by simp
    then show ?thesis by (simp add: BaseName_def path_filename_def d)
  qed
qed

lemma ValidFileName_delta: "ValidFileName (DeltaFileName t g)"
proof -
  have "hd (DeltaFileName t g) = CHR ''d''" "length (DeltaFileName t g) > 2" by (simp_all add: DeltaFileName_def)
  then show ?thesis
    using DeltaFileName_chars(1,2) [of t g] path_filename_plain [OF DeltaFileName_chars(1)]
    by (auto simp: ValidFileName_def)
qed

lemma path_join_inj: "path_join dir a = path_join dir b \<longleftrightarrow> a = b"
  by (auto simp: path_join_def)

definition delta_path :: "string \<Rightarrow> PropertyDeltaTarget \<Rightarrow> u64 \<Rightarrow> string" where
  "delta_path dir t g = path_join dir (DeltaFileName t g)"

lemma delta_path_inj [simp]: "delta_path dir t g = delta_path dir t' g' \<longleftrightarrow> t = t' \<and> g = g'"
  by (simp add: delta_path_def path_join_inj)

lemma delta_path_suffix: "suffix ''.rgd'' (delta_path dir t g)"
  using DeltaFileName_chars(3) [of t g] by (auto simp: delta_path_def path_join_def suffix_def)

lemma temporary_not_delta: "temporary_name path pid gen \<noteq> delta_path dir t g"
proof
  assume "temporary_name path pid gen = delta_path dir t g"
  then have "suffix ''.rgd'' (temporary_name path pid gen)" using delta_path_suffix [of dir t g] by simp
  then have "last (temporary_name path pid gen) = CHR ''d''" by (auto simp: suffix_def)
  moreover have "last (temporary_name path pid gen) \<in> set (to_string (unat gen))"
    by (simp add: temporary_name_def last_in_set)
  ultimately show False by (simp add: to_string_no_char)
qed

subsection \<open>Chains\<close>

lemma FindChain_set_chain [simp]:
  "FindChain (set_chain t c st) t' = (if t' = t then Some c else FindChain st t')"
  by (simp add: FindChain_def set_chain_def update_conv')

lemma set_chain_fields [simp]:
  "ps_fs (set_chain t c st) = ps_fs st" "ps_directory (set_chain t c st) = ps_directory st"
  "ps_manifest (set_chain t c st) = ps_manifest st"
  "ps_next_file_generation (set_chain t c st) = ps_next_file_generation st"
  "ps_merge_threshold (set_chain t c st) = ps_merge_threshold st"
  "ps_jobs (set_chain t c st) = ps_jobs st" "ps_running_jobs (set_chain t c st) = ps_running_jobs st"
  "ps_durability (set_chain t c st) = ps_durability st"
  "ps_persistent_base_files (set_chain t c st) = ps_persistent_base_files st"
  "ps_background_error (set_chain t c st) = ps_background_error st"
  by (simp_all add: set_chain_def)

lemma FindChain_update [simp]:
  "FindChain (st\<lparr>ps_fs := fs\<rparr>) t = FindChain st t" "FindChain (st\<lparr>ps_manifest := m\<rparr>) t = FindChain st t"
  "FindChain (st\<lparr>ps_next_file_generation := g\<rparr>) t = FindChain st t"
  "FindChain (st\<lparr>ps_jobs := js\<rparr>) t = FindChain st t" "FindChain (st\<lparr>ps_running_jobs := n\<rparr>) t = FindChain st t"
  "FindChain (st\<lparr>ps_merges_started := a\<rparr>) t = FindChain st t"
  "FindChain (st\<lparr>ps_merges_completed := a\<rparr>) t = FindChain st t"
  "FindChain (st\<lparr>ps_merge_failures := a\<rparr>) t = FindChain st t"
  "FindChain (st\<lparr>ps_background_error := b\<rparr>) t = FindChain st t"
  "FindChain (st\<lparr>ps_persistent_base_files := ids\<rparr>) t = FindChain st t"
  "FindChain (st\<lparr>ps_files_created := a\<rparr>) t = FindChain st t"
  "FindChain (st\<lparr>ps_records_written := a\<rparr>) t = FindChain st t"
  "FindChain (st\<lparr>ps_bytes_written := a\<rparr>) t = FindChain st t"
  "FindChain (st\<lparr>ps_maximum_commit_sequence := a\<rparr>) t = FindChain st t"
  "FindChain (st\<lparr>ps_files_recovered := a\<rparr>) t = FindChain st t"
  by (simp_all add: FindChain_def)

definition chain_files :: "PropertyDeltaStore \<Rightarrow> PropertyDeltaTarget \<Rightarrow> PropertyDeltaFile list" where
  "chain_files st t = (case FindChain st t of None \<Rightarrow> [] | Some c \<Rightarrow> v_deltas (c_read_view c))"

definition generation_of :: "PropertyDeltaFile \<Rightarrow> u64" where
  "generation_of f = m_file_generation (f_metadata f)"

definition merged_base_of :: "PropertyDeltaStore \<Rightarrow> PropertyDeltaTarget \<Rightarrow> MappedPropertyFile option" where
  "merged_base_of st t = (case FindChain st t of None \<Rightarrow> None | Some c \<Rightarrow> v_merged_base (c_read_view c))"

definition busy :: "PropertyDeltaStore \<Rightarrow> PropertyDeltaTarget \<Rightarrow> bool" where
  "busy st t = (case FindChain st t of None \<Rightarrow> False | Some c \<Rightarrow> c_merge_scheduled_or_running c)"

definition persistent :: "PropertyDeltaStore \<Rightarrow> PropertyDeltaTarget \<Rightarrow> bool" where
  "persistent st t = (case FindChain st t of None \<Rightarrow> False | Some c \<Rightarrow> c_target_is_persistent c)"

subsection \<open>Files in place\<close>

definition opens_to :: "file_system \<Rightarrow> string \<Rightarrow> PropertyDeltaFile \<Rightarrow> bool" where
  "opens_to fs path f \<longleftrightarrow> OpenAndValidate \<lparr>io_open = True, io_fstat = True, io_mmap = True\<rparr> fs path = Inr f"

definition file_placed :: "PropertyDeltaStore \<Rightarrow> PropertyDeltaTarget \<Rightarrow> PropertyDeltaFile \<Rightarrow> bool" where
  "file_placed st t f \<longleftrightarrow> delta_file_ok f \<and> m_target (f_metadata f) = t \<and>
     f_path f = delta_path (ps_directory st) t (generation_of f) \<and> opens_to (ps_fs st) (f_path f) f \<and>
     generation_of f < ps_next_file_generation st"

lemma OpenAndValidate_cong: "fs path = fs' path \<Longrightarrow> OpenAndValidate io fs path = OpenAndValidate io fs' path"
  by (simp add: OpenAndValidate_def)

lemma opens_to_cong: "opens_to fs path f \<Longrightarrow> fs' path = fs path \<Longrightarrow> opens_to fs' path f"
  unfolding opens_to_def by (subst OpenAndValidate_cong [of fs' path fs])

lemma file_placed_frame:
  assumes "file_placed st t f" "ps_directory st' = ps_directory st" "ps_fs st' (f_path f) = ps_fs st (f_path f)"
    "ps_next_file_generation st \<le> ps_next_file_generation st'"
  shows "file_placed st' t f"
  using assms opens_to_cong [of "ps_fs st" "f_path f" f "ps_fs st'"]
  by (auto simp: file_placed_def intro: less_le_trans)

lemma chain_files_set_chain [simp]:
  "chain_files (set_chain t c st) t' = (if t' = t then v_deltas (c_read_view c) else chain_files st t')"
  by (simp add: chain_files_def)

lemma chain_files_update [simp]:
  "chain_files (st\<lparr>ps_fs := fs\<rparr>) = chain_files st" "chain_files (st\<lparr>ps_manifest := m\<rparr>) = chain_files st"
  "chain_files (st\<lparr>ps_next_file_generation := g\<rparr>) = chain_files st"
  "chain_files (st\<lparr>ps_jobs := js\<rparr>) = chain_files st" "chain_files (st\<lparr>ps_running_jobs := n\<rparr>) = chain_files st"
  "chain_files (st\<lparr>ps_merges_started := a\<rparr>) = chain_files st"
  "chain_files (st\<lparr>ps_merges_completed := a\<rparr>) = chain_files st"
  "chain_files (st\<lparr>ps_merge_failures := a\<rparr>) = chain_files st"
  "chain_files (st\<lparr>ps_background_error := b\<rparr>) = chain_files st"
  "chain_files (st\<lparr>ps_persistent_base_files := ids\<rparr>) = chain_files st"
  "chain_files (st\<lparr>ps_files_created := a\<rparr>) = chain_files st"
  "chain_files (st\<lparr>ps_records_written := a\<rparr>) = chain_files st"
  "chain_files (st\<lparr>ps_bytes_written := a\<rparr>) = chain_files st"
  "chain_files (st\<lparr>ps_maximum_commit_sequence := a\<rparr>) = chain_files st"
  "chain_files (st\<lparr>ps_files_recovered := a\<rparr>) = chain_files st"
  by (simp_all add: chain_files_def fun_eq_iff)

lemma chain_state_set_chain [simp]:
  "merged_base_of (set_chain t c st) t' = (if t' = t then v_merged_base (c_read_view c) else merged_base_of st t')"
  "busy (set_chain t c st) t' = (if t' = t then c_merge_scheduled_or_running c else busy st t')"
  "persistent (set_chain t c st) t' = (if t' = t then c_target_is_persistent c else persistent st t')"
  by (simp_all add: merged_base_of_def busy_def persistent_def)

lemma chain_state_cong:
  "FindChain st' = FindChain st \<Longrightarrow>
   chain_files st' = chain_files st \<and> merged_base_of st' = merged_base_of st \<and> busy st' = busy st"
  by (auto simp: chain_files_def merged_base_of_def busy_def fun_eq_iff)

subsection \<open>Attach\<close>

definition chain_or_empty :: "PropertyDeltaStore \<Rightarrow> PropertyDeltaTarget \<Rightarrow> Chain" where
  "chain_or_empty st t = (case FindChain st t of Some c \<Rightarrow> c | None \<Rightarrow> empty_chain)"

lemma chain_or_empty_files [simp]: "v_deltas (c_read_view (chain_or_empty st t)) = chain_files st t"
  by (simp add: chain_or_empty_def chain_files_def empty_chain_def split: option.splits)

lemma GetOrCreateChain_eq:
  "GetOrCreateChain st t p =
     (let c = (if p \<or> t_base_file_id t \<in> set (ps_persistent_base_files st)
               then (chain_or_empty st t)\<lparr>c_target_is_persistent := True\<rparr> else chain_or_empty st t)
      in (set_chain t c st, c))"
  by (simp add: GetOrCreateChain_def chain_or_empty_def Let_def)

lemma GetOrCreateChain_set:
  "\<exists>c. GetOrCreateChain st t p = (set_chain t c st, c) \<and> c_read_view c = c_read_view (chain_or_empty st t) \<and>
     c_merge_scheduled_or_running c = c_merge_scheduled_or_running (chain_or_empty st t) \<and>
     (c_target_is_persistent (chain_or_empty st t) \<longrightarrow> c_target_is_persistent c)"
  by (simp add: GetOrCreateChain_eq Let_def)

lemma attach_prepare_cases:
  assumes "attach_prepare io pid st t rs p = Some (st', res)" "rs \<noteq> []"
  obtains c fs r where
    "st' = (set_chain t c st)\<lparr>ps_next_file_generation := ps_next_file_generation st + 1, ps_fs := fs\<rparr>"
    "c_read_view c = c_read_view (chain_or_empty st t)"
    "c_merge_scheduled_or_running c = c_merge_scheduled_or_running (chain_or_empty st t)"
    "c_target_is_persistent (chain_or_empty st t) \<Longrightarrow> c_target_is_persistent c"
    "Create io pid (ps_fs st) (delta_path (ps_directory st) t (ps_next_file_generation st)) t
       (ps_next_file_generation st) rs (ps_durability st) = Some (fs, r)"
    "res = (case r of Inl e \<Rightarrow> Inl (DeltaFailed e) | Inr f \<Rightarrow> Inr f)"
proof -
  obtain c where c: "GetOrCreateChain st t p = (set_chain t c st, c)"
    "c_read_view c = c_read_view (chain_or_empty st t)"
    "c_merge_scheduled_or_running c = c_merge_scheduled_or_running (chain_or_empty st t)"
    "c_target_is_persistent (chain_or_empty st t) \<Longrightarrow> c_target_is_persistent c"
    using GetOrCreateChain_set [of st t p] by auto
  have upd: "(set_chain t c st)\<lparr>ps_next_file_generation := g, ps_fs := fs\<rparr> =
      (set_chain t c st)\<lparr>ps_next_file_generation := g\<rparr>\<lparr>ps_fs := fs\<rparr>" for g fs by simp
  obtain fs r where r: "Create io pid (ps_fs st) (delta_path (ps_directory st) t (ps_next_file_generation st)) t
       (ps_next_file_generation st) rs (ps_durability st) = Some (fs, r)"
    using assms c(1) by (auto simp: attach_prepare_def delta_path_def Let_def split: option.splits)
  show ?thesis
    by (rule that [OF _ c(2-4) r])
      (use assms c(1) r in \<open>auto simp: attach_prepare_def delta_path_def Let_def split: sum.splits\<close>)
qed

text \<open>The paths of the delta directory that hold delta files or their temporaries.\<close>

definition delta_related :: "string \<Rightarrow> string \<Rightarrow> bool" where
  "delta_related dir q \<longleftrightarrow> (\<exists>t g. q = delta_path dir t g \<or> (\<exists>pid g'. q = temporary_name (delta_path dir t g) pid g'))"

lemma chain_or_empty_state [simp]:
  "v_merged_base (c_read_view (chain_or_empty st t)) = merged_base_of st t"
  "c_merge_scheduled_or_running (chain_or_empty st t) = busy st t"
  "c_target_is_persistent (chain_or_empty st t) = persistent st t"
  by (simp_all add: chain_or_empty_def merged_base_of_def busy_def persistent_def empty_chain_def split: option.splits)

lemma chain_state_update [simp]:
  "merged_base_of (st\<lparr>ps_fs := fs\<rparr>) = merged_base_of st" "busy (st\<lparr>ps_fs := fs\<rparr>) = busy st"
  "merged_base_of (st\<lparr>ps_manifest := m\<rparr>) = merged_base_of st" "busy (st\<lparr>ps_manifest := m\<rparr>) = busy st"
  "merged_base_of (st\<lparr>ps_next_file_generation := g\<rparr>) = merged_base_of st"
  "busy (st\<lparr>ps_next_file_generation := g\<rparr>) = busy st"
  "merged_base_of (st\<lparr>ps_jobs := js\<rparr>) = merged_base_of st" "busy (st\<lparr>ps_jobs := js\<rparr>) = busy st"
  "merged_base_of (st\<lparr>ps_running_jobs := n\<rparr>) = merged_base_of st" "busy (st\<lparr>ps_running_jobs := n\<rparr>) = busy st"
  "merged_base_of (st\<lparr>ps_merges_started := a\<rparr>) = merged_base_of st" "busy (st\<lparr>ps_merges_started := a\<rparr>) = busy st"
  "merged_base_of (st\<lparr>ps_merges_completed := a\<rparr>) = merged_base_of st"
  "busy (st\<lparr>ps_merges_completed := a\<rparr>) = busy st"
  "merged_base_of (st\<lparr>ps_merge_failures := a\<rparr>) = merged_base_of st" "busy (st\<lparr>ps_merge_failures := a\<rparr>) = busy st"
  "merged_base_of (st\<lparr>ps_background_error := b\<rparr>) = merged_base_of st"
  "busy (st\<lparr>ps_background_error := b\<rparr>) = busy st"
  "merged_base_of (st\<lparr>ps_persistent_base_files := ids\<rparr>) = merged_base_of st"
  "busy (st\<lparr>ps_persistent_base_files := ids\<rparr>) = busy st"
  "merged_base_of (st\<lparr>ps_files_created := a\<rparr>) = merged_base_of st" "busy (st\<lparr>ps_files_created := a\<rparr>) = busy st"
  "merged_base_of (st\<lparr>ps_records_written := a\<rparr>) = merged_base_of st" "busy (st\<lparr>ps_records_written := a\<rparr>) = busy st"
  "merged_base_of (st\<lparr>ps_bytes_written := a\<rparr>) = merged_base_of st" "busy (st\<lparr>ps_bytes_written := a\<rparr>) = busy st"
  "merged_base_of (st\<lparr>ps_maximum_commit_sequence := a\<rparr>) = merged_base_of st"
  "merged_base_of (st\<lparr>ps_files_recovered := a\<rparr>) = merged_base_of st" "busy (st\<lparr>ps_files_recovered := a\<rparr>) = busy st"
  "persistent (st\<lparr>ps_files_recovered := a\<rparr>) = persistent st"
  "busy (st\<lparr>ps_maximum_commit_sequence := a\<rparr>) = busy st"
  "persistent (st\<lparr>ps_fs := fs\<rparr>) = persistent st"
  "persistent (st\<lparr>ps_manifest := m\<rparr>) = persistent st"
  "persistent (st\<lparr>ps_next_file_generation := g\<rparr>) = persistent st"
  "persistent (st\<lparr>ps_jobs := js\<rparr>) = persistent st"
  "persistent (st\<lparr>ps_running_jobs := n\<rparr>) = persistent st"
  "persistent (st\<lparr>ps_merges_started := a\<rparr>) = persistent st"
  "persistent (st\<lparr>ps_merges_completed := a\<rparr>) = persistent st"
  "persistent (st\<lparr>ps_merge_failures := a\<rparr>) = persistent st"
  "persistent (st\<lparr>ps_background_error := b\<rparr>) = persistent st"
  "persistent (st\<lparr>ps_persistent_base_files := ids\<rparr>) = persistent st"
  "persistent (st\<lparr>ps_files_created := a\<rparr>) = persistent st"
  "persistent (st\<lparr>ps_records_written := a\<rparr>) = persistent st"
  "persistent (st\<lparr>ps_bytes_written := a\<rparr>) = persistent st"
  "persistent (st\<lparr>ps_maximum_commit_sequence := a\<rparr>) = persistent st"
  by (simp_all add: merged_base_of_def busy_def persistent_def fun_eq_iff)

lemma attach_prepare_summary:
  assumes "attach_prepare io pid st t rs p = Some (st', res)" "image_size (prepare_records rs) < 2 ^ 64"
  shows "chain_files st' = chain_files st \<and> merged_base_of st' = merged_base_of st \<and> busy st' = busy st \<and>
    ps_directory st' = ps_directory st \<and> ps_manifest st' = ps_manifest st \<and> ps_jobs st' = ps_jobs st \<and>
    ps_merge_threshold st' = ps_merge_threshold st \<and>
    (\<forall>t'. persistent st t' \<longrightarrow> persistent st' t') \<and>
    (ps_next_file_generation st' = ps_next_file_generation st \<or>
     ps_next_file_generation st' = ps_next_file_generation st + 1) \<and>
    (\<forall>q. q \<noteq> delta_path (ps_directory st) t (ps_next_file_generation st) \<and>
       q \<noteq> temporary_name (delta_path (ps_directory st) t (ps_next_file_generation st)) pid (ps_next_file_generation st) \<longrightarrow>
       ps_fs st' q = ps_fs st q) \<and>
    (\<forall>f. res = Inr f \<longrightarrow> f = created_file (delta_path (ps_directory st) t (ps_next_file_generation st)) t
           (ps_next_file_generation st) (prepare_records rs) \<and> values_fit (prepare_records rs) \<and>
       ps_next_file_generation st' = ps_next_file_generation st + 1 \<and> ps_fs st' (f_path f) = Some (f_mapping f))"
proof (cases "rs = []")
  case True
  with assms(1) show ?thesis by (auto simp: attach_prepare_def)
next
  case False
  from attach_prepare_cases [OF assms(1) False] obtain c fs r where st':
    "st' = (set_chain t c st)\<lparr>ps_next_file_generation := ps_next_file_generation st + 1, ps_fs := fs\<rparr>"
    and view: "c_read_view c = c_read_view (chain_or_empty st t)"
    and b: "c_merge_scheduled_or_running c = c_merge_scheduled_or_running (chain_or_empty st t)"
    and pers: "persistent st t \<Longrightarrow> c_target_is_persistent c"
    and create: "Create io pid (ps_fs st) (delta_path (ps_directory st) t (ps_next_file_generation st)) t
       (ps_next_file_generation st) rs (ps_durability st) = Some (fs, r)"
    and res: "res = (case r of Inl e \<Rightarrow> Inl (DeltaFailed e) | Inr f \<Rightarrow> Inr f)"
    by (metis chain_or_empty_state(3))
  have inr: "r = Inr f" if "res = Inr f" for f using res that by (auto split: sum.splits)
  have chains: "chain_files st' = chain_files st" "merged_base_of st' = merged_base_of st" "busy st' = busy st"
    by (simp_all add: st' view b fun_eq_iff)
  have created: "f = created_file (delta_path (ps_directory st) t (ps_next_file_generation st)) t
      (ps_next_file_generation st) (prepare_records rs) \<and> values_fit (prepare_records rs) \<and>
      fs (f_path f) = Some (f_mapping f)" if "res = Inr f" for f
    using Create_Inr [OF _ assms(2)] create inr [OF that] by fastforce
  have frame: "fs q = ps_fs st q" if "q \<noteq> delta_path (ps_directory st) t (ps_next_file_generation st)"
      "q \<noteq> temporary_name (delta_path (ps_directory st) t (ps_next_file_generation st)) pid (ps_next_file_generation st)" for q
    using Create_cases [OF create assms(2)] that by blast
  show ?thesis using chains created frame pers by (simp add: st')
qed

end
