(* ===== verification/DeltaRun.thy ===== *)
theory DeltaRun
  imports DeltaStore
begin

text \<open>
  The delta store while its threads interleave: one thread attaches batches, one marks targets
  persistent, and the worker merges chains in phases (capture, build the column, log the removal,
  publish), as the mutexes of \<^verbatim>\<open>src/property_delta_store.cpp\<close> let them. Every reachable state satisfies
  an invariant from which follow: a merge never finds its chain changed, readers always see the last
  committed value of a key, and a crash at any point loses none of them.
\<close>

section \<open>Definitions\<close>

datatype merge_worker =
    WorkerIdle
  | WorkerCaptured PropertyDeltaTarget "MappedPropertyFile option" "PropertyDeltaFile list" u64
  | WorkerBuilt PropertyDeltaTarget "PropertyDeltaFile list" MappedPropertyFile u64
  | WorkerRemoved PropertyDeltaTarget "PropertyDeltaFile list" MappedPropertyFile u64

text \<open>The log of committed records and the health flag (no append to the manifest has failed) are
  auxiliary: no step depends on them but for the order of commits.\<close>

record store_run =
  run_store :: PropertyDeltaStore
  run_attaching :: "(PropertyDeltaTarget \<times> PropertyDeltaFile) option"
  run_worker :: merge_worker
  run_log :: "PropertyDeltaTarget \<Rightarrow> PropertyDeltaRecord list"
  run_healthy :: bool

definition files_records :: "PropertyDeltaFile list \<Rightarrow> PropertyDeltaRecord list" where
  "files_records fs = concat (map file_records fs)"

definition counters_ok :: "PropertyDeltaStore \<Rightarrow> bool" where
  "counters_ok st \<longleftrightarrow> unat (ps_next_file_generation st) + 1 < 2 ^ 64 \<and>
     unat (mf_next_edit_sequence (ps_manifest st)) + 2 < 2 ^ 64"

definition job_done :: "PropertyDeltaStore \<Rightarrow> PropertyDeltaStore" where
  "job_done st = st\<lparr>ps_running_jobs := ps_running_jobs st - 1\<rparr>"

definition batch_names :: "PropertyDeltaFile list \<Rightarrow> string list" where
  "batch_names batch = map (\<lambda>f. BaseName (f_path f)) batch"

inductive run_step ::
  "('io \<Rightarrow> merge_callback) \<Rightarrow> (PropertyDeltaTarget \<Rightarrow> bool) \<Rightarrow> (PropertyDeltaTarget \<Rightarrow> PropertyDeltaRecord \<Rightarrow> bool) \<Rightarrow>
   store_run \<Rightarrow> store_run \<Rightarrow> bool"
  for merge valid fits where
  prepare: "run_step merge valid fits r (r\<lparr>run_store := st', run_attaching := Some (t, f)\<rparr>)"
    if "run_attaching r = None" "valid t" "list_all (fits t) recs" "image_size (prepare_records recs) < 2 ^ 64"
      "counters_ok (run_store r)" "attach_prepare io pid (run_store r) t recs p = Some (st', Inr f)"
| prepare_failed: "run_step merge valid fits r (r\<lparr>run_store := st'\<rparr>)"
    if "run_attaching r = None" "valid t" "image_size (prepare_records recs) < 2 ^ 64"
      "counters_ok (run_store r)" "attach_prepare io pid (run_store r) t recs p = Some (st', Inl e)"
| commit: "run_step merge valid fits r
      (r\<lparr>run_store := st', run_attaching := None, run_log := (run_log r)(t := run_log r t @ file_records f)\<rparr>)"
    if "run_attaching r = Some (t, f)" "commit_ordered (run_log r t @ file_records f)" "counters_ok (run_store r)"
      "attach_commit True io (run_store r) t f (generation_of f) = Some (st', None)"
| commit_failed: "run_step merge valid fits r (r\<lparr>run_store := st', run_attaching := None, run_healthy := False\<rparr>)"
    if "run_attaching r = Some (t, f)"
      "attach_commit True io (run_store r) t f (generation_of f) = Some (st', Some e)"
| persistent: "run_step merge valid fits r (r\<lparr>run_store := st', run_healthy := run_healthy r \<and> e = None\<rparr>)"
    if "unat (mf_next_edit_sequence (ps_manifest (run_store r))) + length (chain_files (run_store r) t) + 2 < 2 ^ 64"
      "MarkTargetPersistent True ios (run_store r) t = Some (st', e)"
| capture: "run_step merge valid fits r
      (r\<lparr>run_store := (run_store r)\<lparr>ps_jobs := jobs, ps_running_jobs := ps_running_jobs (run_store r) + 1,
            ps_next_file_generation := ps_next_file_generation (run_store r) + 1\<rparr>,
         run_worker := WorkerCaptured t base batch (ps_next_file_generation (run_store r))\<rparr>)"
    if "run_worker r = WorkerIdle" "ps_jobs (run_store r) = t # jobs" "FindChain (run_store r) t = Some c"
      "counters_ok (run_store r)" "merge_capture (run_store r) c False = Some (base, batch)"
| skip: "run_step merge valid fits r (r\<lparr>run_store := clear_busy ((run_store r)\<lparr>ps_jobs := jobs\<rparr>) t c\<rparr>)"
    if "run_worker r = WorkerIdle" "ps_jobs (run_store r) = t # jobs" "FindChain (run_store r) t = Some c"
      "merge_capture (run_store r) c False = None"
| build: "run_step merge valid fits r
      (r\<lparr>run_store := (run_store r)\<lparr>ps_fs := fs\<rparr>, run_worker := WorkerBuilt t batch m g\<rparr>)"
    if "run_worker r = WorkerCaptured t base batch g"
      "merge io (ps_fs (run_store r)) t base batch g = (fs, Inr m)"
| build_failed: "run_step merge valid fits r
      (r\<lparr>run_store := job_done (merge_failed ((run_store r)\<lparr>ps_fs := fs\<rparr>) t (MergeFailed e)),
         run_worker := WorkerIdle\<rparr>)"
    if "run_worker r = WorkerCaptured t base batch g"
      "merge io (ps_fs (run_store r)) t base batch g = (fs, Inl e)"
| remove: "run_step merge valid fits r
      (r\<lparr>run_store := (run_store r)\<lparr>ps_manifest := manifest\<rparr>, run_worker := WorkerRemoved t batch m g\<rparr>)"
    if "run_worker r = WorkerBuilt t batch m g" "counters_ok (run_store r)"
      "length (EncodeRemove (batch_names batch)) \<le> 2 ^ 30"
      "AppendRemove aio (ps_manifest (run_store r)) (batch_names batch) = Some (manifest, None)"
| remove_failed: "run_step merge valid fits r
      (r\<lparr>run_store := job_done (merge_failed ((run_store r)\<lparr>ps_manifest := manifest\<rparr>) t (ManifestFailed e)),
         run_worker := WorkerIdle, run_healthy := False\<rparr>)"
    if "run_worker r = WorkerBuilt t batch m g"
      "AppendRemove aio (ps_manifest (run_store r)) (batch_names batch) = Some (manifest, Some e)"
| publish: "run_step merge valid fits r (r\<lparr>run_store := job_done st', run_worker := WorkerIdle\<rparr>)"
    if "run_worker r = WorkerRemoved t batch m g" "FindChain (run_store r) t = Some c"
      "merge_publish (run_store r) t c batch m g False = (st', None)"
| publish_failed: "run_step merge valid fits r
      (r\<lparr>run_store := job_done (merge_failed st' t e), run_worker := WorkerIdle, run_healthy := False\<rparr>)"
    if "run_worker r = WorkerRemoved t batch m g" "FindChain (run_store r) t = Some c"
      "merge_publish (run_store r) t c batch m g False = (st', Some e)"

section \<open>Lemmas\<close>

subsection \<open>The operations, as changes of the chains\<close>

lemma attach_commit_done:
  assumes "attach_commit True io st t f g = Some (st', None)"
  obtains manifest sched where
    "AppendAdd io (ps_manifest st) \<lparr>e_file_name = DeltaFileName t g, e_metadata = f_metadata f,
       e_target_is_persistent = persistent st t\<rparr> = Some (manifest, None)"
    "persistent st' = persistent st" "ps_manifest st' = manifest" "ps_fs st' = ps_fs st" "ps_directory st' = ps_directory st"
    "ps_next_file_generation st' = ps_next_file_generation st" "ps_merge_threshold st' = ps_merge_threshold st"
    "chain_files st' = (chain_files st)(t := chain_files st t @ [f])" "merged_base_of st' = merged_base_of st"
    "\<not> (sched \<and> busy st t)" "busy st' = (busy st)(t := busy st t \<or> sched)"
    "ps_jobs st' = (if sched then ps_jobs st @ [t] else ps_jobs st)"
proof -
  let ?c = "chain_or_empty st t"
  obtain manifest where m: "AppendAdd io (ps_manifest st) \<lparr>e_file_name = DeltaFileName t g, e_metadata = f_metadata f,
       e_target_is_persistent = persistent st t\<rparr> = Some (manifest, None)"
    and st': "st' = publish_attached True (st\<lparr>ps_manifest := manifest\<rparr>) t ?c f g"
    using assms by (auto simp: attach_commit_def Let_def chain_or_empty_def [symmetric] split: option.splits)
  define sched where "sched = (persistent st t \<and> \<not> busy st t \<and>
      length (chain_files st t) + 1 \<ge> unat (ps_merge_threshold st))"
  show ?thesis
    by (rule that [OF m, where sched = sched])
      (auto simp: st' publish_attached_def Let_def ScheduleMerge_def sched_def fun_eq_iff)
qed

lemma attach_commit_failed:
  assumes "attach_commit True io st t f g = Some (st', Some e)"
  obtains manifest e' entry where
    "AppendAdd io (ps_manifest st) entry = Some (manifest, Some e')"
    "st' = st\<lparr>ps_fs := destroy_file (ps_fs st) (f\<lparr>f_obsolete := True\<rparr>), ps_manifest := manifest\<rparr>"
  using assms
  by (auto simp: attach_commit_def Let_def split: option.splits)

lemma AppendRecord_entries:
  "AppendRecord io m ty payload = Some (m', e) \<Longrightarrow> mf_active_entries m' = mf_active_entries m"
  by (auto simp: AppendRecord_def Let_def split: if_splits option.splits prod.splits)

lemma AppendAdd_failed: "AppendAdd io m entry = Some (m', Some e) \<Longrightarrow> ActiveEntries m' = ActiveEntries m"
  by (auto simp: AppendAdd_def ActiveEntries_def dest: AppendRecord_entries split: if_splits option.splits)

lemma AppendAdd_done: "AppendAdd io m entry = Some (m', None) \<Longrightarrow> ActiveEntries m' = ApplyAdd (ActiveEntries m) entry"
  using append_edit_done [of io m "EditAdd entry" m'] by (auto simp: ActiveEntries_def)

lemma AppendRemove_failed: "AppendRemove io m names = Some (m', Some e) \<Longrightarrow> ActiveEntries m' = ActiveEntries m"
  by (auto simp: AppendRemove_def ActiveEntries_def dest: AppendRecord_entries split: if_splits option.splits)

lemma AppendRemove_done:
  "AppendRemove io m names = Some (m', None) \<Longrightarrow> ActiveEntries m' = ApplyRemove (ActiveEntries m) names"
  using append_edit_done [of io m "EditRemove names" m'] by (auto simp: ActiveEntries_def ApplyRemove_def)

lemma MarkTargetPersistent_cases:
  assumes "MarkTargetPersistent True ios st t = Some (st', e)"
  obtains sched where
    "ps_manifest st' = ps_manifest st \<and> e = None \<or> \<not> persistent st t \<and>
     (\<exists>ios' me. append_persistent ios' (ps_manifest st) (chain_files st t) = Some (ps_manifest st', me) \<and> (e = None \<longleftrightarrow> me = None))"
    "\<forall>t'. persistent st t' \<longrightarrow> persistent st' t'" "ps_fs st' = ps_fs st" "ps_directory st' = ps_directory st"
    "ps_next_file_generation st' = ps_next_file_generation st"
    "chain_files st' = chain_files st" "merged_base_of st' = merged_base_of st"
    "\<not> (sched \<and> busy st t)" "busy st' = (busy st)(t := busy st t \<or> sched)"
    "ps_jobs st' = (if sched then ps_jobs st @ [t] else ps_jobs st)"
proof (cases "FindChain st t")
  case None
  then show ?thesis
    by (intro that [of False]) (use assms None in \<open>auto simp: MarkTargetPersistent_def Let_def fun_eq_iff busy_def persistent_def\<close>)
next
  case (Some c)
  have files: "v_deltas (c_read_view c) = chain_files st t" "v_merged_base (c_read_view c) = merged_base_of st t"
    "c_merge_scheduled_or_running c = busy st t"
    "c_target_is_persistent c = persistent st t"
    using Some by (simp_all add: chain_files_def merged_base_of_def busy_def persistent_def)
  obtain manifest me where m: "(if persistent st t then Some (ps_manifest st, None)
        else append_persistent ios (ps_manifest st) (chain_files st t)) = Some (manifest, me)"
    using assms Some by (auto simp: MarkTargetPersistent_def Let_def files split: option.splits if_splits)
  define sched where "sched = (me = None \<and> \<not> busy st t \<and> length (chain_files st t) \<ge> unat (ps_merge_threshold st))"
  have st': "me = None \<Longrightarrow> e = None \<and> st' = (let st2 = set_chain t (c\<lparr>c_target_is_persistent := True,
         c_merge_scheduled_or_running := busy st t \<or> sched\<rparr>)
         (st\<lparr>ps_persistent_base_files := List.insert (t_base_file_id t) (ps_persistent_base_files st), ps_manifest := manifest\<rparr>)
       in if sched then ScheduleMerge st2 t else st2)"
    "me \<noteq> None \<Longrightarrow> e \<noteq> None \<and> st' = RecordBackgroundError
       (st\<lparr>ps_persistent_base_files := List.insert (t_base_file_id t) (ps_persistent_base_files st), ps_manifest := manifest\<rparr>)
       (ManifestFailed (the me))"
    using assms Some m
    by (auto simp: MarkTargetPersistent_def Let_def files sched_def split: if_splits option.splits)
  show ?thesis
  proof (cases "me = None")
    case True
    show ?thesis
      by (rule that [of sched])
        (use st'(1) [OF True] True m files in
          \<open>auto simp: Let_def sched_def ScheduleMerge_def fun_eq_iff split: if_splits\<close>)
  next
    case False
    show ?thesis
      by (rule that [of False])
        (use st'(2) [OF False] False m files in
          \<open>auto simp: RecordBackgroundError_def fun_eq_iff split: if_splits\<close>)
  qed
qed

lemma merge_publish_done:
  assumes "merge_publish st t c batch m g False = (st', None)" "FindChain st t = Some c"
  obtains sched where
    "take (length batch) (chain_files st t) = batch" "length batch \<le> length (chain_files st t)"
    "ps_fs st' = foldl destroy_file (ps_fs st) (map (\<lambda>f. f\<lparr>f_obsolete := True\<rparr>) batch)"
    "ps_manifest st' = ps_manifest st" "ps_directory st' = ps_directory st"
    "ps_next_file_generation st' = ps_next_file_generation st"
    "chain_files st' = (chain_files st)(t := drop (length batch) (chain_files st t))"
    "merged_base_of st' = (merged_base_of st)(t := Some m)"
    "persistent st' = persistent st" "busy st' = (busy st)(t := sched)" "ps_jobs st' = (if sched then ps_jobs st @ [t] else ps_jobs st)"
proof -
  have files: "v_deltas (c_read_view c) = chain_files st t" "c_target_is_persistent c = persistent st t"
    using assms(2) by (simp_all add: chain_files_def persistent_def)
  define sched where "sched = (c_target_is_persistent c \<and>
      length (chain_files st t) - length batch \<ge> unat (ps_merge_threshold st))"
  show ?thesis
    by (rule that [of sched])
      (use assms files in \<open>auto simp: merge_publish_def Let_def ScheduleMerge_def sched_def fun_eq_iff split: if_splits\<close>)
qed

lemma merge_publish_failed:
  "merge_publish st t c batch m g b = (st', Some e) \<Longrightarrow>
   st' = st \<and> (length (v_deltas (c_read_view c)) < length batch \<or> take (length batch) (v_deltas (c_read_view c)) \<noteq> batch)"
  by (auto simp: merge_publish_def Let_def split: if_splits)

lemma merge_failed_state [simp]:
  "ps_fs (merge_failed st t e) = ps_fs st" "ps_manifest (merge_failed st t e) = ps_manifest st"
  "ps_directory (merge_failed st t e) = ps_directory st"
  "ps_next_file_generation (merge_failed st t e) = ps_next_file_generation st"
  "ps_jobs (merge_failed st t e) = ps_jobs st" "chain_files (merge_failed st t e) = chain_files st"
  "merged_base_of (merge_failed st t e) = merged_base_of st" "busy (merge_failed st t e) = (busy st)(t := False)"
  "persistent (merge_failed st t e) = persistent st"
  by (auto simp: merge_failed_def Let_def RecordBackgroundError_def clear_busy_def fun_eq_iff
      chain_files_def merged_base_of_def busy_def persistent_def split: option.splits)

lemma clear_busy_state [simp]:
  assumes "FindChain st t = Some c"
  shows "ps_fs (clear_busy st t c) = ps_fs st" "ps_manifest (clear_busy st t c) = ps_manifest st"
    "ps_directory (clear_busy st t c) = ps_directory st"
    "ps_next_file_generation (clear_busy st t c) = ps_next_file_generation st"
    "ps_jobs (clear_busy st t c) = ps_jobs st" "chain_files (clear_busy st t c) = chain_files st"
    "merged_base_of (clear_busy st t c) = merged_base_of st" "busy (clear_busy st t c) = (busy st)(t := False)"
    "persistent (clear_busy st t c) = persistent st"
  using assms by (auto simp: clear_busy_def fun_eq_iff chain_files_def merged_base_of_def busy_def persistent_def)

lemma job_done_state [simp]:
  "ps_fs (job_done st) = ps_fs st" "ps_manifest (job_done st) = ps_manifest st"
  "ps_directory (job_done st) = ps_directory st" "ps_next_file_generation (job_done st) = ps_next_file_generation st"
  "ps_jobs (job_done st) = ps_jobs st" "chain_files (job_done st) = chain_files st"
  "merged_base_of (job_done st) = merged_base_of st" "busy (job_done st) = busy st" "persistent (job_done st) = persistent st"
  by (simp_all add: job_done_def)

subsection \<open>The manifest names the files\<close>

definition named :: "(PropertyDeltaTarget \<Rightarrow> PropertyDeltaFile list) \<Rightarrow> string \<Rightarrow> PropertyDeltaFileMetadata \<Rightarrow> bool" where
  "named files name md \<longleftrightarrow>
     (\<exists>t f. f \<in> set (files t) \<and> name = DeltaFileName t (generation_of f) \<and> md = f_metadata f)"

definition manifest_agrees :: "PropertyDeltaManifest \<Rightarrow> (PropertyDeltaTarget \<Rightarrow> PropertyDeltaFile list) \<Rightarrow> bool" where
  "manifest_agrees m files \<longleftrightarrow> distinct (map e_file_name (ActiveEntries m)) \<and>
     (\<forall>name md. map_option e_metadata (entry_map (ActiveEntries m) name) = Some md \<longleftrightarrow> named files name md)"

lemma named_append:
  "named (files(t := files t @ [f])) name md \<longleftrightarrow>
   named files name md \<or> name = DeltaFileName t (generation_of f) \<and> md = f_metadata f"
proof -
  have "f' \<in> set ((files(t := files t @ [f])) t') \<longleftrightarrow> f' \<in> set (files t') \<or> t' = t \<and> f' = f" for t' f' by auto
  then show ?thesis unfolding named_def by blast
qed

lemma named_drop:
  assumes "files t = batch @ rest" "distinct (map generation_of (files t))"
  shows "named (files(t := rest)) name md \<longleftrightarrow>
    named files name md \<and> name \<notin> (\<lambda>f. DeltaFileName t (generation_of f)) ` set batch"
proof -
  have other: "generation_of f \<noteq> generation_of b" if "f \<in> set rest" "b \<in> set batch" for f b
    using assms that by (auto simp: image_iff)
  have "f' \<in> set ((files(t := rest)) t') \<and> name = DeltaFileName t' (generation_of f') \<longleftrightarrow>
      f' \<in> set (files t') \<and> name = DeltaFileName t' (generation_of f') \<and>
      name \<notin> (\<lambda>f. DeltaFileName t (generation_of f)) ` set batch" for t' f'
    using other assms(1) by (cases "t' = t") auto
  then show ?thesis unfolding named_def by blast
qed

lemma entry_map_ApplyAdd: "entry_map (ApplyAdd active e) = (entry_map active)(e_file_name e \<mapsto> e)"
  using entry_map_apply_edit [of active "EditAdd e"] by simp

lemma entry_map_ApplyRemove: "entry_map (ApplyRemove active ns) = entry_map active |` (- set ns)"
  using entry_map_apply_edit [of active "EditRemove ns"] by simp

lemma distinct_ApplyAdd:
  "distinct (map e_file_name active) \<Longrightarrow> distinct (map e_file_name (ApplyAdd active e))"
  using distinct_apply_edit [of active "EditAdd e"] by simp

lemma distinct_ApplyRemove:
  "distinct (map e_file_name active) \<Longrightarrow> distinct (map e_file_name (ApplyRemove active ns))"
  using distinct_apply_edit [of active "EditRemove ns"] by simp

text \<open>A new file under a new name, a file recorded again, and files removed.\<close>

lemma manifest_agrees_add:
  assumes "manifest_agrees m files" "ActiveEntries m' = ApplyAdd (ActiveEntries m) entry"
    "e_file_name entry = DeltaFileName t (generation_of f)" "e_metadata entry = f_metadata f"
    "\<And>f'. f' \<in> set (files t) \<Longrightarrow> generation_of f' \<noteq> generation_of f"
  shows "manifest_agrees m' (files(t := files t @ [f]))"
proof -
  have "\<not> named files (DeltaFileName t (generation_of f)) md" for md using assms(5) unfolding named_def by simp metis
  with assms show ?thesis
    by (auto simp: manifest_agrees_def distinct_ApplyAdd entry_map_ApplyAdd named_append)
qed

lemma manifest_agrees_again:
  assumes "manifest_agrees m files" "ActiveEntries m' = ApplyAdd (ActiveEntries m) entry" "f \<in> set (files t)"
    "e_file_name entry = DeltaFileName t (generation_of f)" "e_metadata entry = f_metadata f"
  shows "manifest_agrees m' files"
proof -
  have "map_option e_metadata (entry_map (ActiveEntries m) (e_file_name entry)) = Some (f_metadata f)"
    using assms unfolding manifest_agrees_def named_def by blast
  then have "map_option e_metadata (entry_map (ActiveEntries m') name) =
      map_option e_metadata (entry_map (ActiveEntries m) name)" for name
    using assms(2,5) by (simp add: entry_map_ApplyAdd del: map_option_eq_Some)
  with assms(1,2) show ?thesis by (simp add: manifest_agrees_def distinct_ApplyAdd del: map_option_eq_Some)
qed

lemma manifest_agrees_remove:
  assumes "manifest_agrees m files" "ActiveEntries m' = ApplyRemove (ActiveEntries m) names"
    "set names = (\<lambda>f. DeltaFileName t (generation_of f)) ` set batch" "distinct (map generation_of (files t))"
    "files t = batch @ rest"
  shows "manifest_agrees m' (files(t := rest))"
  using assms(1,2,3)
  by (auto simp: manifest_agrees_def distinct_ApplyRemove entry_map_ApplyRemove restrict_map_def
      named_drop [of files t batch rest, OF assms(5,4)])

subsection \<open>The log of the manifest\<close>

lemma length_to_string: "0 < k \<Longrightarrow> n < 10 ^ k \<Longrightarrow> length (to_string n) \<le> k"
proof (induction n arbitrary: k rule: to_string.induct)
  case (1 n)
  show ?case
  proof (cases "n < 10")
    case True
    then show ?thesis using "1.prems" by (simp add: to_string_short)
  next
    case False
    with "1.prems" obtain j where j: "k = Suc j" "0 < j" by (cases k; cases "k - 1") auto
    with "1.prems" False "1.IH" [of j] show ?thesis by (simp add: to_string_long less_mult_imp_div_less mult.commute)
  qed
qed

lemma length_DeltaFileName: "length (DeltaFileName t g) \<le> 1000"
proof -
  have s: "length (to_string (unat (w :: u32))) \<le> 20" for w
  proof -
    have "unat w < 2 ^ LENGTH(32)" by (rule unsigned_less)
    then show ?thesis by (intro length_to_string) simp_all
  qed
  have l: "length (to_string (unat (w :: u64))) \<le> 20" for w
  proof -
    have "unat w < 2 ^ LENGTH(64)" by (rule unsigned_less)
    then show ?thesis by (intro length_to_string) simp_all
  qed
  show ?thesis
    using s [of "t_shard_id t"] s [of "t_base_file_id t"] l [of "t_base_generation t"] s [of "t_property_id t"] l [of g]
    by (simp add: DeltaFileName_def)
qed

text \<open>A log that replays to the manifest's state, with room for more records.\<close>

definition log_ok :: "PropertyDeltaManifest \<Rightarrow> bool" where
  "log_ok m \<longleftrightarrow> (\<exists>es. manifest_inv m es)"

lemma log_ok_append:
  assumes "log_ok m" "append_edit io m e = Some (m', None)" "length (edit_payload e) \<le> 2 ^ 30"
    "unat (mf_next_edit_sequence m) + 1 < 2 ^ 64"
  shows "log_ok m' \<and> unat (mf_next_edit_sequence m') \<le> unat (mf_next_edit_sequence m) + 1"
proof -
  obtain es where es: "manifest_inv m es" using assms(1) by (auto simp: log_ok_def)
  then have n: "unat (mf_next_edit_sequence m) = length es + 1"
    by (simp add: manifest_inv_def unat_word_ariths unat_of_nat)
  from append_edit_inv [OF es assms(2,3)] n assms(4) have "log_ok m'" by (auto simp: log_ok_def)
  moreover have "unat (mf_next_edit_sequence m') \<le> unat (mf_next_edit_sequence m) + 1"
    using append_edit_done [OF assms(2)] by (auto simp: unat_word_ariths)
  ultimately show ?thesis ..
qed

lemma log_ok_add:
  assumes "log_ok m" "AppendAdd io m entry = Some (m', None)" "e_file_name entry = DeltaFileName t g"
    "unat (mf_next_edit_sequence m) + 1 < 2 ^ 64"
  shows "log_ok m' \<and> unat (mf_next_edit_sequence m') \<le> unat (mf_next_edit_sequence m) + 1"
  using log_ok_append [OF assms(1), of io "EditAdd entry" m'] assms(2-4) length_DeltaFileName [of t g]
  by (simp add: length_EncodeAdd add_payload_size_def)

lemma append_persistent_agrees:
  assumes "append_persistent ios m fs = Some (m', e)" "manifest_agrees m files" "set fs \<subseteq> set (files t)"
    "\<And>f. f \<in> set fs \<Longrightarrow> BaseName (f_path f) = DeltaFileName t (generation_of f)"
  shows "manifest_agrees m' files"
  using assms
proof (induction ios m fs rule: append_persistent.induct)
  case (3 io ios m f fs)
  let ?entry = "\<lparr>e_file_name = BaseName (f_path f), e_metadata = f_metadata f, e_target_is_persistent = True\<rparr>"
  obtain m1 e1 where m1: "AppendAdd io m ?entry = Some (m1, e1)"
    using "3.prems"(1) by (auto split: option.splits)
  show ?case
  proof (cases e1)
    case None
    then have "manifest_agrees m1 files"
      using manifest_agrees_again [OF "3.prems"(2) AppendAdd_done, of io ?entry m1 f t] m1 "3.prems"(3,4) by simp
    then show ?thesis using 3 m1 None by simp
  next
    case (Some x)
    then have "m' = m1" "ActiveEntries m1 = ActiveEntries m"
      using "3.prems"(1) m1 AppendAdd_failed [of io m ?entry m1 x] by simp_all
    then show ?thesis using "3.prems"(2) by (simp add: manifest_agrees_def)
  qed
qed simp_all

lemma append_persistent_log:
  assumes "append_persistent ios m fs = Some (m', None)" "log_ok m"
    "unat (mf_next_edit_sequence m) + length fs + 1 < 2 ^ 64"
    "\<And>f. f \<in> set fs \<Longrightarrow> BaseName (f_path f) = DeltaFileName t (generation_of f)"
  shows "log_ok m'"
  using assms
proof (induction ios m fs rule: append_persistent.induct)
  case (3 io ios m f fs)
  let ?entry = "\<lparr>e_file_name = BaseName (f_path f), e_metadata = f_metadata f, e_target_is_persistent = True\<rparr>"
  obtain m1 where m1: "AppendAdd io m ?entry = Some (m1, None)" "append_persistent ios m1 fs = Some (m', None)"
    using "3.prems"(1) by (auto split: option.splits)
  have "log_ok m1 \<and> unat (mf_next_edit_sequence m1) \<le> unat (mf_next_edit_sequence m) + 1"
    using log_ok_add [OF "3.prems"(2) m1(1), of t "generation_of f"] "3.prems"(3,4) by simp
  with 3 m1 show ?case by simp
qed simp_all

end
