(* ===== verification/DeltaRunInv.thy ===== *)
theory DeltaRunInv
  imports DeltaRun
begin

text \<open>
  What holds in every state the delta store can reach (\<^verbatim>\<open>src/property_delta_store.cpp\<close>): the shape of the
  chains, jobs and log; the values readers see; and what the column files hold, so that the store can be
  recovered after a crash. The merge callback enters through the interface \<open>column_merge\<close>.
\<close>

section \<open>The invariant\<close>

subsection \<open>Shape\<close>

definition files_ok :: "string \<Rightarrow> (PropertyDeltaTarget \<Rightarrow> bool) \<Rightarrow> store_run \<Rightarrow> bool" where
  "files_ok dir valid r \<longleftrightarrow> ps_directory (run_store r) = dir \<and>
     (\<forall>t. sorted_wrt (<) (map generation_of (chain_files (run_store r) t)) \<and>
          (\<forall>f \<in> set (chain_files (run_store r) t). valid t \<and> file_placed (run_store r) t f)) \<and>
     (\<forall>t f. run_attaching r = Some (t, f) \<longrightarrow> valid t \<and> file_placed (run_store r) t f \<and>
        (\<forall>f' \<in> set (chain_files (run_store r) t). generation_of f' < generation_of f))"

fun worker_batch :: "merge_worker \<Rightarrow> (PropertyDeltaTarget \<times> PropertyDeltaFile list) option" where
  "worker_batch WorkerIdle = None"
| "worker_batch (WorkerCaptured t base batch g) = Some (t, batch)"
| "worker_batch (WorkerBuilt t batch m g) = Some (t, batch)"
| "worker_batch (WorkerRemoved t batch m g) = Some (t, batch)"

definition jobs_ok :: "store_run \<Rightarrow> bool" where
  "jobs_ok r \<longleftrightarrow> distinct (ps_jobs (run_store r)) \<and> (\<forall>t \<in> set (ps_jobs (run_store r)). busy (run_store r) t) \<and>
     (\<forall>t batch. worker_batch (run_worker r) = Some (t, batch) \<longrightarrow>
        busy (run_store r) t \<and> t \<notin> set (ps_jobs (run_store r)) \<and> chain_files (run_store r) t \<noteq> [] \<and>
        persistent (run_store r) t \<and> prefix batch (chain_files (run_store r) t))"

text \<open>The files the log still names: a batch whose removal is logged but not yet published is gone.\<close>

fun logged_from :: "merge_worker \<Rightarrow> PropertyDeltaTarget \<Rightarrow> nat" where
  "logged_from (WorkerRemoved t batch m g) t' = (if t' = t then length batch else 0)"
| "logged_from _ t' = 0"

definition logged :: "store_run \<Rightarrow> PropertyDeltaTarget \<Rightarrow> PropertyDeltaFile list" where
  "logged r t = drop (logged_from (run_worker r) t) (chain_files (run_store r) t)"

text \<open>How many files of a chain its column file is sure to reflect: those of a batch the worker has built.\<close>

fun folded_from :: "merge_worker \<Rightarrow> PropertyDeltaTarget \<Rightarrow> nat" where
  "folded_from (WorkerBuilt t batch m g) t' = (if t' = t then length batch else 0)"
| "folded_from (WorkerRemoved t batch m g) t' = (if t' = t then length batch else 0)"
| "folded_from _ t' = 0"

definition log_agrees :: "store_run \<Rightarrow> bool" where
  "log_agrees r \<longleftrightarrow> manifest_agrees (ps_manifest (run_store r)) (logged r) \<and>
     (run_healthy r \<longrightarrow> log_ok (ps_manifest (run_store r)))"

subsection \<open>Values\<close>

text \<open>The records over a value: the newest version of the edge, else the value.\<close>

definition overlay :: "PropertyDeltaRecord list \<Rightarrow> PropertyDeltaRecord \<Rightarrow> string option \<Rightarrow> string option" where
  "overlay rs q v = (case newest (rkey q) kLatestPropertyCommit rs of Some r \<Rightarrow> Some (r_value r) | None \<Rightarrow> v)"

lemma overlay_append:
  "commit_ordered (xs @ ys) \<Longrightarrow> overlay (xs @ ys) q v = overlay ys q (overlay xs q v)"
  by (simp add: overlay_def newest_ordered_append split: option.splits)

lemma overlay_Nil [simp]: "overlay [] q v = v"
  by (simp add: overlay_def)

lemma overlay_twice [simp]: "overlay xs q (overlay xs q v) = overlay xs q v"
  by (simp add: overlay_def split: option.splits)

text \<open>Applying records again that the value already reflects changes nothing.\<close>

lemma overlay_redo:
  assumes "commit_ordered (a @ b @ c)"
  shows "overlay (b @ c) q (overlay (a @ b) q v) = overlay (a @ b @ c) q v"
proof -
  have parts: "commit_ordered (a @ b)" "commit_ordered (b @ c)"
    using assms by (auto simp: commit_ordered_def sorted_wrt_append)
  show ?thesis
    by (simp add: overlay_append [OF assms] overlay_append [OF parts(1)] overlay_append [OF parts(2)])
qed

lemma commit_ordered_take: "commit_ordered (xs @ ys) \<Longrightarrow> commit_ordered xs \<and> commit_ordered ys"
  by (simp add: commit_ordered_def sorted_wrt_append)

lemma files_records_append [simp]: "files_records (xs @ ys) = files_records xs @ files_records ys"
  by (simp add: files_records_def)

lemma files_records_Nil [simp]: "files_records [] = []"
  by (simp add: files_records_def)

lemma files_records_single [simp]: "files_records [f] = file_records f"
  by (simp add: files_records_def)

definition initial_run :: "PropertyDeltaStore \<Rightarrow> store_run" where
  "initial_run st = \<lparr>run_store = st, run_attaching = None, run_worker = WorkerIdle, run_log = (\<lambda>t. []), run_healthy = True\<rparr>"

section \<open>Preservation of the shape\<close>

text \<open>A step that leaves the chains and the files written so far alone.\<close>

lemma files_ok_frame:
  assumes "files_ok dir valid r" "chain_files (run_store r') = chain_files (run_store r)"
    "ps_directory (run_store r') = dir"
    "ps_next_file_generation (run_store r) \<le> ps_next_file_generation (run_store r')"
    "\<And>t g. g < ps_next_file_generation (run_store r) \<Longrightarrow>
       ps_fs (run_store r') (delta_path dir t g) = ps_fs (run_store r) (delta_path dir t g)"
    "run_attaching r' = run_attaching r \<or> run_attaching r' = None"
  shows "files_ok dir valid r'"
proof -
  have "file_placed (run_store r') t f" if "file_placed (run_store r) t f" for t f
    using file_placed_frame [OF that] assms that by (auto simp: files_ok_def file_placed_def)
  with assms show ?thesis by (auto simp: files_ok_def)
qed

lemma destroy_files:
  "foldl destroy_file fs (map (\<lambda>f. f\<lparr>f_obsolete := True\<rparr>) batch) path =
   (if path \<noteq> [] \<and> path \<in> f_path ` set batch then None else fs path)"
  by (induction batch arbitrary: fs) (auto simp: destroy_file_def)


lemma prepare_placed:
  assumes "attach_prepare io pid st t rs p = Some (st', Inr f)" "image_size (prepare_records rs) < 2 ^ 64"
    "unat (ps_next_file_generation st) + 1 < 2 ^ 64"
  shows "file_placed st' t f" "generation_of f = ps_next_file_generation st" "file_records f = prepare_records rs"
proof -
  let ?g = "ps_next_file_generation st"
  note sum = attach_prepare_summary [OF assms(1,2)]
  have f: "f = created_file (delta_path (ps_directory st) t ?g) t ?g (prepare_records rs)"
    and fit: "values_fit (prepare_records rs)" and at: "ps_fs st' (f_path f) = Some (f_mapping f)"
    and g: "ps_next_file_generation st' = ?g + 1" and dir: "ps_directory st' = ps_directory st"
    using sum by auto
  have sorted: "sorted (map rversion (prepare_records rs))"
    using prepare_sorted [of rs] by (rule strict_sorted_imp_sorted)
  have "opens_to (ps_fs st') (f_path f) f"
    using open_created [of "ps_fs st'" "f_path f" t ?g "prepare_records rs"] at fit assms(2) sorted
    by (simp add: opens_to_def f)
  moreover have "?g < ?g + 1" using assms(3) by (simp add: word_less_nat_alt unat_word_ariths)
  ultimately show "file_placed st' t f"
    using created_file_ok [OF fit assms(2) sorted] by (simp add: file_placed_def f g dir generation_of_def)
  show "generation_of f = ?g" "file_records f = prepare_records rs"
    using created_file_records [OF fit assms(2)] by (simp_all add: f generation_of_def)
qed

lemma files_ok_prepare_frame:
  assumes "files_ok dir valid r" "attach_prepare io pid (run_store r) t rs p = Some (st', res)"
    "image_size (prepare_records rs) < 2 ^ 64" "counters_ok (run_store r)"
  shows "files_ok dir valid (r\<lparr>run_store := st', run_attaching := None\<rparr>)"
proof -
  have dir: "ps_directory (run_store r) = dir" using assms(1) by (simp add: files_ok_def)
  have "x \<le> x + 1" if "unat x + 1 < 2 ^ 64" for x :: u64
    using that by (simp add: word_le_nat_alt unat_word_ariths)
  then have le: "ps_next_file_generation (run_store r) \<le> ps_next_file_generation st'"
    using attach_prepare_summary [OF assms(2,3)] assms(4) by (auto simp: counters_ok_def)
  have "ps_fs st' (delta_path dir t' g) = ps_fs (run_store r) (delta_path dir t' g)"
    if "g < ps_next_file_generation (run_store r)" for t' g
    using attach_prepare_summary [OF assms(2,3)] less_imp_neq [OF that] dir by (auto simp: temporary_not_delta [THEN not_sym])
  with le attach_prepare_summary [OF assms(2,3)] dir show ?thesis
    by (intro files_ok_frame [OF assms(1)]) simp_all
qed

lemma files_ok_prepare:
  assumes "files_ok dir valid r" "attach_prepare io pid (run_store r) t rs p = Some (st', Inr f)"
    "image_size (prepare_records rs) < 2 ^ 64" "counters_ok (run_store r)" "valid t"
  shows "files_ok dir valid (r\<lparr>run_store := st', run_attaching := Some (t, f)\<rparr>)"
proof -
  have "chain_files st' = chain_files (run_store r)" using attach_prepare_summary [OF assms(2,3)] by simp
  moreover have "generation_of f' < ps_next_file_generation (run_store r)"
    if "f' \<in> set (chain_files (run_store r) t)" for f'
    using assms(1) that by (auto simp: files_ok_def file_placed_def)
  ultimately show ?thesis
    using files_ok_prepare_frame [OF assms(1-4)] prepare_placed [OF assms(2,3)] assms(4,5)
    by (auto simp: files_ok_def counters_ok_def)
qed

lemma files_ok_commit:
  assumes "files_ok dir valid r" "run_attaching r = Some (t, f)" "ps_fs st' = ps_fs (run_store r)"
    "ps_directory st' = ps_directory (run_store r)"
    "ps_next_file_generation st' = ps_next_file_generation (run_store r)"
    "chain_files st' = (chain_files (run_store r))(t := chain_files (run_store r) t @ [f])"
  shows "files_ok dir valid (r\<lparr>run_store := st', run_attaching := None, run_log := l\<rparr>)"
proof -
  have "file_placed st' t' f' \<longleftrightarrow> file_placed (run_store r) t' f'" for t' f'
    by (simp add: file_placed_def assms)
  with assms(1,2,4,6) show ?thesis by (auto simp: files_ok_def sorted_wrt_append)
qed

lemma path_generation:
  assumes "file_placed st t f" "file_placed st t' f'" "f_path f = f_path f'"
  shows "t = t' \<and> generation_of f = generation_of f'"
  using assms by (simp add: file_placed_def)

lemma files_ok_commit_failed:
  assumes "files_ok dir valid r" "run_attaching r = Some (t, f)"
    "st' = (run_store r)\<lparr>ps_fs := destroy_file (ps_fs (run_store r)) (f\<lparr>f_obsolete := True\<rparr>), ps_manifest := m\<rparr>"
  shows "files_ok dir valid (r\<lparr>run_store := st', run_attaching := None, run_healthy := h\<rparr>)"
proof -
  have files: "chain_files st' = chain_files (run_store r)" by (simp add: assms(3) fun_eq_iff)
  have "file_placed st' t' f'" if "f' \<in> set (chain_files (run_store r) t')" for t' f'
  proof (rule file_placed_frame)
    show placed: "file_placed (run_store r) t' f'" using assms(1) that by (simp add: files_ok_def)
    have "file_placed (run_store r) t f" "\<forall>f'\<in>set (chain_files (run_store r) t). generation_of f' < generation_of f"
      using assms(1,2) by (auto simp: files_ok_def)
    then have "f_path f' \<noteq> f_path f" using path_generation [OF placed] that by fastforce
    then show "ps_fs st' (f_path f') = ps_fs (run_store r) (f_path f')" by (simp add: assms(3) destroy_file_def)
  qed (simp_all add: assms(3))
  with assms(1) files show ?thesis by (simp add: files_ok_def assms(3))
qed

lemma files_ok_publish:
  assumes "files_ok dir valid r" "chain_files (run_store r) t = batch @ rest"
    "ps_fs st' = foldl destroy_file (ps_fs (run_store r)) (map (\<lambda>f. f\<lparr>f_obsolete := True\<rparr>) batch)"
    "ps_directory st' = ps_directory (run_store r)"
    "ps_next_file_generation st' = ps_next_file_generation (run_store r)"
    "chain_files st' = (chain_files (run_store r))(t := rest)"
  shows "files_ok dir valid (r\<lparr>run_store := st', run_worker := w\<rparr>)"
proof -
  let ?st = "run_store r"
  have sorted: "sorted_wrt (<) (map generation_of (batch @ rest))"
    and batch: "\<And>b. b \<in> set batch \<Longrightarrow> file_placed ?st t b" and v: "\<And>f. f \<in> set rest \<Longrightarrow> valid t"
    using assms(1,2) unfolding files_ok_def by (metis, metis UnCI set_append, metis UnCI set_append)
  have keep: "file_placed st' t' f" if "file_placed ?st t' f" "t' = t \<Longrightarrow> \<forall>b \<in> set batch. generation_of b < generation_of f" for t' f
  proof (rule file_placed_frame [OF that(1) assms(4)])
    have "f_path f \<noteq> f_path b" if "b \<in> set batch" for b
      using path_generation [OF \<open>file_placed ?st t' f\<close> batch [OF that]] that
        \<open>t' = t \<Longrightarrow> \<forall>b \<in> set batch. generation_of b < generation_of f\<close> by fastforce
    then have "f_path f \<notin> f_path ` set batch" by blast
    then show "ps_fs st' (f_path f) = ps_fs ?st (f_path f)" by (simp only: assms(3) destroy_files if_False simp_thms)
  qed (simp add: assms(5))
  have other: "file_placed st' t' f" if "f \<in> set ((chain_files st') t')" for t' f
    using that assms(1,2,6) sorted by (intro keep) (auto simp: files_ok_def sorted_wrt_append split: if_splits)
  moreover have "file_placed st' t' f \<and> (\<forall>f' \<in> set (chain_files st' t'). generation_of f' < generation_of f)"
    if "run_attaching r = Some (t', f)" for t' f
    using that assms(1,2,6) by (auto simp: files_ok_def intro!: keep)
  ultimately show ?thesis
    using assms(1,2,4,6) sorted v by (auto simp: files_ok_def sorted_wrt_append)
qed


lemma batch_ok:
  assumes "files_ok dir valid r" "jobs_ok r" "worker_batch (run_worker r) = Some (t, batch)"
  shows "valid t" "list_all delta_file_ok batch" "\<exists>rest. chain_files (run_store r) t = batch @ rest"
proof -
  obtain rest where rest: "chain_files (run_store r) t = batch @ rest" and ne: "chain_files (run_store r) t \<noteq> []"
    using assms(2,3) by (auto simp: jobs_ok_def prefix_def)
  have all: "\<forall>f \<in> set (batch @ rest). valid t \<and> file_placed (run_store r) t f"
    using assms(1) unfolding rest [symmetric] files_ok_def by blast
  with ne rest show "valid t" by (cases "batch @ rest") auto
  from all show "list_all delta_file_ok batch" by (auto simp: list_all_iff file_placed_def)
  from rest show "\<exists>rest. chain_files (run_store r) t = batch @ rest" ..
qed

lemma jobs_ok_schedule:
  assumes "jobs_ok r" "\<not> (sched \<and> busy (run_store r) t)"
    "busy st' = (busy (run_store r))(t := busy (run_store r) t \<or> sched)"
    "ps_jobs st' = (if sched then ps_jobs (run_store r) @ [t] else ps_jobs (run_store r))"
    "\<And>t'. prefix (chain_files (run_store r) t') (chain_files st' t')"
    "\<forall>t'. persistent (run_store r) t' \<longrightarrow> persistent st' t'"
    "run_store r' = st'" "run_worker r' = run_worker r"
  shows "jobs_ok r'"
proof -
  have "prefix batch (chain_files st' t')" if "prefix batch (chain_files (run_store r) t')" for batch t'
    using that assms(5) by (rule prefix_order.trans)
  moreover have "chain_files st' t' \<noteq> []" if "chain_files (run_store r) t' \<noteq> []" for t'
    using that assms(5) [of t'] by (auto simp: prefix_def)
  ultimately show ?thesis using assms(1-4,6-) by (auto simp: jobs_ok_def)
qed

lemma jobs_ok_step:
  assumes "run_step merge valid fits r r'" "jobs_ok r"
  shows "jobs_ok r'"
  using assms(1)
proof cases
  case (prepare t recs io pid p st' f)
  show ?thesis unfolding prepare(1) using attach_prepare_summary [OF prepare(7,5)] assms(2) by (simp add: jobs_ok_def)
next
  case (prepare_failed t recs io pid p st' e)
  show ?thesis unfolding prepare_failed(1) using attach_prepare_summary [OF prepare_failed(6,4)] assms(2)
    by (simp add: jobs_ok_def)
next
  case (commit t f io st')
  from attach_commit_done [OF commit(5)] obtain sched where
    "chain_files st' = (chain_files (run_store r))(t := chain_files (run_store r) t @ [f])"
    "persistent st' = persistent (run_store r)"
    "\<not> (sched \<and> busy (run_store r) t)" "busy st' = (busy (run_store r))(t := busy (run_store r) t \<or> sched)"
    "ps_jobs st' = (if sched then ps_jobs (run_store r) @ [t] else ps_jobs (run_store r))" .
  then show ?thesis unfolding commit(1) by (intro jobs_ok_schedule [OF assms(2)]) auto
next
  case (commit_failed t f io st' e)
  from attach_commit_failed [OF commit_failed(3)] obtain manifest where
    "st' = (run_store r)\<lparr>ps_fs := destroy_file (ps_fs (run_store r)) (f\<lparr>f_obsolete := True\<rparr>), ps_manifest := manifest\<rparr>" .
  then show ?thesis unfolding commit_failed(1) using assms(2) by (simp add: jobs_ok_def)
next
  case (persistent t ios st' e)
  from MarkTargetPersistent_cases [OF persistent(3)] obtain sched where
    "chain_files st' = chain_files (run_store r)"
    "\<forall>t'. persistent (run_store r) t' \<longrightarrow> persistent st' t'"
    "\<not> (sched \<and> busy (run_store r) t)" "busy st' = (busy (run_store r))(t := busy (run_store r) t \<or> sched)"
    "ps_jobs st' = (if sched then ps_jobs (run_store r) @ [t] else ps_jobs (run_store r))" .
  then show ?thesis unfolding persistent(1) by (intro jobs_ok_schedule [OF assms(2)]) auto
next
  case (capture t jobs c base batch)
  have "chain_files (run_store r) t = v_deltas (c_read_view c)" using capture(4) by (simp add: chain_files_def)
  moreover have "c_target_is_persistent c = persistent (run_store r) t" using capture(4) by (simp add: persistent_def)
  ultimately have "chain_files (run_store r) t \<noteq> []" "prefix batch (chain_files (run_store r) t)"
    "persistent (run_store r) t"
    using capture(6) by (auto simp: merge_capture_def Let_def take_is_prefix split: if_splits)
  then show ?thesis unfolding capture(1) using assms(2) capture(3) by (simp add: jobs_ok_def)
next
  case (skip t jobs c)
  then show ?thesis using assms(2) by (auto simp: jobs_ok_def)
next
  case (build t base batch g io fs m)
  then show ?thesis using assms(2) by (simp add: jobs_ok_def)
next
  case (build_failed t base batch g io fs e)
  then show ?thesis using assms(2) by (auto simp: jobs_ok_def)
next
  case (remove t batch m g aio manifest)
  then show ?thesis using assms(2) by (simp add: jobs_ok_def)
next
  case (remove_failed t batch m g aio manifest e)
  then show ?thesis using assms(2) by (auto simp: jobs_ok_def)
next
  case (publish t batch m g c st')
  from merge_publish_done [OF publish(4,3)] obtain sched where
    "busy st' = (busy (run_store r))(t := sched)"
    "ps_jobs st' = (if sched then ps_jobs (run_store r) @ [t] else ps_jobs (run_store r))" .
  then show ?thesis unfolding publish(1) using assms(2) publish(2) by (auto simp: jobs_ok_def)
next
  case (publish_failed t batch m g c st' e)
  then show ?thesis using assms(2) merge_publish_failed [OF publish_failed(4)] by (auto simp: jobs_ok_def)
qed

text \<open>The worker's batch is still a prefix of its chain when it publishes: no merge is lost to a change.\<close>

lemma publish_cannot_fail:
  assumes "jobs_ok r" "run_worker r = WorkerRemoved t batch m g" "FindChain (run_store r) t = Some c"
  shows "snd (merge_publish (run_store r) t c batch m g b) = None"
proof (cases "merge_publish (run_store r) t c batch m g b")
  case (Pair st' e)
  have "prefix batch (v_deltas (c_read_view c))" using assms by (auto simp: jobs_ok_def chain_files_def)
  then have "length batch \<le> length (v_deltas (c_read_view c))" "take (length batch) (v_deltas (c_read_view c)) = batch"
    by (auto simp: prefix_def)
  with Pair merge_publish_failed [of "run_store r" t c batch m g b st'] show ?thesis by (cases e) auto
qed

lemma logged_same:
  "run_worker r' = run_worker r \<Longrightarrow> chain_files (run_store r') = chain_files (run_store r) \<Longrightarrow> logged r' = logged r"
  by (simp add: logged_def fun_eq_iff)

lemma logged_all: "logged_from (run_worker r) = (\<lambda>t. 0) \<Longrightarrow> logged r = chain_files (run_store r)"
  by (simp add: logged_def fun_eq_iff)

lemma logged_from_simps [simp]:
  "logged_from WorkerIdle = (\<lambda>t. 0)" "logged_from (WorkerCaptured t base batch g) = (\<lambda>t. 0)"
  "logged_from (WorkerBuilt t batch m g) = (\<lambda>t. 0)"
  by (simp_all add: fun_eq_iff)

lemma placed_name: "file_placed st t f \<Longrightarrow> BaseName (f_path f) = DeltaFileName t (generation_of f)"
  by (simp add: file_placed_def delta_path_def BaseName_join DeltaFileName_chars)

lemma logged_commit:
  assumes "jobs_ok r" "chain_files st' = (chain_files (run_store r))(t := chain_files (run_store r) t @ [f])"
    "run_store r' = st'" "run_worker r' = run_worker r"
  shows "logged r' = (logged r)(t := logged r t @ [f])"
proof (rule ext)
  fix t'
  have "logged_from (run_worker r) t' \<le> length (chain_files (run_store r) t')"
    using assms(1) by (cases "run_worker r") (auto simp: jobs_ok_def dest: prefix_length_le)
  then show "logged r' t' = ((logged r)(t := logged r t @ [f])) t'"
    using assms(2-4) by (auto simp: logged_def)
qed

lemma logged_remove:
  assumes "run_worker r = WorkerBuilt t batch m g" "run_worker r' = WorkerRemoved t batch m g"
    "chain_files (run_store r') = chain_files (run_store r)"
  shows "logged r = chain_files (run_store r)" "logged r' = (logged r)(t := drop (length batch) (logged r t))"
  using assms by (auto simp: logged_def fun_eq_iff)

lemma log_agrees_commit:
  assumes "files_ok dir valid r" "jobs_ok r" "log_agrees r" "run_attaching r = Some (t, f)" "counters_ok (run_store r)"
    "attach_commit True io (run_store r) t f (generation_of f) = Some (st', None)"
  shows "log_agrees (r\<lparr>run_store := st', run_attaching := None, run_log := l\<rparr>)"
proof -
  let ?entry = "\<lparr>e_file_name = DeltaFileName t (generation_of f), e_metadata = f_metadata f,
       e_target_is_persistent = persistent (run_store r) t\<rparr>"
  let ?r' = "r\<lparr>run_store := st', run_attaching := None, run_log := l\<rparr>"
  from attach_commit_done [OF assms(6)] obtain
    add: "AppendAdd io (ps_manifest (run_store r)) ?entry = Some (ps_manifest st', None)"
    and files: "chain_files st' = (chain_files (run_store r))(t := chain_files (run_store r) t @ [f])" by metis
  have "generation_of f' \<noteq> generation_of f" if "f' \<in> set (logged r t)" for f'
    using assms(1,4) that by (fastforce simp: files_ok_def logged_def dest: in_set_dropD)
  then have "manifest_agrees (ps_manifest st') ((logged r)(t := logged r t @ [f]))"
    using assms(3) by (intro manifest_agrees_add [OF _ AppendAdd_done [OF add]]) (auto simp: log_agrees_def)
  moreover have "run_healthy r \<longrightarrow> log_ok (ps_manifest st')"
    using log_ok_add [OF _ add, of t "generation_of f"] assms(3,5) by (auto simp: log_agrees_def counters_ok_def)
  ultimately show ?thesis using logged_commit [OF assms(2) files, of ?r'] by (simp add: log_agrees_def)
qed

lemma log_agrees_persistent:
  assumes "files_ok dir valid r" "jobs_ok r" "log_agrees r"
    "MarkTargetPersistent True ios (run_store r) t = Some (st', e)"
    "unat (mf_next_edit_sequence (ps_manifest (run_store r))) + length (chain_files (run_store r) t) + 2 < 2 ^ 64"
  shows "log_agrees (r\<lparr>run_store := st', run_healthy := run_healthy r \<and> e = None\<rparr>)"
proof -
  from MarkTargetPersistent_cases [OF assms(4)] obtain
    cases: "ps_manifest st' = ps_manifest (run_store r) \<and> e = None \<or> \<not> persistent (run_store r) t \<and>
     (\<exists>ios' me. append_persistent ios' (ps_manifest (run_store r)) (chain_files (run_store r) t) = Some (ps_manifest st', me) \<and>
       (e = None \<longleftrightarrow> me = None))"
    and files: "chain_files st' = chain_files (run_store r)" .
  have same: "logged (r\<lparr>run_store := st', run_healthy := run_healthy r \<and> e = None\<rparr>) = logged r"
    by (rule logged_same) (simp_all add: files)
  have names: "f \<in> set (chain_files (run_store r) t) \<Longrightarrow> BaseName (f_path f) = DeltaFileName t (generation_of f)" for f
    using assms(1) placed_name by (fastforce simp: files_ok_def)
  from cases show ?thesis
  proof (elim disjE conjE exE)
    fix ios' me
    assume np: "\<not> persistent (run_store r) t" and me: "(e = None) = (me = None)"
      and run: "append_persistent ios' (ps_manifest (run_store r)) (chain_files (run_store r) t) = Some (ps_manifest st', me)"
    have "logged r t = chain_files (run_store r) t"
      using np assms(2) by (cases "run_worker r") (auto simp: logged_def jobs_ok_def)
    then have "manifest_agrees (ps_manifest st') (logged r)"
      using append_persistent_agrees [OF run, of "logged r" t] names assms(3) by (simp add: log_agrees_def)
    moreover have "me = None \<Longrightarrow> log_ok (ps_manifest (run_store r)) \<Longrightarrow> log_ok (ps_manifest st')"
      using append_persistent_log [of ios' _ "chain_files (run_store r) t" _ t] run names assms(5) by simp
    ultimately show ?thesis using assms(3) same me by (auto simp: log_agrees_def)
  qed (use assms(3) same in \<open>simp add: log_agrees_def\<close>)
qed

lemma log_agrees_remove:
  assumes "files_ok dir valid r" "jobs_ok r" "log_agrees r" "run_worker r = WorkerBuilt t batch m g"
    "counters_ok (run_store r)" "length (EncodeRemove (batch_names batch)) \<le> 2 ^ 30"
    "AppendRemove aio (ps_manifest (run_store r)) (batch_names batch) = Some (manifest, None)"
  shows "log_agrees (r\<lparr>run_store := (run_store r)\<lparr>ps_manifest := manifest\<rparr>, run_worker := WorkerRemoved t batch m g\<rparr>)"
proof -
  let ?r' = "r\<lparr>run_store := (run_store r)\<lparr>ps_manifest := manifest\<rparr>, run_worker := WorkerRemoved t batch m g\<rparr>"
  obtain rest where rest: "chain_files (run_store r) t = batch @ rest"
    using batch_ok(3) [OF assms(1,2), of t batch] assms(4) by auto
  note logged = logged_remove [OF assms(4), of ?r', simplified]
  have names: "set (batch_names batch) = (\<lambda>f. DeltaFileName t (generation_of f)) ` set batch"
  proof -
    have "\<forall>f \<in> set (chain_files (run_store r) t). file_placed (run_store r) t f"
      using assms(1) unfolding files_ok_def by blast
    then show ?thesis using rest placed_name by (force simp: batch_names_def)
  qed
  have "sorted_wrt (<) (map generation_of (chain_files (run_store r) t))"
    using assms(1) unfolding files_ok_def by blast
  then have "distinct (map generation_of (logged r t))" using logged by (simp add: strict_sorted_iff)
  then have "manifest_agrees manifest ((logged r)(t := rest))"
    using assms(3) rest logged
    by (intro manifest_agrees_remove [OF _ AppendRemove_done [OF assms(7)] names]) (simp_all add: log_agrees_def)
  moreover have "run_healthy r \<longrightarrow> log_ok manifest"
    using log_ok_append [of "ps_manifest (run_store r)" aio "EditRemove (batch_names batch)" manifest] assms(3,5-7)
    by (simp add: log_agrees_def counters_ok_def)
  ultimately show ?thesis using logged rest by (simp add: log_agrees_def)
qed

text \<open>What the store relies on of its merge callback. Of a valid target, \<open>base_value\<close> is the value an edge has
  in a merged column (or in the table's own column, without one), \<open>column_value\<close> its value in the column
  file on disk.\<close>

locale column_merge =
  fixes merge :: "'io \<Rightarrow> merge_callback" and dir :: string
    and valid :: "PropertyDeltaTarget \<Rightarrow> bool" and fits :: "PropertyDeltaTarget \<Rightarrow> PropertyDeltaRecord \<Rightarrow> bool"
    and base_ok :: "PropertyDeltaTarget \<Rightarrow> MappedPropertyFile option \<Rightarrow> bool"
    and base_value :: "PropertyDeltaTarget \<Rightarrow> MappedPropertyFile option \<Rightarrow> PropertyDeltaRecord \<Rightarrow> string option"
    and column_value :: "file_system \<Rightarrow> PropertyDeltaTarget \<Rightarrow> PropertyDeltaRecord \<Rightarrow> string option"
  assumes merged:
    "merge io fs t base batch g = (fs', res) \<Longrightarrow> valid t \<Longrightarrow> base_ok t base \<Longrightarrow> list_all delta_file_ok batch \<Longrightarrow>
     list_all (fits t) (files_records batch) \<Longrightarrow> commit_ordered (files_records batch) \<Longrightarrow>
     (\<exists>e. res = Inl e) \<and> column_value fs' t = column_value fs t \<or>
     column_value fs' t = (\<lambda>q. overlay (files_records batch) q (base_value t base q)) \<and>
     (\<forall>m. res = Inr m \<longrightarrow> base_ok t (Some m) \<and> base_value t (Some m) = column_value fs' t)"
    and other_column: "merge io fs t base batch g = (fs', res) \<Longrightarrow> valid t \<Longrightarrow> valid t' \<Longrightarrow> t' \<noteq> t \<Longrightarrow>
     column_value fs' t' = column_value fs t'"
    and delta_file: "merge io fs t base batch g = (fs', res) \<Longrightarrow> valid t \<Longrightarrow>
     fs' (delta_path dir t' g') = fs (delta_path dir t' g')"
    and column_only: "(\<And>p. \<not> delta_related dir p \<Longrightarrow> fs' p = fs p) \<Longrightarrow> valid t \<Longrightarrow>
     column_value fs' t = column_value fs t"
begin

lemma files_ok_step:
  assumes "run_step merge valid fits r r'" "files_ok dir valid r" "jobs_ok r"
  shows "files_ok dir valid r'"
  using assms(1)
proof cases
  case (prepare t recs io pid p st' f)
  then show ?thesis using files_ok_prepare [OF assms(2)] by simp
next
  case (prepare_failed t recs io pid p st' e)
  then show ?thesis using files_ok_prepare_frame [OF assms(2), of io pid t recs p st' "Inl e"]
    by (simp add: files_ok_def)
next
  case (commit t f io st')
  from attach_commit_done [OF commit(5)] obtain
    "ps_fs st' = ps_fs (run_store r)" "ps_directory st' = ps_directory (run_store r)"
    "ps_next_file_generation st' = ps_next_file_generation (run_store r)"
    "chain_files st' = (chain_files (run_store r))(t := chain_files (run_store r) t @ [f])" .
  then show ?thesis unfolding commit(1) by (rule files_ok_commit [OF assms(2) commit(2)])
next
  case (commit_failed t f io st' e)
  from attach_commit_failed [OF commit_failed(3)] obtain manifest where
    "st' = (run_store r)\<lparr>ps_fs := destroy_file (ps_fs (run_store r)) (f\<lparr>f_obsolete := True\<rparr>), ps_manifest := manifest\<rparr>" .
  then show ?thesis unfolding commit_failed(1) by (rule files_ok_commit_failed [OF assms(2) commit_failed(2)])
next
  case (persistent t ios st' e)
  from MarkTargetPersistent_cases [OF persistent(3)] obtain
    "ps_fs st' = ps_fs (run_store r)" "ps_directory st' = ps_directory (run_store r)"
    "ps_next_file_generation st' = ps_next_file_generation (run_store r)"
    "chain_files st' = chain_files (run_store r)" .
  then show ?thesis
    unfolding persistent(1) using assms(2) by (intro files_ok_frame [OF assms(2)]) (auto simp: files_ok_def)
next
  case (capture t jobs c base batch)
  have "x \<le> x + 1" if "unat x + 1 < 2 ^ 64" for x :: u64
    using that by (simp add: word_le_nat_alt unat_word_ariths)
  then show ?thesis
    unfolding capture(1) using assms(2) capture(5)
    by (intro files_ok_frame [OF assms(2)]) (auto simp: files_ok_def counters_ok_def)
next
  case (skip t jobs c)
  then show ?thesis using assms(2) by (intro files_ok_frame [OF assms(2)]) (auto simp: files_ok_def)
next
  case (build t base batch g io fs m)
  have "valid t" by (rule batch_ok [OF assms(2,3)]) (simp add: build(2))
  then show ?thesis
    unfolding build(1) using assms(2) delta_file [OF build(3)]
    by (intro files_ok_frame [OF assms(2)]) (auto simp: files_ok_def)
next
  case (build_failed t base batch g io fs e)
  have "valid t" by (rule batch_ok [OF assms(2,3)]) (simp add: build_failed(2))
  then show ?thesis
    unfolding build_failed(1) using assms(2) delta_file [OF build_failed(3)]
    by (intro files_ok_frame [OF assms(2)]) (auto simp: files_ok_def)
next
  case (remove t batch m g aio manifest)
  then show ?thesis using assms(2) by (intro files_ok_frame [OF assms(2)]) (auto simp: files_ok_def)
next
  case (remove_failed t batch m g aio manifest e)
  then show ?thesis using assms(2) by (intro files_ok_frame [OF assms(2)]) (auto simp: files_ok_def)
next
  case (publish t batch m g c st')
  let ?rest = "drop (length batch) (chain_files (run_store r) t)"
  from merge_publish_done [OF publish(4,3)] obtain
    "take (length batch) (chain_files (run_store r) t) = batch"
    "ps_fs st' = foldl destroy_file (ps_fs (run_store r)) (map (\<lambda>f. f\<lparr>f_obsolete := True\<rparr>) batch)"
    "ps_directory st' = ps_directory (run_store r)"
    "ps_next_file_generation st' = ps_next_file_generation (run_store r)"
    "chain_files st' = (chain_files (run_store r))(t := ?rest)" .
  then show ?thesis
    unfolding publish(1) by (intro files_ok_publish [OF assms(2), of t batch ?rest]) (simp_all, metis append_take_drop_id)
next
  case (publish_failed t batch m g c st' e)
  then show ?thesis using assms(2) merge_publish_failed [OF publish_failed(4)]
    by (intro files_ok_frame [OF assms(2)]) (auto simp: files_ok_def)
qed

lemma log_agrees_step:
  assumes "run_step merge valid fits r r'" "files_ok dir valid r" "jobs_ok r" "log_agrees r"
  shows "log_agrees r'"
  using assms(1)
proof cases
  case (prepare t recs io pid p st' f)
  then show ?thesis using attach_prepare_summary [OF prepare(7,5)] logged_same [of r' r] assms(4) by (simp add: log_agrees_def)
next
  case (prepare_failed t recs io pid p st' e)
  then show ?thesis using attach_prepare_summary [OF prepare_failed(6,4)] logged_same [of r' r] assms(4)
    by (simp add: log_agrees_def)
next
  case (commit t f io st')
  show ?thesis unfolding commit(1) by (rule log_agrees_commit [OF assms(2-4) commit(2,4,5)])
next
  case (commit_failed t f io st' e)
  from attach_commit_failed [OF commit_failed(3)] obtain manifest e' entry where
    m: "AppendAdd io (ps_manifest (run_store r)) entry = Some (manifest, Some e')" and
    st': "st' = (run_store r)\<lparr>ps_fs := destroy_file (ps_fs (run_store r)) (f\<lparr>f_obsolete := True\<rparr>), ps_manifest := manifest\<rparr>" .
  then show ?thesis
    using commit_failed(1) AppendAdd_failed [OF m] logged_same [of r' r] assms(4) by (simp add: log_agrees_def manifest_agrees_def)
next
  case (persistent t ios st' e)
  show ?thesis unfolding persistent(1) by (rule log_agrees_persistent [OF assms(2-4) persistent(3,2)])
next
  case (capture t jobs c base batch)
  then show ?thesis using assms(4) by (simp add: log_agrees_def logged_all)
next
  case (skip t jobs c)
  then show ?thesis using assms(4) logged_same [of r' r] by (simp add: log_agrees_def)
next
  case (build t base batch g io fs m)
  then show ?thesis using assms(4) by (simp add: log_agrees_def logged_all)
next
  case (build_failed t base batch g io fs e)
  then show ?thesis using assms(4) by (simp add: log_agrees_def logged_all)
next
  case (remove t batch m g aio manifest)
  show ?thesis unfolding remove(1) by (rule log_agrees_remove [OF assms(2-4) remove(2-5)])
next
  case (remove_failed t batch m g aio manifest e)
  then show ?thesis using assms(4) AppendRemove_failed [OF remove_failed(3)]
    by (simp add: log_agrees_def logged_all manifest_agrees_def)
next
  case (publish t batch m g c st')
  from merge_publish_done [OF publish(4,3)] obtain "ps_manifest st' = ps_manifest (run_store r)"
    "chain_files st' = (chain_files (run_store r))(t := drop (length batch) (chain_files (run_store r) t))" .
  then have "logged r' = logged r" "ps_manifest (run_store r') = ps_manifest (run_store r)"
    using publish(1,2) by (auto simp: logged_def fun_eq_iff)
  then show ?thesis using publish(1) assms(4) by (simp add: log_agrees_def)
next
  case (publish_failed t batch m g c st' e)
  then show ?thesis using publish_cannot_fail [OF assms(3) publish_failed(2,3), of False] by simp
qed

text \<open>The records committed so far are those folded into the merged base, then those of the chain.\<close>

definition values_ok :: "store_run \<Rightarrow> bool" where
  "values_ok r \<longleftrightarrow> (\<forall>t f. run_attaching r = Some (t, f) \<longrightarrow> list_all (fits t) (file_records f)) \<and>
     (\<forall>t. valid t \<longrightarrow> commit_ordered (run_log r t) \<and> list_all (fits t) (run_log r t) \<and>
        base_ok t (merged_base_of (run_store r) t) \<and>
        (\<exists>pre. run_log r t = pre @ files_records (chain_files (run_store r) t) \<and>
           (\<forall>q. base_value t (merged_base_of (run_store r) t) q = overlay pre q (base_value t None q))))"

definition worker_ok :: "store_run \<Rightarrow> bool" where
  "worker_ok r \<longleftrightarrow> (case run_worker r of
      WorkerIdle \<Rightarrow> True
    | WorkerCaptured t base batch g \<Rightarrow> base = merged_base_of (run_store r) t
    | WorkerBuilt t batch m g \<Rightarrow> base_ok t (Some m) \<and>
        (\<forall>q. base_value t (Some m) q = overlay (files_records batch) q (base_value t (merged_base_of (run_store r) t) q))
    | WorkerRemoved t batch m g \<Rightarrow> base_ok t (Some m) \<and>
        (\<forall>q. base_value t (Some m) q = overlay (files_records batch) q (base_value t (merged_base_of (run_store r) t) q)))"

lemma values_frame:
  assumes "values_ok r" "chain_files (run_store r') = chain_files (run_store r)"
    "merged_base_of (run_store r') = merged_base_of (run_store r)" "run_log r' = run_log r"
    "run_attaching r' = run_attaching r \<or> run_attaching r' = None"
  shows "values_ok r'"
  using assms unfolding values_ok_def by (metis option.distinct(1))

lemma worker_frame:
  assumes "worker_ok r" "merged_base_of (run_store r') = merged_base_of (run_store r)"
    "run_worker r' = run_worker r \<or> run_worker r' = WorkerIdle"
  shows "worker_ok r'"
  using assms by (auto simp: worker_ok_def split: merge_worker.splits)

lemma batch_values:
  assumes "files_ok dir valid r" "jobs_ok r" "values_ok r" "worker_batch (run_worker r) = Some (t, batch)"
  shows "list_all (fits t) (files_records batch)" "commit_ordered (files_records batch)"
    "base_ok t (merged_base_of (run_store r) t)"
proof -
  obtain rest where rest: "chain_files (run_store r) t = batch @ rest" using batch_ok(3) [OF assms(1,2,4)] ..
  obtain pre where pre: "run_log r t = pre @ files_records batch @ files_records rest"
    "commit_ordered (run_log r t)" "list_all (fits t) (run_log r t)" and base: "base_ok t (merged_base_of (run_store r) t)"
    using assms(3) batch_ok(1) [OF assms(1,2,4)] rest unfolding values_ok_def by fastforce
  from pre show "list_all (fits t) (files_records batch)" by simp
  from pre show "commit_ordered (files_records batch)" by (auto dest!: commit_ordered_take)
  from base show "base_ok t (merged_base_of (run_store r) t)" .
qed

lemma values_commit:
  assumes "values_ok r" "run_attaching r = Some (t, f)" "commit_ordered (run_log r t @ file_records f)"
    "merged_base_of st' = merged_base_of (run_store r)"
    "chain_files st' = (chain_files (run_store r))(t := chain_files (run_store r) t @ [f])"
  shows "values_ok (r\<lparr>run_store := st', run_attaching := None, run_log := (run_log r)(t := run_log r t @ file_records f)\<rparr>)"
  using assms unfolding values_ok_def by auto

lemma values_publish:
  assumes "values_ok r" "worker_ok r" "run_worker r = WorkerRemoved t batch m g" "valid t"
    "chain_files (run_store r) t = batch @ rest"
    "merged_base_of st' = (merged_base_of (run_store r))(t := Some m)"
    "chain_files st' = (chain_files (run_store r))(t := rest)"
  shows "values_ok (r\<lparr>run_store := st', run_worker := WorkerIdle\<rparr>)"
proof -
  obtain pre where pre: "run_log r t = pre @ files_records batch @ files_records rest" "commit_ordered (run_log r t)"
    "\<forall>q. base_value t (merged_base_of (run_store r) t) q = overlay pre q (base_value t None q)"
    using assms(1,4,5) unfolding values_ok_def by fastforce
  have built: "base_ok t (Some m)"
    "\<forall>q. base_value t (Some m) q = overlay (files_records batch) q (base_value t (merged_base_of (run_store r) t) q)"
    using assms(2,3) by (simp_all add: worker_ok_def)
  have "commit_ordered ((pre @ files_records batch) @ files_records rest)" using pre by simp
  then have "commit_ordered (pre @ files_records batch)" by (blast dest: commit_ordered_take)
  then have "base_value t (Some m) q = overlay (pre @ files_records batch) q (base_value t None q)" for q
    using pre(3) built(2) by (simp add: overlay_append)
  then have "\<exists>pre. run_log r t = pre @ files_records rest \<and>
      (\<forall>q. base_value t (Some m) q = overlay pre q (base_value t None q))"
    using pre(1) by (intro exI [of _ "pre @ files_records batch"]) simp
  with assms(1,6,7) built(1) show ?thesis unfolding values_ok_def by auto
qed

lemma values_step:
  assumes "run_step merge valid fits r r'" "files_ok dir valid r" "jobs_ok r" "values_ok r" "worker_ok r"
  shows "values_ok r'"
  using assms(1)
proof cases
  case (prepare t recs io pid p st' f)
  have "list_all (fits t) (file_records f)"
    using prepare(4) prepare_placed(3) [OF prepare(7,5)] prepare(6) prepare_subset [of recs]
    by (auto simp: list_all_iff counters_ok_def)
  then show ?thesis unfolding prepare(1) using assms(4) attach_prepare_summary [OF prepare(7,5)]
    by (simp add: values_ok_def)
next
  case (prepare_failed t recs io pid p st' e)
  then show ?thesis using attach_prepare_summary [OF prepare_failed(6,4)] by (intro values_frame [OF assms(4)]) simp_all
next
  case (commit t f io st')
  from attach_commit_done [OF commit(5)] obtain "merged_base_of st' = merged_base_of (run_store r)"
    "chain_files st' = (chain_files (run_store r))(t := chain_files (run_store r) t @ [f])" .
  then show ?thesis unfolding commit(1) by (rule values_commit [OF assms(4) commit(2,3)])
next
  case (commit_failed t f io st' e)
  from attach_commit_failed [OF commit_failed(3)] obtain manifest where
    "st' = (run_store r)\<lparr>ps_fs := destroy_file (ps_fs (run_store r)) (f\<lparr>f_obsolete := True\<rparr>), ps_manifest := manifest\<rparr>" .
  then show ?thesis unfolding commit_failed(1) by (intro values_frame [OF assms(4)]) simp_all
next
  case (persistent t ios st' e)
  from MarkTargetPersistent_cases [OF persistent(3)] obtain "merged_base_of st' = merged_base_of (run_store r)"
    "chain_files st' = chain_files (run_store r)" .
  then show ?thesis unfolding persistent(1) by (intro values_frame [OF assms(4)]) simp_all
next
  case (publish t batch m g c st')
  let ?rest = "drop (length batch) (chain_files (run_store r) t)"
  from merge_publish_done [OF publish(4,3)] obtain
    pre: "take (length batch) (chain_files (run_store r) t) = batch" and
    new: "chain_files st' = (chain_files (run_store r))(t := ?rest)"
    "merged_base_of st' = (merged_base_of (run_store r))(t := Some m)" .
  have split: "chain_files (run_store r) t = batch @ ?rest" using pre by (metis append_take_drop_id)
  have "valid t" by (rule batch_ok [OF assms(2,3)]) (simp add: publish(2))
  then show ?thesis unfolding publish(1)
    by (intro values_publish [OF assms(4,5) publish(2) _ split]) (simp_all add: new)
next
  case (publish_failed t batch m g c st' e)
  then show ?thesis using publish_cannot_fail [OF assms(3) publish_failed(2,3), of False] by simp
qed (use assms(4) in \<open>simp_all add: values_ok_def\<close>)

lemma worker_step:
  assumes "run_step merge valid fits r r'" "files_ok dir valid r" "jobs_ok r" "values_ok r" "worker_ok r"
  shows "worker_ok r'"
  using assms(1)
proof cases
  case (prepare t recs io pid p st' f)
  then show ?thesis using attach_prepare_summary [OF prepare(7,5)] by (intro worker_frame [OF assms(5)]) simp_all
next
  case (prepare_failed t recs io pid p st' e)
  then show ?thesis using attach_prepare_summary [OF prepare_failed(6,4)] by (intro worker_frame [OF assms(5)]) simp_all
next
  case (commit t f io st')
  from attach_commit_done [OF commit(5)] obtain "merged_base_of st' = merged_base_of (run_store r)" .
  then show ?thesis unfolding commit(1) by (intro worker_frame [OF assms(5)]) simp_all
next
  case (commit_failed t f io st' e)
  from attach_commit_failed [OF commit_failed(3)] obtain manifest where
    "st' = (run_store r)\<lparr>ps_fs := destroy_file (ps_fs (run_store r)) (f\<lparr>f_obsolete := True\<rparr>), ps_manifest := manifest\<rparr>" .
  then show ?thesis unfolding commit_failed(1) by (intro worker_frame [OF assms(5)]) simp_all
next
  case (persistent t ios st' e)
  from MarkTargetPersistent_cases [OF persistent(3)] obtain "merged_base_of st' = merged_base_of (run_store r)" .
  then show ?thesis unfolding persistent(1) by (intro worker_frame [OF assms(5)]) simp_all
next
  case (capture t jobs c base batch)
  then have "base = merged_base_of (run_store r) t"
    by (auto simp: merge_capture_def Let_def merged_base_of_def split: if_splits)
  then show ?thesis unfolding capture(1) by (simp add: worker_ok_def)
next
  case (build t base batch g io fs m)
  have batch: "worker_batch (run_worker r) = Some (t, batch)" by (simp add: build(2))
  have base: "base = merged_base_of (run_store r) t" using assms(5) build(2) by (simp add: worker_ok_def)
  have "base_ok t (Some m) \<and> base_value t (Some m) = (\<lambda>q. overlay (files_records batch) q (base_value t base q))"
    using merged [OF build(3) batch_ok(1) [OF assms(2,3) batch] _ batch_ok(2) [OF assms(2,3) batch]]
      batch_values [OF assms(2-4) batch] base by simp
  then show ?thesis unfolding build(1) by (simp add: worker_ok_def base)
next
  case (publish t batch m g c st')
  then show ?thesis by (simp add: worker_ok_def)
next
  case (publish_failed t batch m g c st' e)
  then show ?thesis by (simp add: worker_ok_def)
qed (use assms(5) in \<open>simp_all add: worker_ok_def\<close>)

text \<open>A column file holds the merged base with the first files of the chain folded in.\<close>

definition folded :: "store_run \<Rightarrow> PropertyDeltaTarget \<Rightarrow> nat \<Rightarrow> bool" where
  "folded r t n \<longleftrightarrow> n \<le> length (chain_files (run_store r) t) \<and>
     column_value (ps_fs (run_store r)) t =
       (\<lambda>q. overlay (files_records (take n (chain_files (run_store r) t))) q
              (base_value t (merged_base_of (run_store r) t) q))"

definition columns_ok :: "store_run \<Rightarrow> bool" where
  "columns_ok r \<longleftrightarrow> (\<forall>t. valid t \<longrightarrow> (\<exists>n. folded_from (run_worker r) t \<le> n \<and> folded r t n))"

lemma columns_frame:
  assumes "columns_ok r" "\<And>t. prefix (chain_files (run_store r) t) (chain_files (run_store r') t)"
    "merged_base_of (run_store r') = merged_base_of (run_store r)"
    "\<And>p. \<not> delta_related dir p \<Longrightarrow> ps_fs (run_store r') p = ps_fs (run_store r) p"
    "\<And>t. folded_from (run_worker r') t \<le> folded_from (run_worker r) t"
  shows "columns_ok r'"
proof -
  have "folded r' t n" if "valid t" "folded r t n" for t n
  proof -
    have "column_value (ps_fs (run_store r')) t = column_value (ps_fs (run_store r)) t"
      by (rule column_only [OF assms(4) \<open>valid t\<close>])
    moreover have "take n (chain_files (run_store r') t) = take n (chain_files (run_store r) t)"
      "length (chain_files (run_store r) t) \<le> length (chain_files (run_store r') t)"
      using assms(2) [of t] that(2) by (auto simp: prefix_def folded_def)
    ultimately show ?thesis using that(2) assms(3) by (simp add: folded_def)
  qed
  with assms(1,5) show ?thesis unfolding columns_ok_def by (meson le_trans)
qed

lemma columns_merge:
  assumes "columns_ok r" "files_ok dir valid r" "jobs_ok r" "values_ok r" "worker_ok r"
    "run_worker r = WorkerCaptured t base batch g" "merge io (ps_fs (run_store r)) t base batch g = (fs, res)"
    "ps_fs (run_store r') = fs" "chain_files (run_store r') = chain_files (run_store r)"
    "merged_base_of (run_store r') = merged_base_of (run_store r)"
    "run_worker r' = WorkerIdle \<or> (\<exists>m. res = Inr m \<and> run_worker r' = WorkerBuilt t batch m g)"
  shows "columns_ok r'"
proof -
  have batch: "worker_batch (run_worker r) = Some (t, batch)" by (simp add: assms(6))
  have base: "base = merged_base_of (run_store r) t" using assms(5,6) by (simp add: worker_ok_def)
  have t: "valid t" by (rule batch_ok(1) [OF assms(2,3) batch])
  obtain rest where rest: "chain_files (run_store r) t = batch @ rest" using batch_ok(3) [OF assms(2,3) batch] ..
  have out: "(\<exists>e. res = Inl e) \<and> column_value fs t = column_value (ps_fs (run_store r)) t \<or>
      column_value fs t = (\<lambda>q. overlay (files_records batch) q (base_value t base q))"
    using merged [OF assms(7) t _ batch_ok(2) [OF assms(2,3) batch]] batch_values [OF assms(2-4) batch] base by blast
  have "\<exists>n. folded_from (run_worker r') t' \<le> n \<and> folded r' t' n" if t': "valid t'" for t'
  proof -
    obtain n where n: "folded r t' n" using assms(1) t' unfolding columns_ok_def by blast
    consider "t' = t" "column_value fs t = (\<lambda>q. overlay (files_records batch) q (base_value t base q))"
      | "run_worker r' = WorkerIdle \<or> t' \<noteq> t" "column_value fs t' = column_value (ps_fs (run_store r)) t'"
      using out assms(11) other_column [OF assms(7) t t'] by fastforce
    then show ?thesis
    proof cases
      case 1
      then have "folded r' t' (length batch)" using rest assms(8-10) base by (simp add: folded_def)
      then show ?thesis using 1 assms(11) by (intro exI [of _ "length batch"]) auto
    next
      case 2
      then have "folded r' t' n" "folded_from (run_worker r') t' = 0"
        using n assms(8-11) by (auto simp: folded_def)
      then show ?thesis by (intro exI [of _ n]) simp
    qed
  qed
  then show ?thesis by (simp add: columns_ok_def)
qed

lemma columns_publish:
  assumes "columns_ok r" "values_ok r" "worker_ok r" "run_worker r = WorkerRemoved t batch m g" "valid t"
    "chain_files (run_store r) t = batch @ rest"
    "merged_base_of st' = (merged_base_of (run_store r))(t := Some m)"
    "chain_files st' = (chain_files (run_store r))(t := rest)"
    "\<And>p. \<not> delta_related dir p \<Longrightarrow> ps_fs st' p = ps_fs (run_store r) p"
  shows "columns_ok (r\<lparr>run_store := st', run_worker := WorkerIdle\<rparr>)"
proof -
  let ?r' = "r\<lparr>run_store := st', run_worker := WorkerIdle\<rparr>"
  have column: "valid t' \<Longrightarrow> column_value (ps_fs st') t' = column_value (ps_fs (run_store r)) t'" for t'
    by (rule column_only [OF assms(9)])
  obtain n where n: "length batch \<le> n" "folded r t n"
    using assms(1,4,5) unfolding columns_ok_def by fastforce
  obtain pre where pre: "run_log r t = pre @ files_records batch @ files_records rest" "commit_ordered (run_log r t)"
    using assms(2,5,6) unfolding values_ok_def by fastforce
  let ?k = "n - length batch"
  have "commit_ordered (files_records batch @ files_records (take ?k rest))"
  proof -
    have "commit_ordered ((pre @ files_records batch @ files_records (take ?k rest)) @ files_records (drop ?k rest))"
      using pre by (simp flip: files_records_append)
    then show ?thesis by (blast dest: commit_ordered_take)
  qed
  moreover have "take n (batch @ rest) = batch @ take ?k rest" using n(1) by simp
  ultimately have "folded ?r' t ?k"
    using n(2) assms(3-8) column [OF assms(5)]
    by (auto simp: folded_def worker_ok_def overlay_append fun_eq_iff)
  moreover have "folded ?r' t' k" if "valid t'" "t' \<noteq> t" "folded r t' k" for t' k
    using that column [of t'] assms(7,8) by (simp add: folded_def)
  ultimately show ?thesis using assms(1) unfolding columns_ok_def
    by (metis (no_types, lifting) folded_from.simps(3) le0 select_convs(3) surjective update_convs(1) update_convs(3))
qed

lemma columns_step:
  assumes "run_step merge valid fits r r'" "files_ok dir valid r" "jobs_ok r" "values_ok r" "worker_ok r" "columns_ok r"
  shows "columns_ok r'"
  using assms(1)
proof cases
  case (prepare t recs io pid p st' f)
  have "ps_directory (run_store r) = dir" using assms(2) by (simp add: files_ok_def)
  then show ?thesis using prepare(1) attach_prepare_summary [OF prepare(7,5)]
    by (intro columns_frame [OF assms(6)]) (auto simp: delta_related_def)
next
  case (prepare_failed t recs io pid p st' e)
  have "ps_directory (run_store r) = dir" using assms(2) by (simp add: files_ok_def)
  then show ?thesis using prepare_failed(1) attach_prepare_summary [OF prepare_failed(6,4)]
    by (intro columns_frame [OF assms(6)]) (auto simp: delta_related_def)
next
  case (commit t f io st')
  from attach_commit_done [OF commit(5)] obtain "merged_base_of st' = merged_base_of (run_store r)"
    "ps_fs st' = ps_fs (run_store r)"
    "chain_files st' = (chain_files (run_store r))(t := chain_files (run_store r) t @ [f])" .
  then show ?thesis unfolding commit(1) by (intro columns_frame [OF assms(6)]) auto
next
  case (commit_failed t f io st' e)
  have "f_path f = delta_path dir t (generation_of f)"
    using assms(2) commit_failed(2) by (auto simp: files_ok_def file_placed_def)
  moreover from attach_commit_failed [OF commit_failed(3)] obtain manifest where
    "st' = (run_store r)\<lparr>ps_fs := destroy_file (ps_fs (run_store r)) (f\<lparr>f_obsolete := True\<rparr>), ps_manifest := manifest\<rparr>" .
  ultimately show ?thesis unfolding commit_failed(1)
    by (intro columns_frame [OF assms(6)]) (auto simp: delta_related_def destroy_file_def)
next
  case (persistent t ios st' e)
  from MarkTargetPersistent_cases [OF persistent(3)] obtain "merged_base_of st' = merged_base_of (run_store r)"
    "ps_fs st' = ps_fs (run_store r)" "chain_files st' = chain_files (run_store r)" .
  then show ?thesis unfolding persistent(1) by (intro columns_frame [OF assms(6)]) auto
next
  case (build t base batch g io fs m)
  show ?thesis unfolding build(1) by (rule columns_merge [OF assms(6,2-5) build(2,3)]) auto
next
  case (build_failed t base batch g io fs e)
  show ?thesis unfolding build_failed(1) by (rule columns_merge [OF assms(6,2-5) build_failed(2,3)]) simp_all
next
  case (remove t batch m g aio manifest)
  then show ?thesis by (intro columns_frame [OF assms(6)]) simp_all
next
  case (publish t batch m g c st')
  let ?rest = "drop (length batch) (chain_files (run_store r) t)"
  from merge_publish_done [OF publish(4,3)] obtain
    pre: "take (length batch) (chain_files (run_store r) t) = batch" and
    fs: "ps_fs st' = foldl destroy_file (ps_fs (run_store r)) (map (\<lambda>f. f\<lparr>f_obsolete := True\<rparr>) batch)" and
    new: "chain_files st' = (chain_files (run_store r))(t := ?rest)"
    "merged_base_of st' = (merged_base_of (run_store r))(t := Some m)" .
  have split: "chain_files (run_store r) t = batch @ ?rest" using pre by (metis append_take_drop_id)
  have "\<forall>f \<in> set (chain_files (run_store r) t). f_path f = delta_path dir t (generation_of f)"
    using assms(2) by (auto simp: files_ok_def file_placed_def)
  then have "\<forall>f \<in> set batch. delta_related dir (f_path f)" by (subst (asm) split) (auto simp: delta_related_def)
  then have keep: "\<not> delta_related dir p \<Longrightarrow> ps_fs st' p = ps_fs (run_store r) p" for p
    by (auto simp: fs destroy_files)
  have "valid t" by (rule batch_ok [OF assms(2,3)]) (simp add: publish(2))
  then show ?thesis unfolding publish(1)
    by (intro columns_publish [OF assms(6,4,5) publish(2) _ split]) (simp_all add: new keep)
next
  case (publish_failed t batch m g c st' e)
  then show ?thesis using publish_cannot_fail [OF assms(3) publish_failed(2,3), of False] by simp
qed (auto intro!: columns_frame [OF assms(6)])

definition run_inv :: "store_run \<Rightarrow> bool" where
  "run_inv r \<longleftrightarrow> files_ok dir valid r \<and> jobs_ok r \<and> log_agrees r \<and> values_ok r \<and> worker_ok r \<and> columns_ok r"

lemma run_inv_step: "run_step merge valid fits r r' \<Longrightarrow> run_inv r \<Longrightarrow> run_inv r'"
  unfolding run_inv_def
  by (auto intro: files_ok_step jobs_ok_step log_agrees_step values_step worker_step columns_step)

lemma run_inv_reachable: "(run_step merge valid fits)\<^sup>*\<^sup>* r r' \<Longrightarrow> run_inv r \<Longrightarrow> run_inv r'"
  by (induction rule: rtranclp_induct) (auto intro: run_inv_step)

lemma run_inv_initial:
  assumes "\<And>t. FindChain st t = None" "ps_jobs st = []" "ps_directory st = dir" "ActiveEntries (ps_manifest st) = []"
    "log_ok (ps_manifest st)" "\<And>t. valid t \<Longrightarrow> base_ok t None \<and> column_value (ps_fs st) t = base_value t None"
  shows "run_inv (initial_run st)"
proof -
  have "chain_files st = (\<lambda>t. [])" "merged_base_of st = (\<lambda>t. None)"
    using assms(1) by (simp_all add: chain_files_def merged_base_of_def fun_eq_iff)
  then show ?thesis
    using assms(2-6)
    by (auto simp: run_inv_def files_ok_def jobs_ok_def log_agrees_def values_ok_def worker_ok_def columns_ok_def
        folded_def initial_run_def logged_def manifest_agrees_def named_def commit_ordered_def entry_map_def)
qed

text \<open>What readers see is what was committed last; what a crash leaves on disk says the same.\<close>

lemma readers_value:
  assumes "run_inv r" "valid t"
  shows "overlay (files_records (chain_files (run_store r) t)) q (base_value t (merged_base_of (run_store r) t) q) =
    overlay (run_log r t) q (base_value t None q)"
proof -
  obtain pre where "run_log r t = pre @ files_records (chain_files (run_store r) t)" "commit_ordered (run_log r t)"
    "base_value t (merged_base_of (run_store r) t) q = overlay pre q (base_value t None q)"
    using assms unfolding run_inv_def values_ok_def by blast
  then show ?thesis by (metis overlay_append)
qed

lemma disk_value:
  assumes "run_inv r" "valid t"
  shows "overlay (files_records (logged r t)) q (column_value (ps_fs (run_store r)) t q) =
    overlay (run_log r t) q (base_value t None q)"
proof -
  let ?files = "chain_files (run_store r) t" and ?b = "logged_from (run_worker r) t"
  obtain n where n: "folded_from (run_worker r) t \<le> n" "folded r t n"
    using assms unfolding run_inv_def columns_ok_def by blast
  moreover have "?b \<le> folded_from (run_worker r) t" by (cases "run_worker r") auto
  ultimately have "take n ?files = take ?b ?files @ take (n - ?b) (drop ?b ?files)"
    by (metis le_add_diff_inverse le_trans take_add)
  then have parts: "take n ?files = take ?b ?files @ take (n - ?b) (drop ?b ?files)"
    "?files = take ?b ?files @ take (n - ?b) (drop ?b ?files) @ drop (n - ?b) (drop ?b ?files)"
    "logged r t = take (n - ?b) (drop ?b ?files) @ drop (n - ?b) (drop ?b ?files)"
    by (simp_all add: logged_def del: drop_drop)
  obtain pre where "run_log r t = pre @ files_records ?files" "commit_ordered (run_log r t)"
    using assms unfolding run_inv_def values_ok_def by blast
  then have ordered: "commit_ordered (files_records ?files)" by (metis commit_ordered_take)
  have "overlay (files_records (logged r t)) q (column_value (ps_fs (run_store r)) t q) =
      overlay (files_records ?files) q (base_value t (merged_base_of (run_store r) t) q)"
    using overlay_redo [of "files_records (take ?b ?files)" "files_records (take (n - ?b) (drop ?b ?files))"
        "files_records (drop (n - ?b) (drop ?b ?files))"] ordered parts n(2)
    unfolding folded_def by (metis files_records_append)
  also have "\<dots> = overlay (run_log r t) q (base_value t None q)" by (rule readers_value [OF assms])
  finally show ?thesis .
qed

end

end
