(* ===== verification/DeltaRecovery.thy ===== *)
theory DeltaRecovery
  imports DeltaRunInv "HOL-Library.Multiset"
begin

text \<open>
  The delta store with its merge callback (\<^verbatim>\<open>src/property_delta_store.cpp\<close> with
  \<^verbatim>\<open>MergePropertyDeltaColumn\<close> of \<^verbatim>\<open>src/lsmstore.cpp\<close>): the callback satisfies the contract of
  \<open>column_merge\<close>, and recovery from the manifest rebuilds the chains the log names.
\<close>

section \<open>The callback\<close>

text \<open>A target of a live table of the store, and a value its column can hold.\<close>

definition target_ok :: "lsm_config \<Rightarrow> PropertyDeltaTarget \<Rightarrow> bool" where
  "target_ok cfg t \<longleftrightarrow> t_kind t = l_kind cfg \<and> t_shard_id t = l_shard cfg \<and>
     t_base_generation t = ucast (t_base_file_id t) \<and> unat (t_property_id t) < length (l_lengths cfg) \<and>
     (\<exists>tb es starts. l_tables cfg (t_base_file_id t) = Some tb \<and> sst_ok tb es starts)"

definition column_fits :: "lsm_config \<Rightarrow> layout_env \<Rightarrow> PropertyDeltaTarget \<Rightarrow> PropertyDeltaRecord \<Rightarrow> bool" where
  "column_fits cfg env t r \<longleftrightarrow>
     slot_fits (GetSubPropertyFixedLength (merge_layout cfg env) (int (unat (t_property_id t)))) (r_value r)"

definition column_base_ok :: "lsm_config \<Rightarrow> PropertyDeltaTarget \<Rightarrow> MappedPropertyFile option \<Rightarrow> bool" where
  "column_base_ok cfg t base \<longleftrightarrow> (\<forall>tb. l_tables cfg (t_base_file_id t) = Some tb \<longrightarrow>
     length (merge_base tb base (unat (t_property_id t))) < 2 ^ 64)"

definition value_in :: "lsm_config \<Rightarrow> layout_env \<Rightarrow> PropertyDeltaTarget \<Rightarrow> (SstTable \<Rightarrow> bytes option) \<Rightarrow> PropertyDeltaRecord \<Rightarrow> string option" where
  "value_in cfg env t column q =
     (case l_tables cfg (t_base_file_id t) of
        None \<Rightarrow> None
      | Some tb \<Rightarrow> (case (LocateSstEdgeOrdinal (Some tb) q, column tb) of
          (Some j, Some col) \<Rightarrow> column_slot (merge_layout cfg env) (int (unat (t_property_id t))) col j
        | _ \<Rightarrow> None))"

definition merged_value :: "lsm_config \<Rightarrow> layout_env \<Rightarrow> PropertyDeltaTarget \<Rightarrow> MappedPropertyFile option \<Rightarrow> PropertyDeltaRecord \<Rightarrow> string option" where
  "merged_value cfg env t base = value_in cfg env t (\<lambda>tb. Some (merge_base tb base (unat (t_property_id t))))"

definition disk_column_value :: "lsm_config \<Rightarrow> layout_env \<Rightarrow> file_system \<Rightarrow> PropertyDeltaTarget \<Rightarrow> PropertyDeltaRecord \<Rightarrow> string option" where
  "disk_column_value cfg env fs t = value_in cfg env t (\<lambda>tb. fs (column_path cfg t))"

subsection \<open>Paths\<close>

lemma BaseName_slash: "CHR ''/'' \<notin> set n \<Longrightarrow> BaseName (d @ CHR ''/'' # n) = n"
  using BaseName_join [of n "d @ ''/''"] by (simp add: path_join_def)

lemma to_string_hd [simp]: "to_string n = c # cs \<Longrightarrow> c \<noteq> CHR ''d''"
  using to_string_no_char [of "CHR ''d''" n] by auto

lemma delta_related_BaseName:
  assumes "delta_related dir p"
  shows "\<exists>n. BaseName p = CHR ''d'' # n"
proof -
  from assms obtain t g suf where p: "p = path_join dir (DeltaFileName t g @ suf)" "CHR ''/'' \<notin> set suf"
  proof (clarsimp simp: delta_related_def, elim disjE exE)
    fix t g assume *: "\<And>t g suf. p = path_join dir (DeltaFileName t g @ suf) \<Longrightarrow> CHR ''/'' \<notin> set suf \<Longrightarrow> thesis"
    { assume "p = delta_path dir t g" then show thesis using * [of t g "[]"] by (simp add: delta_path_def) }
    fix pid g' assume "p = temporary_name (delta_path dir t g) pid g'"
    then show thesis
      using * [of t g "''.tmp.'' @ to_string pid @ ''.'' @ to_string (unat g')"]
      by (simp add: delta_path_def temporary_name_def path_join_def to_string_no_char)
  qed
  then have "BaseName p = DeltaFileName t g @ suf"
    using DeltaFileName_chars(1) by (simp add: BaseName_join)
  then show ?thesis by (simp add: DeltaFileName_def)
qed

lemma column_BaseName:
  assumes "CHR ''/'' \<notin> set suf"
  shows "BaseName (column_path cfg t @ suf) =
    to_string (unat (t_base_file_id t)) @ ''.sst_p_'' @ to_string (unat (t_property_id t)) @ suf"
  using assms BaseName_slash [of _ "l_data_dir cfg"]
  by (simp add: column_path_def pFileName_def pFileName_with_id_def to_string_no_char)

lemma column_not_delta:
  assumes "CHR ''/'' \<notin> set suf"
  shows "\<not> delta_related dir (column_path cfg t @ suf)"
proof
  assume "delta_related dir (column_path cfg t @ suf)"
  then obtain n where "to_string (unat (t_base_file_id t)) @ ''.sst_p_'' @ to_string (unat (t_property_id t)) @ suf = CHR ''d'' # n"
    using delta_related_BaseName column_BaseName [OF assms] by metis
  then show False by (cases "to_string (unat (t_base_file_id t))") auto
qed

lemma column_path_inj:
  assumes "target_ok cfg t" "target_ok cfg t'" "column_path cfg t = column_path cfg t'"
  shows "t = t'"
proof -
  have "to_string (unat (t_base_file_id t)) @ CHR ''.'' # ''sst_p_'' @ to_string (unat (t_property_id t)) =
      to_string (unat (t_base_file_id t')) @ CHR ''.'' # ''sst_p_'' @ to_string (unat (t_property_id t'))"
    using column_BaseName [of "[]" cfg t] column_BaseName [of "[]" cfg t'] assms(3) by simp
  from separator_split [OF this] have "to_string (unat (t_base_file_id t)) = to_string (unat (t_base_file_id t'))"
    "to_string (unat (t_property_id t)) = to_string (unat (t_property_id t'))"
    by (simp_all add: to_string_no_char)
  then show ?thesis using assms(1,2) by (auto simp: target_ok_def word_unat_eq_iff [symmetric] intro: PropertyDeltaTarget.equality)
qed

subsection \<open>The contract\<close>

lemma merge_frame:
  assumes "MergePropertyDeltaColumn cfg env io fs t base deltas gen = (fs', res)"
    "q \<noteq> column_path cfg t" "q \<noteq> column_path cfg t @ ''.merge.'' @ to_string (unat gen) @ ''.tmp''"
  shows "fs' q = fs q"
proof -
  let ?tmp = "column_path cfg t @ ''.merge.'' @ to_string (unat gen) @ ''.tmp''"
  have "fs' = fs \<or> (\<exists>filled. publish_column cfg io fs ?tmp (column_path cfg t) filled gen = (fs', res))"
    using assms(1)
    by (auto simp: MergePropertyDeltaColumn_def Let_def column_path_def [symmetric] split: if_splits option.splits)
      (metis prod_cases3)+
  then show ?thesis
  proof (elim disjE exE)
    fix filled assume "publish_column cfg io fs ?tmp (column_path cfg t) filled gen = (fs', res)"
    then show ?thesis using publish_column_outcome [of cfg io fs ?tmp "column_path cfg t" _ _ _ gen fs' res] assms(2,3)
      by (cases filled) auto
  qed simp
qed

lemma value_in_fold:
  assumes "l_tables cfg (t_base_file_id t) = Some tb" "sst_ok tb es starts"
    "length base < 2 ^ 64" "commit_ordered rs" "list_all (column_fits cfg env t) rs"
    "visit_list (merge_record (merge_layout cfg env) (Some tb) (int (unat (t_property_id t))) (length base)) rs (base, None) =
       (True, (out, err))"
  shows "value_in cfg env t (\<lambda>tb. Some out) = (\<lambda>q. overlay rs q (value_in cfg env t (\<lambda>tb. Some base) q))"
proof
  fix q
  show "value_in cfg env t (\<lambda>tb. Some out) q = overlay rs q (value_in cfg env t (\<lambda>tb. Some base) q)"
  proof (cases "LocateSstEdgeOrdinal (Some tb) q")
    case None
    have "newest (rkey q) kLatestPropertyCommit rs = None"
    proof (rule ccontr)
      assume "newest (rkey q) kLatestPropertyCommit rs \<noteq> None"
      then obtain r where r: "r \<in> set rs" "rkey r = rkey q" using newest_member by (metis option.exhaust)
      then show False using merge_fold [OF assms(6,3)] None LocateSstEdgeOrdinal_key [OF r(2)] by fastforce
    qed
    with None show ?thesis by (simp add: value_in_def assms(1) overlay_def)
  next
    case (Some j)
    have "\<forall>r \<in> set rs. slot_fits (GetSubPropertyFixedLength (merge_layout cfg env) (int (unat (t_property_id t)))) (r_value r)"
      using assms(5) by (auto simp: list_all_iff column_fits_def)
    from merged_slot [OF assms(2) Some assms(4) this assms(3,6)] Some
    show ?thesis by (simp add: value_in_def assms(1) overlay_def del: of_nat_unat)
  qed
qed

lemma merge_contract:
  assumes "MergePropertyDeltaColumn cfg env io fs t base batch g = (fs', res)" "target_ok cfg t"
    "column_base_ok cfg t base" "list_all delta_file_ok batch" "list_all (column_fits cfg env t) (files_records batch)"
    "commit_ordered (files_records batch)"
  shows "(\<exists>e. res = Inl e) \<and> disk_column_value cfg env fs' t = disk_column_value cfg env fs t \<or>
    disk_column_value cfg env fs' t = (\<lambda>q. overlay (files_records batch) q (merged_value cfg env t base q)) \<and>
    (\<forall>m. res = Inr m \<longrightarrow> column_base_ok cfg t (Some m) \<and> merged_value cfg env t (Some m) = disk_column_value cfg env fs' t)"
proof -
  let ?pid = "unat (t_property_id t)"
  obtain tb es starts where tb: "l_tables cfg (t_base_file_id t) = Some tb" and ok: "sst_ok tb es starts"
    using assms(2) by (auto simp: target_ok_def)
  let ?base = "merge_base tb base ?pid"
  let ?fold = "visit_list (merge_record (merge_layout cfg env) (Some tb) (int ?pid) (length ?base))
     (files_records batch) (?base, None)"
  have size: "length ?base < 2 ^ 64" using assms(3) tb by (simp add: column_base_ok_def)
  note folds = value_in_fold [OF tb ok size assms(6,5)]
  have base: "merged_value cfg env t base = value_in cfg env t (\<lambda>tb. Some ?base)"
    by (simp add: merged_value_def value_in_def tb fun_eq_iff)
  note cases = merge_cases [OF tb assms(4,1), folded files_records_def, THEN conjunct1]
  show ?thesis
  proof (cases res)
    case (Inl e)
    from cases show ?thesis
    proof (elim disjE conjE exE)
      fix out err assume "fs' (column_path cfg t) = Some out" "?fold = (True, (out, err))"
      with folds [of out err] Inl show ?thesis by (simp add: disk_column_value_def base del: of_nat_unat)
    qed (simp add: Inl disk_column_value_def)
  next
    case (Inr m)
    obtain err where fill: "?fold = (True, (mp_data m, err))"
      using merge_filled [of cfg env io fs t base batch g fs' m, OF _ assms(4) tb refl] assms(1) Inr
      unfolding files_records_def by blast
    have "fs' (column_path cfg t) = Some (mp_data m)"
      using merge_outcome [of cfg env io fs t base batch g fs' m] assms(1,4) Inr by metis
    then have disk: "disk_column_value cfg env fs' t = value_in cfg env t (\<lambda>tb. Some (mp_data m))"
      by (simp add: disk_column_value_def)
    moreover have "length (mp_data m) < 2 ^ 64" using merge_fold [OF fill size] size by simp
    moreover have "merged_value cfg env t (Some m) = value_in cfg env t (\<lambda>tb. Some (mp_data m))"
      "column_base_ok cfg t (Some m) \<longleftrightarrow> length (mp_data m) < 2 ^ 64"
      using tb by (simp_all add: merged_value_def column_base_ok_def merge_base_def)
    ultimately show ?thesis using folds [OF fill] Inr by (simp add: base)
  qed
qed

interpretation delta_runs: column_merge "MergePropertyDeltaColumn cfg env" dir "target_ok cfg" "column_fits cfg env"
  "column_base_ok cfg" "merged_value cfg env" "disk_column_value cfg env" for cfg env dir
proof
  fix io fs t base batch g fs' res t'
  assume merge: "MergePropertyDeltaColumn cfg env io fs t base batch g = (fs', res)"
  { assume "target_ok cfg t" "target_ok cfg t'" "t' \<noteq> t"
    then have "column_path cfg t' \<noteq> column_path cfg t" using column_path_inj by blast
    moreover have "column_path cfg t' \<noteq> column_path cfg t @ ''.merge.'' @ to_string (unat g) @ ''.tmp''"
    proof
      assume eq: "column_path cfg t' = column_path cfg t @ ''.merge.'' @ to_string (unat g) @ ''.tmp''"
      have "CHR ''m'' \<notin> set (BaseName (column_path cfg t'))"
        using column_BaseName [of "[]" cfg t'] by (simp add: to_string_no_char)
      with eq show False
        using column_BaseName [of "''.merge.'' @ to_string (unat g) @ ''.tmp''" cfg t] by (simp add: to_string_no_char)
    qed
    ultimately show "disk_column_value cfg env fs' t' = disk_column_value cfg env fs t'"
      using merge_frame [OF merge] by (simp add: disk_column_value_def) }
  fix g'
  have "delta_related dir (delta_path dir t' g')" by (auto simp: delta_related_def)
  then show "fs' (delta_path dir t' g') = fs (delta_path dir t' g')"
    using column_not_delta [of "[]" dir cfg t] column_not_delta [of "''.merge.'' @ to_string (unat g) @ ''.tmp''" dir cfg t]
    by (intro merge_frame [OF merge]) (auto simp: to_string_no_char)
next
  fix fs' fs :: file_system and t
  assume "\<And>p. \<not> delta_related dir p \<Longrightarrow> fs' p = fs p"
  then have "fs' (column_path cfg t) = fs (column_path cfg t)" using column_not_delta [of "[]" dir cfg t] by simp
  then show "disk_column_value cfg env fs' t = disk_column_value cfg env fs t" by (simp add: disk_column_value_def)
qed (rule merge_contract)

section \<open>Recovery\<close>

definition open_ok :: open_io where
  "open_ok = \<lparr>io_open = True, io_fstat = True, io_mmap = True\<rparr>"

text \<open>An entry whose file opens with the metadata logged for it and whose base table is on disk.\<close>

definition entry_file :: "string \<Rightarrow> file_system \<Rightarrow> PropertyDeltaManifestEntry \<Rightarrow> PropertyDeltaFile \<Rightarrow> bool" where
  "entry_file dir fs e f \<longleftrightarrow> opens_to fs (path_join dir (e_file_name e)) f \<and> f_metadata f = e_metadata e \<and>
     fs (base_sst_path dir (t_base_file_id (m_target (e_metadata e)))) \<noteq> None"

definition keeps :: "PropertyDeltaStore \<Rightarrow> PropertyDeltaStore \<Rightarrow> bool" where
  "keeps st st' \<longleftrightarrow> ps_fs st' = ps_fs st \<and> ps_directory st' = ps_directory st \<and> ps_manifest st' = ps_manifest st \<and>
     ps_jobs st' = ps_jobs st \<and> merged_base_of st' = merged_base_of st"

lemma recover_entry_ready:
  assumes "entry_file (ps_directory st) (ps_fs st) e f"
  shows "\<exists>st'. recover_entry open_ok e (st, mx, ab, pr) =
      Inr (st', max mx (generation_of f), ab,
           if e_target_is_persistent e then pr else pr @ [e\<lparr>e_target_is_persistent := True\<rparr>]) \<and> keeps st st' \<and>
    chain_files st' = (chain_files st)(m_target (e_metadata e) :=
      sort_key generation_of (chain_files st (m_target (e_metadata e)) @ [f]))"
proof -
  let ?t = "m_target (e_metadata e)"
  obtain c where c: "GetOrCreateChain st ?t True = (set_chain ?t c st, c)"
    "c_read_view c = c_read_view (chain_or_empty st ?t)"
    using GetOrCreateChain_set [of st ?t True] by blast
  have "OpenAndValidate open_ok (ps_fs st) (path_join (ps_directory st) (e_file_name e)) = Inr f"
    "f_metadata f = e_metadata e" "ps_fs st (base_sst_path (ps_directory st) (t_base_file_id ?t)) \<noteq> None"
    using assms by (simp_all add: entry_file_def opens_to_def open_ok_def)
  then show ?thesis
    using c
    by (auto simp: recover_entry_def Let_def MetadataMatches_def target_eq_def keeps_def fun_eq_iff generation_of_def
        generation_of_def [abs_def])
qed

lemma keeps_trans: "keeps a b \<Longrightarrow> keeps b c \<Longrightarrow> keeps a c"
  by (simp add: keeps_def)

lemma recover_entries_ready:
  assumes "list_all2 (entry_file dir disk) es fs" "ps_directory st = dir" "ps_fs st = disk"
    "\<forall>t. sorted (map generation_of (chain_files st t))"
  shows "\<exists>st' mx' pr'. recover_entries open_ok es (st, mx, ab, pr) = Inr (st', mx', ab, pr @ pr') \<and> keeps st st' \<and>
    mx' = foldl max mx (map generation_of fs) \<and>
    set pr' \<subseteq> (\<lambda>e. e\<lparr>e_target_is_persistent := True\<rparr>) ` set es \<and>
    (\<forall>t. sorted (map generation_of (chain_files st' t)) \<and>
         mset (chain_files st' t) = mset (chain_files st t) + mset (filter (\<lambda>f. m_target (f_metadata f) = t) fs))"
  using assms
proof (induction es fs arbitrary: st mx pr rule: list_all2_induct)
  case Nil
  then show ?case by (intro exI [of _ st] exI [of _ mx] exI [of _ "[]"]) (simp add: keeps_def)
next
  case (Cons e es f fs)
  let ?t = "m_target (e_metadata e)"
  from recover_entry_ready [of st e f] Cons.hyps(1) Cons.prems(1,2) obtain st1 where
    step: "recover_entry open_ok e (st, mx, ab, pr) =
      Inr (st1, max mx (generation_of f), ab,
           if e_target_is_persistent e then pr else pr @ [e\<lparr>e_target_is_persistent := True\<rparr>])" and keep: "keeps st st1" and
    files: "chain_files st1 = (chain_files st)(?t := sort_key generation_of (chain_files st ?t @ [f]))" by blast
  have md: "m_target (f_metadata f) = ?t" using Cons.hyps(1) by (simp add: entry_file_def)
  have sorted1: "\<forall>t. sorted (map generation_of (chain_files st1 t))" using Cons.prems files by simp
  have same: "ps_directory st1 = dir" "ps_fs st1 = disk" using keep Cons.prems by (simp_all add: keeps_def)
  let ?p = "if e_target_is_persistent e then [] else [e\<lparr>e_target_is_persistent := True\<rparr>]"
  from Cons.IH [of st1 "max mx (generation_of f)" "pr @ ?p"] sorted1 same obtain st' mx' pr' where
    rest: "recover_entries open_ok es (st1, max mx (generation_of f), ab, pr @ ?p) = Inr (st', mx', ab, (pr @ ?p) @ pr')"
    "keeps st1 st'" "mx' = foldl max (max mx (generation_of f)) (map generation_of fs)"
    "set pr' \<subseteq> (\<lambda>e. e\<lparr>e_target_is_persistent := True\<rparr>) ` set es"
    "\<forall>t. sorted (map generation_of (chain_files st' t)) \<and>
         mset (chain_files st' t) = mset (chain_files st1 t) + mset (filter (\<lambda>f. m_target (f_metadata f) = t) fs)"
    by auto
  show ?case
  proof (intro exI conjI)
    show "recover_entries open_ok (e # es) (st, mx, ab, pr) = Inr (st', mx', ab, pr @ (?p @ pr'))"
      using step rest(1) by (cases "e_target_is_persistent e") simp_all
    show "keeps st st'" using keep rest(2) by (rule keeps_trans)
    show "\<forall>t. sorted (map generation_of (chain_files st' t)) \<and>
         mset (chain_files st' t) = mset (chain_files st t) + mset (filter (\<lambda>f. m_target (f_metadata f) = t) (f # fs))"
      using rest(5) files md by simp
  qed (use rest(3,4) in auto)
qed

lemma schedule_recovered_keeps:
  "chain_files (schedule_recovered cb st ts) = chain_files st \<and> ps_fs (schedule_recovered cb st ts) = ps_fs st \<and>
   ps_directory (schedule_recovered cb st ts) = ps_directory st \<and>
   ps_next_file_generation (schedule_recovered cb st ts) = ps_next_file_generation st \<and>
   ps_manifest (schedule_recovered cb st ts) = ps_manifest st \<and>
   merged_base_of (schedule_recovered cb st ts) = merged_base_of st"
proof (induction ts arbitrary: st)
  case (Cons t ts)
  let ?st = "case FindChain st t of None \<Rightarrow> st
        | Some chain \<Rightarrow>
            if cb \<and> c_target_is_persistent chain \<and> length (v_deltas (c_read_view chain)) \<ge> unat (ps_merge_threshold st)
            then ScheduleMerge (set_chain t (chain\<lparr>c_merge_scheduled_or_running := True\<rparr>) st) t else st"
  have "chain_files ?st = chain_files st \<and> ps_fs ?st = ps_fs st \<and> ps_directory ?st = ps_directory st \<and>
      ps_next_file_generation ?st = ps_next_file_generation st \<and> ps_manifest ?st = ps_manifest st \<and>
      merged_base_of ?st = merged_base_of st"
    by (cases "FindChain st t")
      (auto simp: ScheduleMerge_def fun_eq_iff chain_files_def [of st] merged_base_of_def [of st])
  with Cons.IH [of ?st] show ?case by simp
qed simp

lemma append_all_agrees:
  assumes "append_all ios m es = Some (m', None)" "manifest_agrees m files"
    "\<forall>e \<in> set es. \<exists>t f. f \<in> set (files t) \<and> e_file_name e = DeltaFileName t (generation_of f) \<and> e_metadata e = f_metadata f"
  shows "manifest_agrees m' files"
  using assms
proof (induction ios m es rule: append_all.induct)
  case (3 io ios m e es)
  obtain m1 where m1: "AppendAdd io m e = Some (m1, None)" "append_all ios m1 es = Some (m', None)"
    using "3.prems"(1) by (auto split: option.splits)
  obtain t f where "f \<in> set (files t)" "e_file_name e = DeltaFileName t (generation_of f)" "e_metadata e = f_metadata f"
    using "3.prems"(3) by auto
  from manifest_agrees_again [OF "3.prems"(2) AppendAdd_done [OF m1(1)] this] 3 m1 show ?case by auto
qed simp_all

text \<open>The entries of the log and the files they name, in the order of the log.\<close>

definition placed :: "string \<Rightarrow> file_system \<Rightarrow> PropertyDeltaTarget \<Rightarrow> PropertyDeltaFile \<Rightarrow> bool" where
  "placed dir fs t f \<longleftrightarrow> m_target (f_metadata f) = t \<and> f_path f = delta_path dir t (generation_of f) \<and> opens_to fs (f_path f) f \<and>
     fs (base_sst_path dir (t_base_file_id t)) \<noteq> None"

lemma entries_files:
  assumes "manifest_agrees m files" "\<And>t f. f \<in> set (files t) \<Longrightarrow> placed dir fs t f"
  obtains fl where "list_all2 (entry_file dir fs) (ActiveEntries m) fl"
    "list_all2 (\<lambda>e f. f \<in> set (files (m_target (f_metadata f))) \<and>
       e_file_name e = DeltaFileName (m_target (f_metadata f)) (generation_of f)) (ActiveEntries m) fl"
proof -
  have "\<exists>f. entry_file dir fs e f \<and> f \<in> set (files (m_target (f_metadata f))) \<and>
      e_file_name e = DeltaFileName (m_target (f_metadata f)) (generation_of f)" if "e \<in> set (ActiveEntries m)" for e
  proof -
    have "entry_map (ActiveEntries m) (e_file_name e) = Some e"
      using assms(1) that by (auto simp: manifest_agrees_def entry_map_def intro!: map_of_is_SomeI simp: comp_def)
    then have "named files (e_file_name e) (e_metadata e)"
      using assms(1) unfolding manifest_agrees_def by (metis option.simps(9))
    then obtain t f where f: "f \<in> set (files t)" "e_file_name e = DeltaFileName t (generation_of f)" "e_metadata e = f_metadata f"
      by (auto simp: named_def)
    with assms(2) [OF f(1)] show ?thesis
      by (intro exI [of _ f]) (auto simp: placed_def entry_file_def delta_path_def)
  qed
  then obtain g where "\<forall>e \<in> set (ActiveEntries m). entry_file dir fs e (g e) \<and> g e \<in> set (files (m_target (f_metadata (g e)))) \<and>
      e_file_name e = DeltaFileName (m_target (f_metadata (g e))) (generation_of (g e))" by metis
  then show ?thesis by (intro that [of "map g (ActiveEntries m)"]) (auto simp: list_all2_conv_all_nth)
qed

lemma named_active:
  assumes "manifest_agrees m files" "f \<in> set (files t)"
  shows "DeltaFileName t (generation_of f) \<in> set (map e_file_name (ActiveEntries m))"
proof -
  have "named files (DeltaFileName t (generation_of f)) (f_metadata f)" using assms(2) by (auto simp: named_def)
  then obtain e where "entry_map (ActiveEntries m) (DeltaFileName t (generation_of f)) = Some e"
    using assms(1) unfolding manifest_agrees_def by (metis map_option_eq_Some)
  then show ?thesis by (auto simp: entry_map_def dest!: map_of_SomeD)
qed

lemma recovered_chain:
  assumes "manifest_agrees m files" "\<And>t f. f \<in> set (files t) \<Longrightarrow> placed dir fs t f"
    "sorted_wrt (<) (map generation_of (files t))"
    "list_all2 (\<lambda>e f. f \<in> set (files (m_target (f_metadata f))) \<and>
       e_file_name e = DeltaFileName (m_target (f_metadata f)) (generation_of f)) (ActiveEntries m) fl"
    "sorted (map generation_of chain)" "mset chain = mset (filter (\<lambda>f. m_target (f_metadata f) = t) fl)"
  shows "chain = files t"
proof -
  let ?fl = "filter (\<lambda>f. m_target (f_metadata f) = t) fl"
  have names: "map e_file_name (ActiveEntries m) = map (\<lambda>f. DeltaFileName (m_target (f_metadata f)) (generation_of f)) fl"
    using assms(4) by (auto simp: list_all2_conv_all_nth intro!: nth_equalityI)
  then have "distinct (map (\<lambda>f. DeltaFileName (m_target (f_metadata f)) (generation_of f)) fl)"
    using assms(1) by (simp add: manifest_agrees_def)
  then have "distinct (map generation_of ?fl)" by (auto simp: distinct_map inj_on_def)
  moreover have "mset (map generation_of chain) = mset (map generation_of ?fl)" using assms(6) by simp
  ultimately have dist: "distinct (map generation_of chain)" using mset_eq_imp_distinct_iff by metis
  have dist_t: "sorted (map generation_of (files t))" "distinct (map generation_of (files t))"
    using assms(3) by (simp_all add: strict_sorted_iff)
  have sub: "set ?fl \<subseteq> set (files t)" using assms(4) by (auto simp: list_all2_conv_all_nth in_set_conv_nth)
  have sup: "f \<in> set ?fl" if f: "f \<in> set (files t)" for f
  proof -
    have "DeltaFileName t (generation_of f) \<in> set (map e_file_name (ActiveEntries m))"
      by (rule named_active [OF assms(1) f])
    then obtain f' where f': "f' \<in> set fl" "m_target (f_metadata f') = t" "generation_of f' = generation_of f"
      unfolding names by auto
    then have "f' \<in> set (files t)" using sub by auto
    then have "f' = f" using f dist_t(2) f'(3) by (auto simp: distinct_map inj_on_def)
    with f' show ?thesis by simp
  qed
  have "set chain = set (files t)" using sub sup assms(6) by (metis mset_eq_setD subsetI subset_antisym)
  moreover have "inj_on generation_of (set chain \<union> set (files t))" using calculation dist_t by (simp add: distinct_map)
  ultimately show ?thesis using map_sorted_distinct_set_unique [of generation_of chain "files t"] dist dist_t assms(5) by simp
qed

lemma sublist_set: "sublist xs ys \<Longrightarrow> set xs \<subseteq> set ys"
  by (auto simp: sublist_def)

text \<open>Removing orphans spares the files the log names and the column files.\<close>

lemma RemoveOrphanFiles_keeps:
  "ps_fs (RemoveOrphanFiles st) (column_path cfg t) = ps_fs st (column_path cfg t)"
  "DeltaFileName t g \<in> set (map e_file_name (ActiveEntries (ps_manifest st))) \<Longrightarrow>
   ps_fs (RemoveOrphanFiles st) (delta_path (ps_directory st) t g) = ps_fs st (delta_path (ps_directory st) t g)"
proof -
  have col: "path_filename (column_path cfg t) = to_string (unat (t_base_file_id t)) @ ''.sst_p_'' @ to_string (unat (t_property_id t))"
    using column_BaseName [of "[]" cfg t] by (simp add: BaseName_def)
  have "CHR ''m'' \<notin> set (path_filename (column_path cfg t))" by (simp add: col to_string_no_char)
  moreover have "\<not> prefix ''delta-'' (path_filename (column_path cfg t))"
    by (cases "to_string (unat (t_base_file_id t))") (auto simp: col dest: to_string_hd)
  ultimately have "\<not> is_orphan active (path_filename (column_path cfg t))" for active
    by (auto simp: is_orphan_def dest!: sublist_set)
  then show "ps_fs (RemoveOrphanFiles st) (column_path cfg t) = ps_fs st (column_path cfg t)"
    by (simp add: RemoveOrphanFiles_def)
  assume "DeltaFileName t g \<in> set (map e_file_name (ActiveEntries (ps_manifest st)))"
  moreover have name: "path_filename (delta_path (ps_directory st) t g) = DeltaFileName t g"
    using BaseName_join [OF DeltaFileName_chars(1)] by (simp add: delta_path_def BaseName_def)
  moreover have "CHR ''m'' \<notin> set (DeltaFileName t g)" by (simp add: DeltaFileName_def to_string_no_char)
  ultimately have "\<not> is_orphan (map e_file_name (ActiveEntries (ps_manifest st))) (path_filename (delta_path (ps_directory st) t g))"
    by (auto simp: is_orphan_def dest!: sublist_set)
  then show "ps_fs (RemoveOrphanFiles st) (delta_path (ps_directory st) t g) = ps_fs st (delta_path (ps_directory st) t g)"
    by (simp add: RemoveOrphanFiles_def)
qed

lemma RemoveOrphanFiles_state [simp]:
  "chain_files (RemoveOrphanFiles st) = chain_files st" "ps_directory (RemoveOrphanFiles st) = ps_directory st"
  "ps_manifest (RemoveOrphanFiles st) = ps_manifest st" "merged_base_of (RemoveOrphanFiles st) = merged_base_of st"
  "ps_next_file_generation (RemoveOrphanFiles st) = ps_next_file_generation st" "ps_chains (RemoveOrphanFiles st) = ps_chains st"
  by (simp_all add: RemoveOrphanFiles_def Let_def)

lemma finish_recovery_keeps:
  assumes "finish_recovery cb io st mx [] pr = Some res"
  shows "(\<exists>e. res = Inl (ManifestFailed e)) \<or>
    (\<exists>st' m'. res = Inr st' \<and> append_all (si_promote io) (ps_manifest st) pr = Some (m', None) \<and>
       chain_files st' = chain_files st \<and> ps_directory st' = ps_directory st \<and> ps_manifest st' = m' \<and>
       merged_base_of st' = merged_base_of st \<and> ps_next_file_generation st' = mx + 1 \<and>
       ps_fs st' = ps_fs (RemoveOrphanFiles (st\<lparr>ps_manifest := m'\<rparr>)))"
proof -
  obtain m' e where m': "append_all (si_promote io) (ps_manifest st) pr = Some (m', e)"
    using assms by (auto simp: finish_recovery_def split: option.splits)
  show ?thesis
  proof (cases e)
    case None
    let ?st = "RemoveOrphanFiles (st\<lparr>ps_manifest := m', ps_fs := ps_fs st, ps_next_file_generation := mx + 1\<rparr>)"
    have res: "res = Inr (schedule_recovered cb ?st (map fst (ps_chains ?st)))"
      using assms m' None by (simp add: finish_recovery_def AppendRemove_def Let_def)
    then show ?thesis using m' None schedule_recovered_keeps [of cb ?st "map fst (ps_chains ?st)"]
      by (auto simp: RemoveOrphanFiles_def Let_def)
  next
    case (Some x)
    then show ?thesis using assms m' by (auto simp: finish_recovery_def)
  qed
qed

lemma foldl_max_bound: "(\<forall>x \<in> set xs. unat x < n) \<Longrightarrow> unat m < n \<Longrightarrow> unat (foldl max m xs :: u64) < n"
  by (induction xs arbitrary: m) (auto simp: max_def)

lemma recovery_rebuilds:
  assumes run: "OpenAndRecoverStore cb io fs dir thr dur log = Some res" and "thr \<noteq> 0" "si_open io = open_ok"
    and log: "OpenAndRecover (si_manifest io) dur log = Some (log', Inr m)" "manifest_agrees m files"
    and files: "\<And>t f. f \<in> set (files t) \<Longrightarrow> placed dir fs t f" "\<And>t. sorted_wrt (<) (map generation_of (files t))"
      "\<And>t f. f \<in> set (files t) \<Longrightarrow> unat (generation_of f) + 1 < 2 ^ 64"
  shows "(\<exists>e. res = Inl (ManifestFailed e)) \<or>
    (\<exists>st. res = Inr st \<and> chain_files st = files \<and> merged_base_of st = (\<lambda>t. None) \<and> ps_directory st = dir \<and>
       manifest_agrees (ps_manifest st) files \<and>
       (\<forall>t. \<forall>f \<in> set (files t). ps_fs st (f_path f) = fs (f_path f) \<and> generation_of f < ps_next_file_generation st) \<and>
       (\<forall>cfg t. ps_fs st (column_path cfg t) = fs (column_path cfg t)))"
proof -
  from entries_files [OF log(2) files(1)] obtain fl where fl: "list_all2 (entry_file dir fs) (ActiveEntries m) fl"
    and named: "list_all2 (\<lambda>e f. f \<in> set (files (m_target (f_metadata f))) \<and>
       e_file_name e = DeltaFileName (m_target (f_metadata f)) (generation_of f)) (ActiveEntries m) fl" .
  have listed: "\<exists>t f. f \<in> set (files t) \<and> e_file_name e = DeltaFileName t (generation_of f) \<and> e_metadata e = f_metadata f"
    if e: "e \<in> set (ActiveEntries m)" for e
  proof -
    obtain i where i: "i < length (ActiveEntries m)" "e = ActiveEntries m ! i" using e by (auto simp: in_set_conv_nth)
    then show ?thesis
      using list_all2_nthD [OF fl i(1)] list_all2_nthD [OF named i(1)]
      by (intro exI [of _ "m_target (f_metadata (fl ! i))"] exI [of _ "fl ! i"]) (simp add: entry_file_def)
  qed
  have members: "f \<in> set (files (m_target (f_metadata f)))" if "f \<in> set fl" for f
    using named that by (auto simp: list_all2_conv_all_nth in_set_conv_nth)
  let ?st0 = "new_store fs dir thr dur m"
  have new: "chain_files ?st0 t = []" "merged_base_of ?st0 t = None" for t
    by (simp_all add: new_store_def chain_files_def merged_base_of_def FindChain_def)
  obtain st1 mx pr where rec: "recover_entries open_ok (ActiveEntries m) (?st0, 0, [], []) = Inr (st1, mx, [], pr)"
    and keep: "keeps ?st0 st1" and mx: "mx = foldl max 0 (map generation_of fl)"
    and pr: "set pr \<subseteq> (\<lambda>e. e\<lparr>e_target_is_persistent := True\<rparr>) ` set (ActiveEntries m)"
    and chains: "\<forall>t. sorted (map generation_of (chain_files st1 t)) \<and>
      mset (chain_files st1 t) = mset (filter (\<lambda>f. m_target (f_metadata f) = t) fl)"
    using recover_entries_ready [OF fl, of ?st0 0 "[]" "[]"] new by (auto simp: new_store_def)
  have st1: "chain_files st1 = files"
    using recovered_chain [OF log(2) files(1) files(2) named] chains by auto
  have same: "ps_fs st1 = fs" "ps_directory st1 = dir" "ps_manifest st1 = m" "merged_base_of st1 = (\<lambda>t. None)"
    using keep new(2) by (simp_all add: keeps_def new_store_def fun_eq_iff)
  have "finish_recovery cb io st1 mx [] pr = Some res"
    using run assms(2,3) log(1) rec by (simp add: OpenAndRecoverStore_def)
  from finish_recovery_keeps [OF this] show ?thesis
  proof (elim disjE exE conjE)
    fix st m' assume res: "res = Inr st" and promote: "append_all (si_promote io) (ps_manifest st1) pr = Some (m', None)"
      and st: "chain_files st = chain_files st1" "ps_directory st = ps_directory st1" "ps_manifest st = m'"
        "merged_base_of st = merged_base_of st1" "ps_next_file_generation st = mx + 1"
        "ps_fs st = ps_fs (RemoveOrphanFiles (st1\<lparr>ps_manifest := m'\<rparr>))"
    have "\<forall>e \<in> set pr. \<exists>t f. f \<in> set (files t) \<and> e_file_name e = DeltaFileName t (generation_of f) \<and> e_metadata e = f_metadata f"
      using pr listed by fastforce
    then have agrees: "manifest_agrees m' files"
      using append_all_agrees [OF promote] log(2) same(3) by simp
    have kept: "ps_fs st (f_path f) = fs (f_path f) \<and> generation_of f < mx + 1" if f: "f \<in> set (files t)" for t f
    proof
      have "DeltaFileName t (generation_of f) \<in> set (map e_file_name (ActiveEntries m'))"
        by (rule named_active [OF agrees f])
      then show "ps_fs st (f_path f) = fs (f_path f)"
        using RemoveOrphanFiles_keeps(2) [of t "generation_of f" "st1\<lparr>ps_manifest := m'\<rparr>"] files(1) [OF f] same st(6)
        by (simp add: placed_def)
      have "set (chain_files st1 t) = set (filter (\<lambda>f. m_target (f_metadata f) = t) fl)"
        using chains by (metis mset_eq_setD)
      then have "f \<in> set fl" using st1 f by auto
      then have "generation_of f \<le> mx" unfolding mx by (intro foldl_max_ge) simp
      moreover have "\<forall>x \<in> set (map generation_of fl). unat x < 2 ^ 64 - 1"
        using members files(3) by fastforce
      then have "unat mx < 2 ^ 64 - 1" unfolding mx by (rule foldl_max_bound) simp
      ultimately show "generation_of f < mx + 1" by (simp add: word_less_nat_alt word_le_nat_alt unat_word_ariths)
    qed
    have "ps_fs st (column_path cfg t) = fs (column_path cfg t)" for cfg t
      using RemoveOrphanFiles_keeps(1) same st(6) by simp
    with res st st1 same agrees kept show ?thesis by simp
  qed simp
qed

end
