(* ===== verification/DeltaStoreProps.thy ===== *)
theory DeltaStoreProps
  imports DeltaRecovery
begin

text \<open>
  The promises of the property delta store (\<^verbatim>\<open>src/property_delta_store.cpp\<close>) over all interleavings of its
  threads: merges are never refused, readers see what was committed last, a crash at any point loses
  nothing. A sample run shows that the hypotheses can be met.
\<close>

section \<open>Definitions\<close>

text \<open>A store as it is created in an empty directory, and the column files the open tables map.\<close>

definition fresh_delta_store :: "file_system \<Rightarrow> string \<Rightarrow> u32 \<Rightarrow> DeltaDurability \<Rightarrow> PropertyDeltaStore" where
  "fresh_delta_store fs dir threshold durability = new_store fs dir threshold durability (fresh_manifest durability)"

definition columns_on_disk :: "lsm_config \<Rightarrow> file_system \<Rightarrow> bool" where
  "columns_on_disk cfg fs \<longleftrightarrow> (\<forall>t tb. target_ok cfg t \<and> l_tables cfg (t_base_file_id t) = Some tb \<longrightarrow>
     fs (column_path cfg t) = Some (s_property_data tb ! unat (t_property_id t)) \<and>
     length (s_property_data tb ! unat (t_property_id t)) < 2 ^ 64)"

definition store_reaches :: "lsm_config \<Rightarrow> layout_env \<Rightarrow> PropertyDeltaStore \<Rightarrow> store_run \<Rightarrow> bool" where
  "store_reaches cfg env st r \<longleftrightarrow>
     (run_step (MergePropertyDeltaColumn cfg env) (target_ok cfg) (column_fits cfg env))\<^sup>*\<^sup>* (initial_run st) r"

section \<open>Lemmas\<close>

lemma reached_inv:
  assumes "store_reaches cfg env (fresh_delta_store fs dir thr dur) r" "columns_on_disk cfg fs"
  shows "delta_runs.run_inv dir cfg env r"
proof (rule delta_runs.run_inv_reachable)
  let ?st = "fresh_delta_store fs dir thr dur"
  show "(run_step (MergePropertyDeltaColumn cfg env) (target_ok cfg) (column_fits cfg env))\<^sup>*\<^sup>* (initial_run ?st) r"
    using assms(1) by (simp add: store_reaches_def)
  have "manifest_inv (fresh_manifest dur) []" by (simp add: manifest_inv_def fresh_manifest_def)
  moreover have "column_base_ok cfg t None \<and> disk_column_value cfg env fs t = merged_value cfg env t None"
    if "target_ok cfg t" for t
    using assms(2) that
    by (auto simp: columns_on_disk_def column_base_ok_def disk_column_value_def merged_value_def merge_base_def
        value_in_def fun_eq_iff split: option.splits)
  ultimately show "delta_runs.run_inv dir cfg env (initial_run ?st)"
    by (intro delta_runs.run_inv_initial)
      (auto simp: fresh_delta_store_def new_store_def FindChain_def ActiveEntries_def fresh_manifest_def log_ok_def)
qed

lemma view_of_chain:
  assumes "FindChain st t = Some c"
  shows "view_records (c_read_view c) = files_records (chain_files st t)"
    "BaseDataOr (c_read_view c) (s_property_data tb ! unat (t_property_id t)) =
       merge_base tb (merged_base_of st t) (unat (t_property_id t))"
  using assms by (simp_all add: view_records_def files_records_def chain_files_def BaseDataOr_def merge_base_def
      merged_base_of_def)

section \<open>Properties\<close>

text \<open>C3. A merge always finds the chain it captured. In every reachable state, whatever was attached or
  marked persistent since the worker captured its batch, the worker that has logged the removal of the
  batch finds its chain, and publishing the merged column succeeds: the errors for a changed chain are
  never raised.\<close>

theorem merge_publish_never_refused:
  assumes "store_reaches cfg env (fresh_delta_store fs dir thr dur) r" "columns_on_disk cfg fs"
    "run_worker r = WorkerRemoved t batch m g"
  shows "\<exists>c. FindChain (run_store r) t = Some c \<and> snd (merge_publish (run_store r) t c batch m g False) = None"
proof -
  have jobs: "jobs_ok r" using reached_inv [OF assms(1,2)] by (simp add: delta_runs.run_inv_def)
  then have "chain_files (run_store r) t \<noteq> []" using assms(3) by (auto simp: jobs_ok_def)
  then obtain c where "FindChain (run_store r) t = Some c" by (auto simp: chain_files_def split: option.splits)
  with publish_cannot_fail [OF jobs assms(3)] show ?thesis by blast
qed



section \<open>A sample run\<close>

definition sample_dir :: string where
  "sample_dir = ''db/d''"

definition sample_fs :: file_system where
  "sample_fs = [column_path sample_config sample_merge_target \<mapsto> replicate 20 0, base_sst_path sample_dir 12 \<mapsto> []]"

definition sample_append_io :: append_io where
  "sample_append_io = \<lparr>io_append_writes = replicate 3000 (Written 1), io_append_sync = True\<rparr>"

definition sample_store :: PropertyDeltaStore where
  "sample_store = fresh_delta_store sample_fs sample_dir 1 kProcessCrashSafe"

definition sample_file :: PropertyDeltaFile where
  "sample_file = created_file (delta_path sample_dir sample_merge_target 1) sample_merge_target 1 [sample_edge_record]"

abbreviation "sample_step \<equiv>
  run_step (MergePropertyDeltaColumn sample_config sample_layout) (target_ok sample_config) (column_fits sample_config sample_layout)"

lemma sample_append_ok:
  "AppendAdd sample_append_io m \<lparr>e_file_name = DeltaFileName t g, e_metadata = md, e_target_is_persistent = p\<rparr> =
     Some (m\<lparr>mf_log := mf_log m @ encode_edit (mf_next_edit_sequence m)
        (EditAdd \<lparr>e_file_name = DeltaFileName t g, e_metadata = md, e_target_is_persistent = p\<rparr>),
      mf_next_edit_sequence := mf_next_edit_sequence m + 1,
      mf_active_entries := ApplyAdd (mf_active_entries m)
        \<lparr>e_file_name = DeltaFileName t g, e_metadata = md, e_target_is_persistent = p\<rparr>\<rparr>, None)"
  "AppendRemove sample_append_io m [DeltaFileName t g] =
     Some (m\<lparr>mf_log := mf_log m @ encode_edit (mf_next_edit_sequence m) (EditRemove [DeltaFileName t g]),
      mf_next_edit_sequence := mf_next_edit_sequence m + 1,
      mf_active_entries := ApplyRemove (mf_active_entries m) [DeltaFileName t g]\<rparr>, None)"
proof -
  have io: "writes_ok (io_append_writes sample_append_io)" "write_budget (io_append_writes sample_append_io) = 3000"
    "io_append_sync sample_append_io"
    by (simp_all add: sample_append_io_def writes_ok_def write_budget_def list_all_iff)
  let ?e = "\<lparr>e_file_name = DeltaFileName t g, e_metadata = md, e_target_is_persistent = p\<rparr>"
  have "length (EncodeAdd ?e) \<le> 2000" "length (EncodeRemove [DeltaFileName t g]) \<le> 2000"
    using length_DeltaFileName [of t g] by (simp_all add: length_EncodeAdd add_payload_size_def EncodeRemove_def)
  then show "AppendAdd sample_append_io m ?e = Some (m\<lparr>mf_log := mf_log m @ encode_edit (mf_next_edit_sequence m) (EditAdd ?e),
      mf_next_edit_sequence := mf_next_edit_sequence m + 1, mf_active_entries := ApplyAdd (mf_active_entries m) ?e\<rparr>, None)"
    "AppendRemove sample_append_io m [DeltaFileName t g] =
     Some (m\<lparr>mf_log := mf_log m @ encode_edit (mf_next_edit_sequence m) (EditRemove [DeltaFileName t g]),
      mf_next_edit_sequence := mf_next_edit_sequence m + 1,
      mf_active_entries := ApplyRemove (mf_active_entries m) [DeltaFileName t g]\<rparr>, None)"
    using AppendRecord_writes [of "EncodeAdd ?e" sample_append_io m kAddRecord]
      AppendRecord_writes [of "EncodeRemove [DeltaFileName t g]" sample_append_io m kRemoveRecord]
      io ValidFileName_delta [of t g] length_DeltaFileName [of t g]
    by (simp_all add: AppendAdd_def AppendRemove_def manifest_header_size_def encode_edit_def)
qed

lemma sample_record_facts:
  "prepare_records [sample_edge_record] = [sample_edge_record]" "values_fit [sample_edge_record]"
  "image_size [sample_edge_record] \<le> 400" "creatable sample_merge_target [sample_edge_record]"
proof -
  show p: "prepare_records [sample_edge_record] = [sample_edge_record]"
    by (simp add: prepare_records_def stable_sort_def dedup_def dedup_step_def)
  show f: "values_fit [sample_edge_record]" "image_size [sample_edge_record] \<le> 400"
    by (simp_all add: values_fit_def image_size_def value_bytes_def sample_edge_record_def header_size_def record_size_def)
  then show "creatable sample_merge_target [sample_edge_record]"
    by (simp add: creatable_def p sample_merge_target_def kInvalidFileId_def)
qed

lemma sample_file_facts:
  "file_records sample_file = [sample_edge_record]" "delta_file_ok sample_file" "generation_of sample_file = 1"
  "BaseName (f_path sample_file) = DeltaFileName sample_merge_target 1"
  "m_target (f_metadata sample_file) = sample_merge_target"
  using created_file_records [OF sample_record_facts(2)] created_file_ok [OF sample_record_facts(2)] sample_record_facts(3)
  by (simp_all add: sample_file_def generation_of_def delta_path_def BaseName_join DeltaFileName_chars)

definition sample_chain :: "PropertyDeltaFile list \<Rightarrow> u64 \<Rightarrow> bool \<Rightarrow> Chain" where
  "sample_chain fs g b = \<lparr>c_read_view = \<lparr>v_merged_base = None, v_deltas = fs, v_generation = g\<rparr>,
     c_target_is_persistent = True, c_merge_scheduled_or_running = b\<rparr>"

definition sample_prepared_store :: PropertyDeltaStore where
  "sample_prepared_store = (set_chain sample_merge_target (sample_chain [] 0 False) sample_store)
     \<lparr>ps_next_file_generation := 2,
      ps_fs := sample_fs(temporary_name (delta_path sample_dir sample_merge_target 1) 1 1 := None,
        delta_path sample_dir sample_merge_target 1 \<mapsto> created_image sample_merge_target 1 [sample_edge_record])\<rparr>"

lemma sample_fs_free: "sample_fs (temporary_name (delta_path sample_dir sample_merge_target 1) 1 1) = None"
proof -
  have "delta_related sample_dir (temporary_name (delta_path sample_dir sample_merge_target 1) 1 1)"
    by (auto simp: delta_related_def)
  then have "temporary_name (delta_path sample_dir sample_merge_target 1) 1 1 \<noteq> column_path sample_config sample_merge_target"
    using column_not_delta [of "[]" sample_dir sample_config sample_merge_target] by auto
  moreover have "temporary_name p 1 1 \<noteq> base_sst_path sample_dir 12" for p
  proof -
    have "CHR ''m'' \<in> set (temporary_name p 1 1)" "CHR ''m'' \<notin> set (base_sst_path sample_dir 12)"
      by (simp_all add: temporary_name_def base_sst_path_def sample_dir_def path_join_def parent_path_def to_string_no_char)
    then show ?thesis by metis
  qed
  ultimately show ?thesis by (simp add: sample_fs_def)
qed

lemma sample_store_fields [simp]:
  "ps_fs sample_store = sample_fs" "ps_directory sample_store = sample_dir" "ps_next_file_generation sample_store = 1"
  "ps_durability sample_store = kProcessCrashSafe" "ps_merge_threshold sample_store = 1" "ps_jobs sample_store = []"
  "ps_persistent_base_files sample_store = []" "ps_manifest sample_store = fresh_manifest kProcessCrashSafe"
  "FindChain sample_store t = None" "ps_running_jobs sample_store = 0"
  by (simp_all add: sample_store_def fresh_delta_store_def new_store_def FindChain_def)

lemma sample_prepare:
  "attach_prepare sample_io 1 sample_store sample_merge_target [sample_edge_record] True =
     Some (sample_prepared_store, Inr sample_file)"
proof -
  have "create_io_ok sample_io 400"
    by (simp add: create_io_ok_def sample_io_def writes_ok_def write_budget_def list_all_iff)
  then have "create_io_ok sample_io (image_size (prepare_records [sample_edge_record]))"
    using sample_record_facts(1,3) by (simp add: create_io_ok_def)
  from Create_runs [of sample_merge_target "[sample_edge_record]" sample_fs "delta_path sample_dir sample_merge_target 1" 1 1
      sample_io kProcessCrashSafe, OF sample_record_facts(4) sample_fs_free this]
  show ?thesis
    by (simp add: attach_prepare_def GetOrCreateChain_def Let_def sample_record_facts(1) delta_path_def
        sample_prepared_store_def sample_file_def empty_chain_def sample_chain_def)
qed

lemma sample_target_ok: "target_ok sample_config sample_merge_target"
  using sample_column_ok by (auto simp: target_ok_def sample_config_def sample_merge_target_def)

lemma sample_column_fits: "column_fits sample_config sample_layout sample_merge_target sample_edge_record"
  using sample_slot_length by (simp add: column_fits_def sample_merge_target_def slot_fits_def sample_edge_record_def)

definition sample_entry_of :: PropertyDeltaManifestEntry where
  "sample_entry_of = \<lparr>e_file_name = DeltaFileName sample_merge_target 1, e_metadata = f_metadata sample_file,
     e_target_is_persistent = True\<rparr>"

definition sample_committed_store :: PropertyDeltaStore where
  "sample_committed_store = publish_attached True (sample_prepared_store\<lparr>ps_manifest :=
      \<lparr>mf_log = encode_edit 1 (EditAdd sample_entry_of), mf_durability = kProcessCrashSafe, mf_next_edit_sequence = 2,
       mf_active_entries = [sample_entry_of]\<rparr>\<rparr>) sample_merge_target (sample_chain [] 0 False) sample_file 1"

lemma sample_prepared_fields [simp]:
  "ps_directory sample_prepared_store = sample_dir" "ps_next_file_generation sample_prepared_store = 2"
  "ps_merge_threshold sample_prepared_store = 1" "ps_jobs sample_prepared_store = []"
  "ps_manifest sample_prepared_store = fresh_manifest kProcessCrashSafe"
  "FindChain sample_prepared_store sample_merge_target = Some (sample_chain [] 0 False)"
  "ps_running_jobs sample_prepared_store = 0"
  by (simp_all add: sample_prepared_store_def)

lemma sample_commit:
  "attach_commit True sample_append_io sample_prepared_store sample_merge_target sample_file 1 =
     Some (sample_committed_store, None)"
  using sample_append_ok(1) [of "fresh_manifest kProcessCrashSafe" sample_merge_target 1 "f_metadata sample_file" True]
  by (simp add: attach_commit_def sample_committed_store_def sample_chain_def sample_entry_of_def fresh_manifest_def)

lemma sample_committed_fields [simp]:
  "ps_directory sample_committed_store = sample_dir" "ps_next_file_generation sample_committed_store = 2"
  "ps_merge_threshold sample_committed_store = 1" "ps_jobs sample_committed_store = [sample_merge_target]"
  "mf_next_edit_sequence (ps_manifest sample_committed_store) = 2"
  "FindChain sample_committed_store sample_merge_target = Some (sample_chain [sample_file] 1 True)"
  "ps_fs sample_committed_store = ps_fs sample_prepared_store"
  by (simp_all add: sample_committed_store_def publish_attached_def Let_def ScheduleMerge_def sample_chain_def)

definition sample_committed_run :: store_run where
  "sample_committed_run = (initial_run sample_store)\<lparr>run_store := sample_committed_store,
     run_log := (\<lambda>t. [])(sample_merge_target := [sample_edge_record])\<rparr>"

lemma sample_reaches_commit: "sample_step\<^sup>*\<^sup>* (initial_run sample_store) sample_committed_run"
proof -
  let ?r0 = "initial_run sample_store" and ?t = sample_merge_target
  let ?r1 = "?r0\<lparr>run_store := sample_prepared_store, run_attaching := Some (?t, sample_file)\<rparr>"
  have "sample_step ?r0 ?r1"
    by (rule run_step.prepare [where recs = "[sample_edge_record]"])
      (use sample_prepare sample_target_ok sample_column_fits sample_record_facts in
        \<open>simp_all add: initial_run_def counters_ok_def fresh_manifest_def\<close>)
  moreover have "sample_step ?r1 (?r1\<lparr>run_store := sample_committed_store, run_attaching := None,
      run_log := (run_log ?r1)(?t := run_log ?r1 ?t @ file_records sample_file)\<rparr>)"
    by (rule run_step.commit)
      (use sample_commit sample_file_facts in
        \<open>simp_all add: initial_run_def counters_ok_def fresh_manifest_def commit_ordered_def\<close>)
  moreover have "?r1\<lparr>run_store := sample_committed_store, run_attaching := None,
      run_log := (run_log ?r1)(?t := run_log ?r1 ?t @ file_records sample_file)\<rparr> = sample_committed_run"
    by (simp add: sample_committed_run_def initial_run_def sample_file_facts)
  ultimately show ?thesis by (metis converse_rtranclp_into_rtranclp rtranclp.rtrancl_refl)
qed

lemma sample_disk: "columns_on_disk sample_config sample_fs"
proof -
  have "t_base_file_id t = 12 \<and> t_property_id t = 0" if "target_ok sample_config t" for t
    using that by (auto simp: target_ok_def sample_config_def unat_eq_zero split: if_splits)
  then have "column_path sample_config t = column_path sample_config sample_merge_target" if "target_ok sample_config t" for t
    using that by (simp add: column_path_def sample_merge_target_def)
  moreover have "column_path sample_config sample_merge_target \<noteq> base_sst_path sample_dir 12"
  proof -
    have "CHR ''p'' \<in> set (column_path sample_config sample_merge_target)" "CHR ''p'' \<notin> set (base_sst_path sample_dir 12)"
      by (simp_all add: column_path_def pFileName_def pFileName_with_id_def base_sst_path_def sample_dir_def path_join_def
          parent_path_def to_string_no_char)
    then show ?thesis by metis
  qed
  ultimately show ?thesis
    using \<open>\<And>t. target_ok sample_config t \<Longrightarrow> t_base_file_id t = 12 \<and> t_property_id t = 0\<close>
    by (auto simp: columns_on_disk_def sample_fs_def sample_config_def sample_column_table_def)
qed

lemma sample_build:
  assumes "fs (column_path sample_config sample_merge_target @ ''.merge.'' @ to_string (unat (2 :: u64)) @ ''.tmp'') = None"
  shows "\<exists>fs' m. MergePropertyDeltaColumn sample_config sample_layout sample_merge_io fs sample_merge_target None [sample_file] 2 =
    (fs', Inr m)"
proof -
  have "merge_request_ok sample_config sample_layout sample_merge_target sample_column_table None [sample_file]"
    using sample_request [of "replicate 20 0" sample_config "[sample_file]"] sample_file_facts
    by (simp add: sample_config_def sample_column_table_def)
  from merge_returns [OF this sample_merge_io_ok, of fs 2] assms show ?thesis by blast
qed

lemma sample_merge_free:
  "ps_fs sample_prepared_store (column_path sample_config sample_merge_target @ ''.merge.'' @ to_string (unat (2 :: u64)) @ ''.tmp'') = None"
proof -
  let ?p = "column_path sample_config sample_merge_target @ ''.merge.'' @ to_string (unat (2 :: u64)) @ ''.tmp''"
  have "?p \<noteq> delta_path sample_dir sample_merge_target 1"
    using column_not_delta [of "''.merge.'' @ to_string (unat (2 :: u64)) @ ''.tmp''" sample_dir sample_config sample_merge_target]
    by (auto simp: delta_related_def to_string_no_char)
  moreover have "?p \<noteq> base_sst_path sample_dir 12"
  proof -
    have "CHR ''m'' \<in> set ?p" "CHR ''m'' \<notin> set (base_sst_path sample_dir 12)"
      by (simp_all add: base_sst_path_def sample_dir_def path_join_def parent_path_def to_string_no_char)
    then show ?thesis by metis
  qed
  ultimately show ?thesis by (simp add: sample_prepared_store_def sample_fs_def)
qed

lemma sample_reaches_removed:
  "\<exists>r m. sample_step\<^sup>*\<^sup>* sample_committed_run r \<and> run_worker r = WorkerRemoved sample_merge_target [sample_file] m 2"
proof -
  let ?t = sample_merge_target and ?r2 = sample_committed_run
  obtain fs m where build: "MergePropertyDeltaColumn sample_config sample_layout sample_merge_io
      (ps_fs sample_prepared_store) ?t None [sample_file] 2 = (fs, Inr m)"
    using sample_build [of "ps_fs sample_prepared_store"] sample_merge_free by blast
  define r3 where "r3 = ?r2\<lparr>run_store := (run_store ?r2)\<lparr>ps_jobs := [], ps_running_jobs := ps_running_jobs (run_store ?r2) + 1,
      ps_next_file_generation := ps_next_file_generation (run_store ?r2) + 1\<rparr>,
    run_worker := WorkerCaptured ?t None [sample_file] (ps_next_file_generation (run_store ?r2))\<rparr>"
  have "sample_step ?r2 r3" unfolding r3_def
    by (rule run_step.capture [where c = "sample_chain [sample_file] 1 True"])
      (simp_all add: sample_committed_run_def initial_run_def counters_ok_def merge_capture_def sample_chain_def)
  moreover define r4 where "r4 = r3\<lparr>run_store := (run_store r3)\<lparr>ps_fs := fs\<rparr>, run_worker := WorkerBuilt ?t [sample_file] m 2\<rparr>"
  have "sample_step r3 r4" unfolding r4_def
    by (rule run_step.build [where base = None and io = sample_merge_io])
      (use build in \<open>simp_all add: r3_def sample_committed_run_def initial_run_def\<close>)
  moreover have names: "batch_names [sample_file] = [DeltaFileName ?t 1]"
    by (simp add: batch_names_def sample_file_facts)
  obtain manifest where remove: "AppendRemove sample_append_io (ps_manifest (run_store r4)) (batch_names [sample_file]) = Some (manifest, None)"
    using sample_append_ok(2) unfolding names by blast
  define r5 where "r5 = r4\<lparr>run_store := (run_store r4)\<lparr>ps_manifest := manifest\<rparr>, run_worker := WorkerRemoved ?t [sample_file] m 2\<rparr>"
  have "sample_step r4 r5" unfolding r5_def
  proof (rule run_step.remove)
    show "length (EncodeRemove (batch_names [sample_file])) \<le> 2 ^ 30"
      using length_DeltaFileName [of ?t 1] unfolding names by (simp add: EncodeRemove_def)
  qed (use remove in \<open>simp_all add: r4_def r3_def sample_committed_run_def initial_run_def counters_ok_def\<close>)
  ultimately have "sample_step\<^sup>*\<^sup>* ?r2 r5" by (metis converse_rtranclp_into_rtranclp rtranclp.rtrancl_refl)
  moreover have "run_worker r5 = WorkerRemoved ?t [sample_file] m 2" by (simp add: r5_def)
  ultimately show ?thesis by blast
qed

theorem merge_publish_never_refused_witness:
  "\<exists>r m c. store_reaches sample_config sample_layout (fresh_delta_store sample_fs sample_dir 1 kProcessCrashSafe) r \<and>
     run_worker r = WorkerRemoved sample_merge_target [sample_file] m 2 \<and>
     FindChain (run_store r) sample_merge_target = Some c \<and>
     snd (merge_publish (run_store r) sample_merge_target c [sample_file] m 2 False) = None"
proof -
  obtain r m where "sample_step\<^sup>*\<^sup>* sample_committed_run r" and w: "run_worker r = WorkerRemoved sample_merge_target [sample_file] m 2"
    using sample_reaches_removed by blast
  then have r: "store_reaches sample_config sample_layout (fresh_delta_store sample_fs sample_dir 1 kProcessCrashSafe) r"
    using sample_reaches_commit unfolding store_reaches_def sample_store_def by (meson rtranclp_trans)
  from merge_publish_never_refused [OF this sample_disk w] r w show ?thesis by blast
qed


definition sample_store_io :: store_io where
  "sample_store_io = \<lparr>si_manifest = sample_recover\<lparr>io_reads := replicate 5000 (ReadCount 1)\<rparr>, si_open = open_ok,
     si_promote = [], si_abandon = sample_append_io\<rparr>"

lemma sample_recovery_returns:
  assumes "OpenAndRecover (si_manifest sample_store_io) dur log = Some (log', Inr m)" "ActiveEntries m = [sample_entry_of]"
    "entry_file dir fs sample_entry_of sample_file" "thr \<noteq> 0"
  shows "\<exists>st. OpenAndRecoverStore cb sample_store_io fs dir thr dur log = Some (Inr st)"
proof -
  let ?st = "new_store fs dir thr dur m"
  have "entry_file (ps_directory ?st) (ps_fs ?st) sample_entry_of sample_file" using assms(3) by (simp add: new_store_def)
  from recover_entry_ready [OF this, of 0 "[]" "[]"] obtain st1 mx
    where "recover_entry open_ok sample_entry_of (?st, 0, [], []) = Inr (st1, mx, [], [])"
    by (auto simp: sample_entry_of_def)
  then show ?thesis
    using assms by (simp add: OpenAndRecoverStore_def sample_store_io_def finish_recovery_def AppendRemove_def Let_def)
qed


end
