(* ===== verification/UpdateManager.thy ===== *)
theory UpdateManager
  imports DeltaRecord Types "HOL-Library.AList"
begin

text \<open>
  The buffer of property updates (\<^verbatim>\<open>core/property_update_manager.h\<close>,
  \<^verbatim>\<open>src/property_update_manager.cpp\<close>): a table of pending values that readers consult, a pool of buffers that
  rotate from active to queued to flushing to free, and the worker that hands full buffers to the flush
  callback. A critical section of the code is one state transformer. The hash functions of the standard
  library and the size of a struct are parameters.
\<close>

section \<open>Definitions\<close>

record BufferedPropertyUpdate =
  bu_target :: PropertyDeltaTarget
  bu_record :: PropertyDeltaRecord
  bu_target_is_persistent :: bool

record BufferedPropertySnapshotEntry =
  sn_dst :: VertexId_t
  sn_base_sequence :: SequenceNumber_t
  sn_commit_sequence :: PropertyCommitSequence
  sn_value :: string

record PendingKey =
  pk_kind :: PropertyObjectKind
  pk_shard_id :: u32
  pk_property_id :: u32
  pk_src :: VertexId_t
  pk_dst :: VertexId_t
  pk_is_out :: bool
  pk_edge_type :: u8

record PendingValue =
  pv_base_sequence :: SequenceNumber_t
  pv_commit_sequence :: PropertyCommitSequence
  pv_value :: string

datatype BufferState = kFree | kActive | kQueued | kFlushing | kFailed

record Buffer =
  b_state :: BufferState
  b_records :: "BufferedPropertyUpdate list"
  b_bytes :: u64

record PropertyUpdateManagerStats =
  st_submitted_records :: u64
  st_submitted_bytes :: u64
  st_buffers_flushed :: u64
  st_delta_batches_published :: u64
  st_flush_failures :: u64
  st_blocked_submissions :: u64
  st_pending_keys :: u64

record PropertyUpdateManager =
  um_options :: PropertyUpdateOptions
  um_next_commit_sequence :: PropertyCommitSequence
  um_pending :: "(PendingKey \<times> PendingValue) list list"
  um_buffers :: "Buffer list"
  um_queued_buffers :: "nat list"
  um_active_buffer :: "nat option"
  um_running_flushes :: u64
  um_stop :: bool
  um_fatal_error :: string
  um_stats :: PropertyUpdateManagerStats

text \<open>\<^verbatim>\<open>std::hash\<close> at the types the key has.\<close>

record std_hash =
  hash_u8 :: "u8 \<Rightarrow> u64"
  hash_u32 :: "u32 \<Rightarrow> u64"
  hash_u64 :: "u64 \<Rightarrow> u64"
  hash_bool :: "bool \<Rightarrow> u64"

definition HashCombine :: "u64 \<Rightarrow> u64 \<Rightarrow> u64" where
  "HashCombine seed h = seed XOR (h + 0x9e3779b97f4a7c15 + push_bit 6 seed + drop_bit 2 seed)"

definition PendingKeyHash :: "std_hash \<Rightarrow> PendingKey \<Rightarrow> u64" where
  "PendingKeyHash h key =
     (let s1 = HashCombine 0 (hash_u8 h (kind_byte (pk_kind key)));
          s2 = HashCombine s1 (hash_u32 h (pk_shard_id key));
          s3 = HashCombine s2 (hash_u32 h (pk_property_id key));
          s4 = HashCombine s3 (hash_u64 h (pk_src key));
          s5 = HashCombine s4 (hash_u64 h (pk_dst key));
          s6 = HashCombine s5 (hash_bool h (pk_is_out key))
      in HashCombine s6 (hash_u8 h (pk_edge_type key)))"

definition kPendingBucketCount :: nat where
  "kPendingBucketCount = 64"

definition PendingBucketIndex :: "std_hash \<Rightarrow> PendingKey \<Rightarrow> nat" where
  "PendingBucketIndex h key = unat (PendingKeyHash h key) mod kPendingBucketCount"

lemma PendingBucketIndex_code [code]: "PendingBucketIndex h key = unat (PendingKeyHash h key mod 64)"
  by (simp add: PendingBucketIndex_def kPendingBucketCount_def unat_mod)

definition MakePendingKey :: "BufferedPropertyUpdate \<Rightarrow> PendingKey" where
  "MakePendingKey u =
     \<lparr>pk_kind = t_kind (bu_target u), pk_shard_id = t_shard_id (bu_target u),
      pk_property_id = t_property_id (bu_target u), pk_src = r_src (bu_record u), pk_dst = r_dst (bu_record u),
      pk_is_out = r_is_out (bu_record u), pk_edge_type = r_edge_type (bu_record u)\<rparr>"

subsection \<open>Construction\<close>

datatype manager_error = InvalidManagerOptions

definition PropertyUpdateManager_new ::
  "PropertyUpdateOptions \<Rightarrow> bool \<Rightarrow> PropertyCommitSequence \<Rightarrow> manager_error + PropertyUpdateManager" where
  "PropertyUpdateManager_new opts has_callback initial_commit_sequence =
     (if \<not> enabled opts \<or> buffer_count opts < 2 \<or> buffer_capacity_records opts = 0 \<or>
         buffer_capacity_bytes opts = 0 \<or> \<not> has_callback
      then Inl InvalidManagerOptions
      else
        let free = \<lparr>b_state = kFree, b_records = [], b_bytes = 0\<rparr>
        in Inr \<lparr>um_options = opts, um_next_commit_sequence = max 1 initial_commit_sequence,
             um_pending = replicate kPendingBucketCount [],
             um_buffers = (replicate (unat (buffer_count opts)) free)[0 := free\<lparr>b_state := kActive\<rparr>],
             um_queued_buffers = [], um_active_buffer = Some 0, um_running_flushes = 0, um_stop = False,
             um_fatal_error = [],
             um_stats = \<lparr>st_submitted_records = 0, st_submitted_bytes = 0, st_buffers_flushed = 0,
               st_delta_batches_published = 0, st_flush_failures = 0, st_blocked_submissions = 0,
               st_pending_keys = 0\<rparr>\<rparr>)"

subsection \<open>Pending values\<close>

definition pending_of :: "BufferedPropertyUpdate \<Rightarrow> PendingValue" where
  "pending_of u = \<lparr>pv_base_sequence = r_base_sequence (bu_record u),
     pv_commit_sequence = r_commit_sequence (bu_record u), pv_value = r_value (bu_record u)\<rparr>"

definition PublishPending ::
  "std_hash \<Rightarrow> BufferedPropertyUpdate \<Rightarrow> PropertyUpdateManager \<Rightarrow> PropertyUpdateManager" where
  "PublishPending h u m =
     (let key = MakePendingKey u;
          i = PendingBucketIndex h key;
          bucket = um_pending m ! i;
          old = (case map_of bucket key of Some v \<Rightarrow> v
                 | None \<Rightarrow> \<lparr>pv_base_sequence = 0, pv_commit_sequence = 0, pv_value = []\<rparr>);
          v = (if pv_commit_sequence old \<le> r_commit_sequence (bu_record u) then pending_of u else old)
      in m\<lparr>um_pending := (um_pending m)[i := AList.update key v bucket]\<rparr>)"

text \<open>One iteration of the loop of \<^verbatim>\<open>RetirePending\<close>.\<close>

definition RetireOne ::
  "std_hash \<Rightarrow> BufferedPropertyUpdate \<Rightarrow> PropertyUpdateManager \<Rightarrow> PropertyUpdateManager" where
  "RetireOne h u m =
     (let key = MakePendingKey u;
          i = PendingBucketIndex h key;
          bucket = um_pending m ! i
      in case map_of bucket key of
           None \<Rightarrow> m
         | Some v \<Rightarrow>
             if pv_commit_sequence v = r_commit_sequence (bu_record u)
             then m\<lparr>um_pending := (um_pending m)[i := AList.delete key bucket]\<rparr> else m)"

definition RetirePending ::
  "std_hash \<Rightarrow> BufferedPropertyUpdate list \<Rightarrow> PropertyUpdateManager \<Rightarrow> PropertyUpdateManager" where
  "RetirePending h records m = foldl (\<lambda>m u. RetireOne h u m) m records"

definition pending_find :: "std_hash \<Rightarrow> PropertyUpdateManager \<Rightarrow> PendingKey \<Rightarrow> PendingValue option" where
  "pending_find h m key = map_of (um_pending m ! PendingBucketIndex h key) key"

definition LookupLatest ::
  "std_hash \<Rightarrow> PropertyUpdateManager \<Rightarrow> PendingKey \<Rightarrow> (string \<times> PropertyCommitSequence) option" where
  "LookupLatest h m key = map_option (\<lambda>v. (pv_value v, pv_commit_sequence v)) (pending_find h m key)"

definition LookupExact ::
  "std_hash \<Rightarrow> PropertyUpdateManager \<Rightarrow> PendingKey \<Rightarrow> SequenceNumber_t \<Rightarrow> (string \<times> PropertyCommitSequence) option" where
  "LookupExact h m key base_sequence =
     (case pending_find h m key of
        None \<Rightarrow> None
      | Some v \<Rightarrow> if pv_base_sequence v \<noteq> base_sequence then None
                   else Some (pv_value v, pv_commit_sequence v))"

definition SnapshotForSource ::
  "PropertyUpdateManager \<Rightarrow> PropertyObjectKind \<Rightarrow> u32 \<Rightarrow> u32 \<Rightarrow> VertexId_t \<Rightarrow> bool \<Rightarrow> u8 \<Rightarrow>
   BufferedPropertySnapshotEntry list" where
  "SnapshotForSource m kind shard_id property_id src is_out edge_type =
     map (\<lambda>(key, v). \<lparr>sn_dst = pk_dst key, sn_base_sequence = pv_base_sequence v,
                      sn_commit_sequence = pv_commit_sequence v, sn_value = pv_value v\<rparr>)
       (filter (\<lambda>(key, v). \<not> (pk_kind key \<noteq> kind \<or> pk_shard_id key \<noteq> shard_id \<or>
            pk_property_id key \<noteq> property_id \<or> pk_src key \<noteq> src \<or> pk_is_out key \<noteq> is_out \<or>
            pk_edge_type key \<noteq> edge_type))
         (concat (um_pending m)))"

subsection \<open>Buffers\<close>

definition EstimateBytes :: "u64 \<Rightarrow> BufferedPropertyUpdate \<Rightarrow> u64" where
  "EstimateBytes sizeof_update u = sizeof_update + word_of_nat (length (r_value (bu_record u)))"

text \<open>The scan that makes a free buffer the active one, if there is one; it is repeated at three places.\<close>

definition free_index :: "Buffer list \<Rightarrow> nat option" where
  "free_index bs = List.find (\<lambda>i. b_state (bs ! i) = kFree) [0..<length bs]"

definition set_buffer_state :: "nat \<Rightarrow> BufferState \<Rightarrow> PropertyUpdateManager \<Rightarrow> PropertyUpdateManager" where
  "set_buffer_state i s m = m\<lparr>um_buffers := (um_buffers m)[i := (um_buffers m ! i)\<lparr>b_state := s\<rparr>]\<rparr>"

definition activate_free :: "PropertyUpdateManager \<Rightarrow> PropertyUpdateManager" where
  "activate_free m =
     (case free_index (um_buffers m) of
        None \<Rightarrow> m
      | Some i \<Rightarrow> (set_buffer_state i kActive m)\<lparr>um_active_buffer := Some i\<rparr>)"

text \<open>\<^verbatim>\<open>EnsureActiveBuffer\<close> up to its next wait or its return; a waiting thread wakes up with
  \<open>activate_free\<close> and evaluates it again.\<close>

datatype ensure_result = EnsureReady nat | EnsureWait | EnsureError string

definition EnsureActiveBuffer :: "PropertyUpdateManager \<Rightarrow> PropertyUpdateManager \<times> ensure_result" where
  "EnsureActiveBuffer m =
     (if um_active_buffer m = None \<and> um_fatal_error m = [] \<and> \<not> um_stop m
      then (m\<lparr>um_stats := (um_stats m)\<lparr>st_blocked_submissions := st_blocked_submissions (um_stats m) + 1\<rparr>\<rparr>, EnsureWait)
      else if um_fatal_error m \<noteq> [] then (m, EnsureError (um_fatal_error m))
      else if um_stop m then (m, EnsureError ''property update manager is stopping'')
      else case um_active_buffer m of Some i \<Rightarrow> (m, EnsureReady i) | None \<Rightarrow> (m, EnsureError []))"

definition QueueActiveBuffer :: "PropertyUpdateManager \<Rightarrow> PropertyUpdateManager" where
  "QueueActiveBuffer m =
     (case um_active_buffer m of
        None \<Rightarrow> m
      | Some a \<Rightarrow>
          if b_records (um_buffers m ! a) = [] then m
          else activate_free ((set_buffer_state a kQueued m)
                 \<lparr>um_queued_buffers := um_queued_buffers m @ [a], um_active_buffer := None\<rparr>))"

subsection \<open>Submission\<close>

text \<open>The loop that adds up the batch; \<open>None\<close> when it exceeds the capacity.\<close>

fun batch_bytes :: "u64 \<Rightarrow> u64 \<Rightarrow> u64 \<Rightarrow> BufferedPropertyUpdate list \<Rightarrow> u64 option" where
  "batch_bytes sizeof_update capacity acc [] = Some acc"
| "batch_bytes sizeof_update capacity acc (u # us) =
     (let record_bytes = EstimateBytes sizeof_update u
      in if record_bytes > capacity - acc then None
         else batch_bytes sizeof_update capacity (acc + record_bytes) us)"

text \<open>A submission: done with its commit sequence, rejected, or waiting in the first or the second call of
  \<^verbatim>\<open>EnsureActiveBuffer\<close>.\<close>

datatype submit_result = Submitted PropertyCommitSequence | Rejected string | WaitsFirst | WaitsSecond

definition stamp :: "PropertyCommitSequence \<Rightarrow> BufferedPropertyUpdate \<Rightarrow> BufferedPropertyUpdate" where
  "stamp c u = u\<lparr>bu_record := (bu_record u)\<lparr>r_commit_sequence := c\<rparr>\<rparr>"

definition full :: "PropertyUpdateOptions \<Rightarrow> Buffer \<Rightarrow> bool" where
  "full opts b \<longleftrightarrow> length (b_records b) \<ge> unat (buffer_capacity_records opts) \<or>
     b_bytes b \<ge> buffer_capacity_bytes opts"

definition submit_publish ::
  "std_hash \<Rightarrow> PropertyUpdateManager \<Rightarrow> nat \<Rightarrow> BufferedPropertyUpdate list \<Rightarrow> u64 \<Rightarrow>
   PropertyUpdateManager \<times> submit_result" where
  "submit_publish h m a updates bytes =
     (let committed = um_next_commit_sequence m;
          stamped = map (stamp committed) updates;
          m1 = foldl (\<lambda>m u. PublishPending h u m) (m\<lparr>um_next_commit_sequence := committed + 1\<rparr>) stamped;
          b = um_buffers m1 ! a;
          b' = b\<lparr>b_bytes := b_bytes b + bytes, b_records := b_records b @ stamped\<rparr>;
          m2 = m1\<lparr>um_buffers := (um_buffers m1)[a := b'],
                  um_stats := (um_stats m1)
                    \<lparr>st_submitted_records := st_submitted_records (um_stats m1) + word_of_nat (length updates),
                     st_submitted_bytes := st_submitted_bytes (um_stats m1) + bytes\<rparr>\<rparr>
      in (if full (um_options m) b' then QueueActiveBuffer m2 else m2, Submitted committed))"

definition submit_second ::
  "std_hash \<Rightarrow> PropertyUpdateManager \<Rightarrow> BufferedPropertyUpdate list \<Rightarrow> u64 \<Rightarrow> PropertyUpdateManager \<times> submit_result" where
  "submit_second h m updates bytes =
     (case EnsureActiveBuffer m of
        (m', EnsureWait) \<Rightarrow> (m', WaitsSecond)
      | (m', EnsureError e) \<Rightarrow> (m', Rejected e)
      | (m', EnsureReady a) \<Rightarrow> submit_publish h m' a updates bytes)"

definition submit_first ::
  "std_hash \<Rightarrow> PropertyUpdateManager \<Rightarrow> BufferedPropertyUpdate list \<Rightarrow> u64 \<Rightarrow> PropertyUpdateManager \<times> submit_result" where
  "submit_first h m updates bytes =
     (case EnsureActiveBuffer m of
        (m', EnsureWait) \<Rightarrow> (m', WaitsFirst)
      | (m', EnsureError e) \<Rightarrow> (m', Rejected e)
      | (m', EnsureReady a) \<Rightarrow>
          let active = um_buffers m' ! a; opts = um_options m' in
          if b_records active \<noteq> [] \<and>
             (length (b_records active) + length updates > unat (buffer_capacity_records opts) \<or>
              b_bytes active + bytes > buffer_capacity_bytes opts)
          then submit_second h (QueueActiveBuffer m') updates bytes
          else submit_publish h m' a updates bytes)"

definition SubmitBatch ::
  "std_hash \<Rightarrow> u64 \<Rightarrow> PropertyUpdateManager \<Rightarrow> BufferedPropertyUpdate list \<Rightarrow> PropertyUpdateManager \<times> submit_result" where
  "SubmitBatch h sizeof_update m updates =
     (if updates = [] then (m, Rejected ''property update batch must not be empty'')
      else case batch_bytes sizeof_update (buffer_capacity_bytes (um_options m)) 0 updates of
        None \<Rightarrow> (m, Rejected ''property update batch exceeds buffer_capacity_bytes'')
      | Some bytes \<Rightarrow>
          if length updates > unat (buffer_capacity_records (um_options m))
          then (m, Rejected ''property update batch exceeds buffer_capacity_records'')
          else submit_first h m updates bytes)"

definition Submit ::
  "std_hash \<Rightarrow> u64 \<Rightarrow> PropertyUpdateManager \<Rightarrow> BufferedPropertyUpdate \<Rightarrow> PropertyUpdateManager \<times> submit_result" where
  "Submit h sizeof_update m update = SubmitBatch h sizeof_update m [update]"

subsection \<open>Flushing\<close>

text \<open>The groups of \<^verbatim>\<open>FlushBuffer\<close>, in the order of first use; the hash map hands them out in any order.\<close>

record FlushGroup =
  g_target_is_persistent :: bool
  g_records :: "PropertyDeltaRecord list"

definition add_to_group ::
  "BufferedPropertyUpdate \<Rightarrow> (PropertyDeltaTarget \<times> FlushGroup) list \<Rightarrow> (PropertyDeltaTarget \<times> FlushGroup) list" where
  "add_to_group u groups =
     (let g = (case map_of groups (bu_target u) of Some g \<Rightarrow> g
               | None \<Rightarrow> \<lparr>g_target_is_persistent = False, g_records = []\<rparr>)
      in AList.update (bu_target u)
           \<lparr>g_target_is_persistent = g_target_is_persistent g \<or> bu_target_is_persistent u,
            g_records = g_records g @ [bu_record u]\<rparr> groups)"

definition flush_groups :: "BufferedPropertyUpdate list \<Rightarrow> (PropertyDeltaTarget \<times> FlushGroup) list" where
  "flush_groups records = foldl (\<lambda>groups u. add_to_group u groups) [] records"

text \<open>The critical sections of \<^verbatim>\<open>WorkerMain\<close> before and after \<^verbatim>\<open>FlushBuffer\<close>.\<close>

definition worker_take :: "PropertyUpdateManager \<Rightarrow> (nat \<times> PropertyUpdateManager) option" where
  "worker_take m =
     (case um_queued_buffers m of
        [] \<Rightarrow> None
      | i # rest \<Rightarrow> Some (i, (set_buffer_state i kFlushing m)
          \<lparr>um_queued_buffers := rest, um_running_flushes := um_running_flushes m + 1\<rparr>))"

definition worker_flushed :: "nat \<Rightarrow> PropertyUpdateManager \<Rightarrow> PropertyUpdateManager" where
  "worker_flushed i m =
     (let m1 = m\<lparr>um_running_flushes := um_running_flushes m - 1,
                 um_buffers := (um_buffers m)[i := \<lparr>b_state = kFree, b_records = [], b_bytes = 0\<rparr>],
                 um_stats := (um_stats m)\<lparr>st_buffers_flushed := st_buffers_flushed (um_stats m) + 1\<rparr>\<rparr>
      in if um_active_buffer m1 = None
         then (set_buffer_state i kActive m1)\<lparr>um_active_buffer := Some i\<rparr> else m1)"

definition worker_failed :: "nat \<Rightarrow> string \<Rightarrow> PropertyUpdateManager \<Rightarrow> PropertyUpdateManager" where
  "worker_failed i e m =
     (let m1 = set_buffer_state i kFailed (m\<lparr>um_running_flushes := um_running_flushes m - 1\<rparr>)
      in m1\<lparr>um_fatal_error := (if um_fatal_error m1 = [] then e else um_fatal_error m1),
            um_stats := (um_stats m1)\<lparr>st_flush_failures := st_flush_failures (um_stats m1) + 1\<rparr>\<rparr>)"

text \<open>\<^verbatim>\<open>FlushAndWait\<close> up to its wait, its wait condition, and what it does once it holds.\<close>

definition flush_begin :: "PropertyUpdateManager \<Rightarrow> PropertyUpdateManager \<times> string option" where
  "flush_begin m =
     (if um_fatal_error m \<noteq> [] then (m, Some (um_fatal_error m)) else (QueueActiveBuffer m, None))"

definition flush_ready :: "PropertyUpdateManager \<Rightarrow> bool" where
  "flush_ready m \<longleftrightarrow> um_fatal_error m \<noteq> [] \<or> um_queued_buffers m = [] \<and> um_running_flushes m = 0"

definition flush_end :: "PropertyUpdateManager \<Rightarrow> PropertyUpdateManager \<times> string option" where
  "flush_end m =
     (if um_fatal_error m \<noteq> [] then (m, Some (um_fatal_error m))
      else (if um_active_buffer m = None then activate_free m else m, None))"

definition StopWorker :: "PropertyUpdateManager \<Rightarrow> PropertyUpdateManager" where
  "StopWorker m = m\<lparr>um_stop := True\<rparr>"

definition SetFatalError :: "string \<Rightarrow> PropertyUpdateManager \<Rightarrow> PropertyUpdateManager" where
  "SetFatalError e m = (if um_fatal_error m = [] then m\<lparr>um_fatal_error := e\<rparr> else m)"

definition LastError :: "PropertyUpdateManager \<Rightarrow> string" where
  "LastError m = um_fatal_error m"

definition update_stats :: "PropertyUpdateManager \<Rightarrow> PropertyUpdateManagerStats" where
  "update_stats m = (um_stats m)\<lparr>st_pending_keys := word_of_nat (sum_list (map length (um_pending m)))\<rparr>"

end
