(* ===== verification/UpdateRun.thy ===== *)
theory UpdateRun
  imports UpdateManager "HOL-Library.Multiset"
begin

text \<open>
  The update manager while its threads interleave (\<^verbatim>\<open>src/property_update_manager.cpp\<close>): any number of
  submitting threads, some blocked for a buffer, the worker between its critical sections, and flush
  requests. A submission publishes its pending values under the manager's mutex; a retirement of the worker
  commutes with it, so the loop is one step.
\<close>

section \<open>Definitions\<close>

datatype flush_worker =
    FlushIdle
  | Delivering nat "(PropertyDeltaTarget \<times> FlushGroup) list"
  | Retiring nat "BufferedPropertyUpdate list"
  | DeliveryFailed nat string

text \<open>The lists of submitted and delivered records and the flag for a blocked thread that was woken or a
  flush that failed are auxiliary.\<close>

record update_run =
  ur_manager :: PropertyUpdateManager
  ur_waiting :: "(submit_result \<times> BufferedPropertyUpdate list \<times> u64) list"
  ur_worker :: flush_worker
  ur_submitted :: "BufferedPropertyUpdate list"
  ur_delivered :: "(PropertyDeltaTarget \<times> PropertyDeltaRecord) list"
  ur_disturbed :: bool

definition accepted :: "submit_result \<Rightarrow> BufferedPropertyUpdate list \<Rightarrow> BufferedPropertyUpdate list" where
  "accepted res updates = (case res of Submitted c \<Rightarrow> map (stamp c) updates | _ \<Rightarrow> [])"

definition blocked :: "submit_result \<Rightarrow> BufferedPropertyUpdate list \<Rightarrow> u64 \<Rightarrow>
    (submit_result \<times> BufferedPropertyUpdate list \<times> u64) list" where
  "blocked res updates bytes = (if res = WaitsFirst \<or> res = WaitsSecond then [(res, updates, bytes)] else [])"

definition resume ::
  "std_hash \<Rightarrow> submit_result \<Rightarrow> PropertyUpdateManager \<Rightarrow> BufferedPropertyUpdate list \<Rightarrow> u64 \<Rightarrow>
   PropertyUpdateManager \<times> submit_result" where
  "resume h stage m updates bytes =
     (if stage = WaitsFirst then submit_first h (activate_free m) updates bytes
      else submit_second h (activate_free m) updates bytes)"

definition group_entries :: "(PropertyDeltaTarget \<times> FlushGroup) list \<Rightarrow> (PropertyDeltaTarget \<times> PropertyDeltaRecord) list" where
  "group_entries gs = concat (map (\<lambda>(t, g). map (Pair t) (g_records g)) gs)"

inductive update_step :: "std_hash \<Rightarrow> u64 \<Rightarrow> update_run \<Rightarrow> update_run \<Rightarrow> bool" for h sizeof_update where
  submit: "update_step h sizeof_update r
      (r\<lparr>ur_manager := m', ur_submitted := ur_submitted r @ accepted res updates,
         ur_waiting := ur_waiting r @ blocked res updates bytes\<rparr>)"
    if "unat (um_next_commit_sequence (ur_manager r)) + 1 < 2 ^ 64"
      "batch_bytes sizeof_update (buffer_capacity_bytes (um_options (ur_manager r))) 0 updates = Some bytes \<or> res \<noteq> WaitsFirst \<and> res \<noteq> WaitsSecond"
      "SubmitBatch h sizeof_update (ur_manager r) updates = (m', res)"
| wake: "update_step h sizeof_update r
      (r\<lparr>ur_manager := m', ur_submitted := ur_submitted r @ accepted res updates,
         ur_waiting := ws @ ws' @ blocked res updates bytes, ur_disturbed := True\<rparr>)"
    if "unat (um_next_commit_sequence (ur_manager r)) + 1 < 2 ^ 64"
      "ur_waiting r = ws @ (stage, updates, bytes) # ws'" "resume h stage (ur_manager r) updates bytes = (m', res)"
| take_buffer: "update_step h sizeof_update r (r\<lparr>ur_manager := m', ur_worker := Delivering i gs\<rparr>)"
    if "ur_worker r = FlushIdle" "worker_take (ur_manager r) = Some (i, m')"
      "mset gs = mset (flush_groups (b_records (um_buffers (ur_manager r) ! i)))"
| deliver: "update_step h sizeof_update r
      (r\<lparr>ur_manager := (ur_manager r)\<lparr>um_stats := (um_stats (ur_manager r))
           \<lparr>st_delta_batches_published := st_delta_batches_published (um_stats (ur_manager r)) + 1\<rparr>\<rparr>,
         ur_delivered := ur_delivered r @ group_entries [(t, g)], ur_worker := Delivering i gs\<rparr>)"
    if "ur_worker r = Delivering i ((t, g) # gs)"
| deliver_failed: "update_step h sizeof_update r (r\<lparr>ur_worker := DeliveryFailed i e, ur_disturbed := True\<rparr>)"
    if "ur_worker r = Delivering i ((t, g) # gs)"
| delivered: "update_step h sizeof_update r (r\<lparr>ur_worker := Retiring i (b_records (um_buffers (ur_manager r) ! i))\<rparr>)"
    if "ur_worker r = Delivering i []"
| retire: "update_step h sizeof_update r (r\<lparr>ur_manager := RetireOne h u (ur_manager r), ur_worker := Retiring i us\<rparr>)"
    if "ur_worker r = Retiring i (u # us)"
| flushed: "update_step h sizeof_update r (r\<lparr>ur_manager := worker_flushed i (ur_manager r), ur_worker := FlushIdle\<rparr>)"
    if "ur_worker r = Retiring i []"
| failed: "update_step h sizeof_update r (r\<lparr>ur_manager := worker_failed i e (ur_manager r), ur_worker := FlushIdle\<rparr>)"
    if "ur_worker r = DeliveryFailed i e"
| flush_request: "update_step h sizeof_update r (r\<lparr>ur_manager := fst (flush_begin (ur_manager r))\<rparr>)"
| flush_return: "update_step h sizeof_update r (r\<lparr>ur_manager := fst (flush_end (ur_manager r))\<rparr>)"
    if "flush_ready (ur_manager r)"
| stop: "update_step h sizeof_update r (r\<lparr>ur_manager := StopWorker (ur_manager r)\<rparr>)"
| fatal: "update_step h sizeof_update r (r\<lparr>ur_manager := SetFatalError e (ur_manager r)\<rparr>)"

definition update_start :: "PropertyUpdateManager \<Rightarrow> update_run" where
  "update_start m = \<lparr>ur_manager = m, ur_waiting = [], ur_worker = FlushIdle, ur_submitted = [], ur_delivered = [],
     ur_disturbed = False\<rparr>"

section \<open>Lemmas\<close>

subsection \<open>Pending values\<close>

definition last_sub :: "PendingKey \<Rightarrow> BufferedPropertyUpdate list \<Rightarrow> BufferedPropertyUpdate option" where
  "last_sub k us = List.find (\<lambda>u. MakePendingKey u = k) (rev us)"

lemma last_sub_Nil [simp]: "last_sub k [] = None"
  by (simp add: last_sub_def)

lemma last_sub_snoc [simp]: "last_sub k (us @ [u]) = (if MakePendingKey u = k then Some u else last_sub k us)"
  by (simp add: last_sub_def)

lemma last_sub_member: "last_sub k us = Some u \<Longrightarrow> u \<in> set us \<and> MakePendingKey u = k"
proof (induction us rule: rev_induct)
  case (snoc x xs)
  then show ?case by (auto split: if_splits)
qed simp

definition entry :: "BufferedPropertyUpdate \<Rightarrow> PropertyDeltaTarget \<times> PropertyDeltaRecord" where
  "entry u = (bu_target u, bu_record u)"

abbreviation commit_of :: "BufferedPropertyUpdate \<Rightarrow> PropertyCommitSequence" where
  "commit_of u \<equiv> r_commit_sequence (bu_record u)"

text \<open>What the manager relies on of its table of pending values, and what readers get from it.\<close>

locale pending_table =
  fixes wf :: "'m \<Rightarrow> bool" and find :: "'m \<Rightarrow> PendingKey \<Rightarrow> PendingValue option"
    and publish :: "BufferedPropertyUpdate \<Rightarrow> 'm \<Rightarrow> 'm" and retire :: "BufferedPropertyUpdate \<Rightarrow> 'm \<Rightarrow> 'm"
  assumes wf_publish: "wf m \<Longrightarrow> wf (publish u m)" and wf_retire: "wf m \<Longrightarrow> wf (retire u m)"
    and find_publish: "wf m \<Longrightarrow> find (publish u m) k =
      (if k \<noteq> MakePendingKey u then find m k
       else case find m k of Some v \<Rightarrow> Some (if pv_commit_sequence v \<le> commit_of u then pending_of u else v)
            | None \<Rightarrow> Some (pending_of u))"
    and find_retire: "wf m \<Longrightarrow> find (retire u m) k =
      (if k \<noteq> MakePendingKey u then find m k
       else case find m k of Some v \<Rightarrow> if pv_commit_sequence v = commit_of u then None else Some v | None \<Rightarrow> None)"
begin

text \<open>A value found is the last one submitted; when none is found, the last one submitted was delivered.\<close>

definition visible :: "'m \<Rightarrow> BufferedPropertyUpdate list \<Rightarrow> (PropertyDeltaTarget \<times> PropertyDeltaRecord) set \<Rightarrow> bool" where
  "visible m us sent \<longleftrightarrow> (\<forall>k. case find m k of
      Some v \<Rightarrow> \<exists>u. last_sub k us = Some u \<and> v = pending_of u
    | None \<Rightarrow> \<forall>u. last_sub k us = Some u \<longrightarrow> entry u \<in> sent)"

lemma visible_publish:
  assumes "wf m" "visible m us sent" "\<forall>u' \<in> set us. commit_of u' \<le> commit_of u"
  shows "visible (publish u m) (us @ [u]) sent"
  unfolding visible_def
proof
  fix k
  have old: "case find m k of Some v \<Rightarrow> \<exists>u. last_sub k us = Some u \<and> v = pending_of u
    | None \<Rightarrow> \<forall>u. last_sub k us = Some u \<longrightarrow> entry u \<in> sent" using assms(2) by (simp add: visible_def)
  moreover have "pv_commit_sequence v \<le> commit_of u" if "find m k = Some v" for v
    using old that assms(3) last_sub_member by (fastforce simp: pending_of_def)
  ultimately show "case find (publish u m) k of Some v \<Rightarrow> \<exists>w. last_sub k (us @ [u]) = Some w \<and> v = pending_of w
    | None \<Rightarrow> \<forall>w. last_sub k (us @ [u]) = Some w \<longrightarrow> entry w \<in> sent"
    by (auto simp: find_publish [OF assms(1)] split: option.splits)
qed

lemma visible_publish_all:
  assumes "wf m" "visible m us sent" "\<forall>u \<in> set us. commit_of u \<le> c" "\<forall>u \<in> set vs. commit_of u = c"
  shows "wf (foldl (\<lambda>m u. publish u m) m vs) \<and> visible (foldl (\<lambda>m u. publish u m) m vs) (us @ vs) sent"
  using assms
proof (induction vs arbitrary: m us)
  case (Cons u vs)
  then have "visible (publish u m) (us @ [u]) sent" by (intro visible_publish) simp_all
  with Cons.IH [of "publish u m" "us @ [u]"] Cons.prems wf_publish show ?case by simp
qed simp

lemma visible_retire:
  assumes "wf m" "visible m us sent" "\<forall>u' \<in> set us. commit_of u' = commit_of u \<longrightarrow> entry u' \<in> sent"
  shows "visible (retire u m) us sent"
  unfolding visible_def
proof
  fix k
  have old: "case find m k of Some v \<Rightarrow> \<exists>u. last_sub k us = Some u \<and> v = pending_of u
    | None \<Rightarrow> \<forall>u. last_sub k us = Some u \<longrightarrow> entry u \<in> sent" using assms(2) by (simp add: visible_def)
  moreover have "entry w \<in> sent" if "find m k = Some v" "pv_commit_sequence v = commit_of u" "last_sub k us = Some w" for v w
    using old that assms(3) last_sub_member by (fastforce simp: pending_of_def)
  ultimately show "case find (retire u m) k of Some v \<Rightarrow> \<exists>w. last_sub k us = Some w \<and> v = pending_of w
    | None \<Rightarrow> \<forall>w. last_sub k us = Some w \<longrightarrow> entry w \<in> sent"
    by (auto simp: find_retire [OF assms(1)] split: option.splits)
qed

lemma visible_mono: "visible m us sent \<Longrightarrow> sent \<subseteq> sent' \<Longrightarrow> visible m us sent'"
  unfolding visible_def by (fastforce split: option.splits)

end

definition table_ok :: "PropertyUpdateManager \<Rightarrow> bool" where
  "table_ok m \<longleftrightarrow> length (um_pending m) = kPendingBucketCount"

lemma bucket_bound: "table_ok m \<Longrightarrow> PendingBucketIndex h k < length (um_pending m)"
  by (simp add: table_ok_def PendingBucketIndex_def kPendingBucketCount_def)

interpretation pending: pending_table table_ok "pending_find h" "PublishPending h" "RetireOne h" for h
proof
  fix m :: PropertyUpdateManager and u k
  assume ok: "table_ok m"
  then show "table_ok (PublishPending h u m)" by (simp add: table_ok_def PublishPending_def Let_def)
  from ok show "table_ok (RetireOne h u m)"
    by (simp add: table_ok_def RetireOne_def Let_def split: option.splits)
  show "pending_find h (PublishPending h u m) k =
      (if k \<noteq> MakePendingKey u then pending_find h m k
       else case pending_find h m k of Some v \<Rightarrow> Some (if pv_commit_sequence v \<le> commit_of u then pending_of u else v)
            | None \<Rightarrow> Some (pending_of u))"
    using bucket_bound [OF ok]
    by (cases "PendingBucketIndex h k = PendingBucketIndex h (MakePendingKey u)")
      (auto simp: pending_find_def PublishPending_def Let_def update_conv' split: option.splits)
  show "pending_find h (RetireOne h u m) k =
      (if k \<noteq> MakePendingKey u then pending_find h m k
       else case pending_find h m k of Some v \<Rightarrow> if pv_commit_sequence v = commit_of u then None else Some v | None \<Rightarrow> None)"
    using bucket_bound [OF ok]
    by (cases "PendingBucketIndex h k = PendingBucketIndex h (MakePendingKey u)")
      (auto simp: pending_find_def RetireOne_def Let_def delete_conv' split: option.splits)
qed

subsection \<open>Buffers\<close>

definition states :: "PropertyUpdateManager \<Rightarrow> BufferState list" where
  "states m = map b_state (um_buffers m)"

definition recs :: "PropertyUpdateManager \<Rightarrow> BufferedPropertyUpdate list list" where
  "recs m = map b_records (um_buffers m)"

lemma pool_lengths [simp]: "length (states m) = length (recs m)"
  by (simp add: states_def recs_def)

lemma buffer_views: "i < length (recs m) \<Longrightarrow> b_state (um_buffers m ! i) = states m ! i"
  "i < length (recs m) \<Longrightarrow> b_records (um_buffers m ! i) = recs m ! i"
  by (simp_all add: states_def recs_def)

lemma pool_update [simp]:
  "recs (m\<lparr>um_stats := x\<rparr>) = recs m" "states (m\<lparr>um_stats := x\<rparr>) = states m"
  "recs (m\<lparr>um_active_buffer := a\<rparr>) = recs m" "states (m\<lparr>um_active_buffer := a\<rparr>) = states m"
  "recs (m\<lparr>um_queued_buffers := q\<rparr>) = recs m" "states (m\<lparr>um_queued_buffers := q\<rparr>) = states m"
  "recs (m\<lparr>um_running_flushes := n\<rparr>) = recs m" "states (m\<lparr>um_running_flushes := n\<rparr>) = states m"
  "recs (m\<lparr>um_pending := p\<rparr>) = recs m" "states (m\<lparr>um_pending := p\<rparr>) = states m"
  "recs (m\<lparr>um_next_commit_sequence := c\<rparr>) = recs m" "states (m\<lparr>um_next_commit_sequence := c\<rparr>) = states m"
  "recs (m\<lparr>um_fatal_error := e\<rparr>) = recs m" "states (m\<lparr>um_fatal_error := e\<rparr>) = states m"
  "recs (m\<lparr>um_stop := b\<rparr>) = recs m" "states (m\<lparr>um_stop := b\<rparr>) = states m"
  by (simp_all add: recs_def states_def)

lemma set_buffer_state_pool [simp]:
  "recs (set_buffer_state i s m) = recs m" "states (set_buffer_state i s m) = (states m)[i := s]"
  "um_queued_buffers (set_buffer_state i s m) = um_queued_buffers m"
  "um_active_buffer (set_buffer_state i s m) = um_active_buffer m"
  "um_pending (set_buffer_state i s m) = um_pending m"
  "um_next_commit_sequence (set_buffer_state i s m) = um_next_commit_sequence m"
  "um_running_flushes (set_buffer_state i s m) = um_running_flushes m"
proof -
  show "recs (set_buffer_state i s m) = recs m"
    by (cases "i < length (um_buffers m)")
      (simp_all add: recs_def set_buffer_state_def map_update list_update_beyond, metis list_update_id nth_map)
qed (simp_all add: states_def set_buffer_state_def map_update)

text \<open>Who owns which buffer: the queue, the active slot and the worker hold different ones; free ones are empty.\<close>

fun worker_index :: "flush_worker \<Rightarrow> nat option" where
  "worker_index FlushIdle = None"
| "worker_index (Delivering i gs) = Some i"
| "worker_index (Retiring i us) = Some i"
| "worker_index (DeliveryFailed i e) = Some i"

definition pool_ok :: "PropertyUpdateManager \<Rightarrow> nat option \<Rightarrow> bool" where
  "pool_ok m w \<longleftrightarrow> distinct (um_queued_buffers m) \<and>
     (\<forall>i \<in> set (um_queued_buffers m). i < length (recs m) \<and> states m ! i = kQueued) \<and>
     (\<forall>a. um_active_buffer m = Some a \<longrightarrow> a < length (recs m) \<and> states m ! a = kActive) \<and>
     (\<forall>i. w = Some i \<longrightarrow> i < length (recs m) \<and> states m ! i = kFlushing) \<and>
     (\<forall>i < length (recs m). states m ! i = kFree \<longrightarrow> recs m ! i = [])"

lemma free_index_Some:
  "free_index (um_buffers m) = Some i \<Longrightarrow> i < length (recs m) \<and> states m ! i = kFree"
  by (auto simp: free_index_def find_Some_iff states_def recs_def)

lemma activate_free_cases:
  obtains "activate_free m = m" "free_index (um_buffers m) = None"
  | i where "i < length (recs m)" "states m ! i = kFree"
      "activate_free m = (set_buffer_state i kActive m)\<lparr>um_active_buffer := Some i\<rparr>"
  using free_index_Some by (cases "free_index (um_buffers m)") (auto simp: activate_free_def)

lemma activate_free_same [simp]:
  "recs (activate_free m) = recs m" "um_queued_buffers (activate_free m) = um_queued_buffers m"
  "um_pending (activate_free m) = um_pending m"
  "um_next_commit_sequence (activate_free m) = um_next_commit_sequence m"
  "um_running_flushes (activate_free m) = um_running_flushes m"
  by (cases m rule: activate_free_cases; simp)+

lemma pool_ok_activate: "pool_ok m w \<Longrightarrow> pool_ok (activate_free m) w"
  by (cases m rule: activate_free_cases) (auto simp: pool_ok_def nth_list_update)

lemma pool_ok_queue:
  assumes "pool_ok m w"
  shows "pool_ok (QueueActiveBuffer m) w"
proof (cases "um_active_buffer m")
  case (Some a)
  then have a: "a < length (recs m)" "states m ! a = kActive" using assms by (auto simp: pool_ok_def)
  show ?thesis
  proof (cases "b_records (um_buffers m ! a) = []")
    case False
    have "pool_ok ((set_buffer_state a kQueued m)\<lparr>um_queued_buffers := um_queued_buffers m @ [a], um_active_buffer := None\<rparr>) w"
      using assms a by (fastforce simp: pool_ok_def nth_list_update)
    from pool_ok_activate [OF this] Some False show ?thesis by (simp add: QueueActiveBuffer_def)
  qed (use assms Some in \<open>simp add: QueueActiveBuffer_def\<close>)
qed (use assms in \<open>simp add: QueueActiveBuffer_def\<close>)

text \<open>The records on their way, oldest first: those of the queued buffers, then those of the active one.\<close>

definition queue_line :: "PropertyUpdateManager \<Rightarrow> (PropertyDeltaTarget \<times> PropertyDeltaRecord) list" where
  "queue_line m = map entry (concat (map ((!) (recs m)) (um_queued_buffers m)))"

definition active_line :: "PropertyUpdateManager \<Rightarrow> (PropertyDeltaTarget \<times> PropertyDeltaRecord) list" where
  "active_line m = (case um_active_buffer m of None \<Rightarrow> [] | Some a \<Rightarrow> map entry (recs m ! a))"

lemma line_update [simp]:
  "queue_line (m\<lparr>um_stats := x\<rparr>) = queue_line m" "active_line (m\<lparr>um_stats := x\<rparr>) = active_line m"
  "queue_line (m\<lparr>um_pending := p\<rparr>) = queue_line m" "active_line (m\<lparr>um_pending := p\<rparr>) = active_line m"
  "queue_line (m\<lparr>um_next_commit_sequence := c\<rparr>) = queue_line m"
  "active_line (m\<lparr>um_next_commit_sequence := c\<rparr>) = active_line m"
  "queue_line (m\<lparr>um_fatal_error := e\<rparr>) = queue_line m" "active_line (m\<lparr>um_fatal_error := e\<rparr>) = active_line m"
  "queue_line (m\<lparr>um_stop := b\<rparr>) = queue_line m" "active_line (m\<lparr>um_stop := b\<rparr>) = active_line m"
  "queue_line (m\<lparr>um_running_flushes := n\<rparr>) = queue_line m"
  "active_line (m\<lparr>um_running_flushes := n\<rparr>) = active_line m"
  by (simp_all add: queue_line_def active_line_def cong: option.case_cong)

lemma line_activate:
  assumes "pool_ok m w"
  shows "queue_line (activate_free m) = queue_line m"
    "active_line (activate_free m) = active_line m \<or> active_line (activate_free m) = []"
    "um_active_buffer m = None \<Longrightarrow> active_line (activate_free m) = []"
  using assms
  by (cases m rule: activate_free_cases; simp add: queue_line_def active_line_def pool_ok_def)+

lemma line_queue_both:
  assumes "pool_ok m w"
  shows "active_line (QueueActiveBuffer m) = [] \<and> queue_line (QueueActiveBuffer m) = queue_line m @ active_line m"
proof (cases "um_active_buffer m")
  case None
  then show ?thesis by (simp add: QueueActiveBuffer_def active_line_def)
next
  case (Some a)
  then have a: "a < length (recs m)" "states m ! a = kActive" using assms by (auto simp: pool_ok_def)
  let ?m = "(set_buffer_state a kQueued m)\<lparr>um_queued_buffers := um_queued_buffers m @ [a], um_active_buffer := None\<rparr>"
  show ?thesis
  proof (cases "recs m ! a = []")
    case True
    then show ?thesis using Some a by (simp add: QueueActiveBuffer_def buffer_views active_line_def)
  next
    case False
    have "pool_ok ?m w" using assms a by (fastforce simp: pool_ok_def nth_list_update)
    then have "queue_line (activate_free ?m) = queue_line ?m" "active_line (activate_free ?m) = []"
      using line_activate by auto
    moreover have "queue_line ?m = queue_line m @ map entry (recs m ! a)" by (simp add: queue_line_def)
    moreover have "QueueActiveBuffer m = activate_free ?m"
      using Some a False by (simp add: QueueActiveBuffer_def buffer_views)
    ultimately show ?thesis using Some by (simp add: active_line_def)
  qed
qed

lemmas line_queue = line_queue_both [THEN conjunct1] line_queue_both [THEN conjunct2]

lemma PublishPending_same [simp]:
  "um_buffers (PublishPending h u m) = um_buffers m" "um_queued_buffers (PublishPending h u m) = um_queued_buffers m"
  "um_active_buffer (PublishPending h u m) = um_active_buffer m" "um_options (PublishPending h u m) = um_options m"
  "um_next_commit_sequence (PublishPending h u m) = um_next_commit_sequence m"
  "um_stats (PublishPending h u m) = um_stats m" "um_running_flushes (PublishPending h u m) = um_running_flushes m"
  by (simp_all add: PublishPending_def Let_def)

lemma publish_all_same [simp]:
  "um_buffers (foldl (\<lambda>m u. PublishPending h u m) m us) = um_buffers m"
  "um_queued_buffers (foldl (\<lambda>m u. PublishPending h u m) m us) = um_queued_buffers m"
  "um_active_buffer (foldl (\<lambda>m u. PublishPending h u m) m us) = um_active_buffer m"
  "um_next_commit_sequence (foldl (\<lambda>m u. PublishPending h u m) m us) = um_next_commit_sequence m"
  "um_options (foldl (\<lambda>m u. PublishPending h u m) m us) = um_options m"
  "um_running_flushes (foldl (\<lambda>m u. PublishPending h u m) m us) = um_running_flushes m"
  by (induction us arbitrary: m) simp_all

lemma publish_all_pending:
  "um_pending m = um_pending m' \<Longrightarrow> um_pending (foldl (\<lambda>m u. PublishPending h u m) m us) =
     um_pending (foldl (\<lambda>m u. PublishPending h u m) m' us)"
proof (induction us arbitrary: m m')
  case (Cons u us)
  from Cons.prems have "um_pending (PublishPending h u m) = um_pending (PublishPending h u m')"
    by (simp add: PublishPending_def Let_def)
  from Cons.IH [OF this] show ?case by simp
qed simp

lemma queue_same [simp]:
  "recs (QueueActiveBuffer m) = recs m" "um_pending (QueueActiveBuffer m) = um_pending m"
  "um_next_commit_sequence (QueueActiveBuffer m) = um_next_commit_sequence m"
  "um_running_flushes (QueueActiveBuffer m) = um_running_flushes m"
  by (simp_all add: QueueActiveBuffer_def split: option.splits)

text \<open>What a submission does: it is accepted at the end of the line, or nothing happens.\<close>

definition submits :: "std_hash \<Rightarrow> nat option \<Rightarrow> PropertyUpdateManager \<Rightarrow> BufferedPropertyUpdate list \<Rightarrow>
    PropertyUpdateManager \<times> submit_result \<Rightarrow> bool" where
  "submits h w m us p \<longleftrightarrow> (case p of (m', res) \<Rightarrow> pool_ok m' w \<and> um_running_flushes m' = um_running_flushes m \<and>
     queue_line m' @ active_line m' = queue_line m @ active_line m @ map entry (accepted res us) \<and>
     set (active_line m') \<subseteq> set (active_line m) \<union> set (map entry (accepted res us)) \<and>
     (case res of
        Submitted c \<Rightarrow> c = um_next_commit_sequence m \<and> um_next_commit_sequence m' = c + 1 \<and>
          (\<exists>a < length (recs m). w \<noteq> Some a \<and> recs m' = (recs m)[a := recs m ! a @ accepted res us]) \<and>
          um_pending m' = um_pending (foldl (\<lambda>m u. PublishPending h u m) m (accepted res us))
      | _ \<Rightarrow> um_next_commit_sequence m' = um_next_commit_sequence m \<and> recs m' = recs m \<and> um_pending m' = um_pending m))"

lemma submits_publish:
  assumes "pool_ok m w" "um_active_buffer m = Some a"
  shows "submits h w m us (submit_publish h m a us bytes)"
proof -
  let ?c = "um_next_commit_sequence m"
  let ?us = "map (stamp ?c) us"
  let ?m1 = "foldl (\<lambda>m u. PublishPending h u m) (m\<lparr>um_next_commit_sequence := ?c + 1\<rparr>) ?us"
  let ?b = "um_buffers m ! a"
  define m2 where "m2 = ?m1\<lparr>um_buffers := (um_buffers m)[a := ?b\<lparr>b_bytes := b_bytes ?b + bytes, b_records := b_records ?b @ ?us\<rparr>],
      um_stats := (um_stats ?m1)\<lparr>st_submitted_records := st_submitted_records (um_stats ?m1) + word_of_nat (length us),
                     st_submitted_bytes := st_submitted_bytes (um_stats ?m1) + bytes\<rparr>\<rparr>"
  have a: "a < length (recs m)" "states m ! a = kActive" "a \<notin> set (um_queued_buffers m)" "w \<noteq> Some a"
    using assms by (auto simp: pool_ok_def)
  have r: "recs m2 = (recs m)[a := recs m ! a @ ?us]"
    using a(1) by (simp add: m2_def recs_def map_update)
  have st: "states m2 = states m"
    using a(1) by (simp add: m2_def states_def recs_def map_update) (metis length_map list_update_id nth_map)
  have q: "um_queued_buffers m2 = um_queued_buffers m" "um_active_buffer m2 = Some a"
    using assms(2) by (simp_all add: m2_def)
  have ok: "pool_ok m2 w" using assms(1) a by (auto simp: pool_ok_def r st q nth_list_update)
  have "map ((!) (recs m2)) (um_queued_buffers m) = map ((!) (recs m)) (um_queued_buffers m)"
    using a(3) by (intro map_cong refl) (metis r nth_list_update_neq)
  then have "queue_line m2 = queue_line m" unfolding queue_line_def q by (rule arg_cong)
  then have line: "queue_line m2 @ active_line m2 = queue_line m @ active_line m @ map entry ?us"
      "set (active_line m2) \<subseteq> set (active_line m) \<union> set (map entry ?us)"
    using a assms(2) by (auto simp: active_line_def q r)
  have pend: "um_pending m2 = um_pending (foldl (\<lambda>m u. PublishPending h u m) m ?us)"
    by (simp add: m2_def) (rule publish_all_pending, simp)
  have nxt: "um_next_commit_sequence m2 = ?c + 1" "um_running_flushes m2 = um_running_flushes m" by (simp_all add: m2_def)
  have "submit_publish h m a us bytes =
      (if full (um_options m) (?b\<lparr>b_bytes := b_bytes ?b + bytes, b_records := b_records ?b @ ?us\<rparr>)
       then QueueActiveBuffer m2 else m2, Submitted ?c)"
    by (simp add: submit_publish_def Let_def m2_def)
  then show ?thesis
    using a(1,4) r ok line pend nxt pool_ok_queue [OF ok] line_queue [OF ok]
    by (auto simp: submits_def accepted_def)
qed

lemma EnsureActive_cases:
  assumes "EnsureActiveBuffer m = (m', res)"
  shows "um_buffers m' = um_buffers m \<and> um_queued_buffers m' = um_queued_buffers m \<and>
    um_active_buffer m' = um_active_buffer m \<and> um_pending m' = um_pending m \<and>
    um_next_commit_sequence m' = um_next_commit_sequence m \<and> um_options m' = um_options m \<and>
    um_running_flushes m' = um_running_flushes m \<and>
    (\<forall>a. res = EnsureReady a \<longrightarrow> um_active_buffer m = Some a)"
  using assms by (auto simp: EnsureActiveBuffer_def split: if_splits option.splits)

text \<open>Two managers that differ in their counters only.\<close>

definition same_pool :: "PropertyUpdateManager \<Rightarrow> PropertyUpdateManager \<Rightarrow> bool" where
  "same_pool m m' \<longleftrightarrow> um_buffers m' = um_buffers m \<and> um_queued_buffers m' = um_queued_buffers m \<and>
    um_active_buffer m' = um_active_buffer m \<and> um_pending m' = um_pending m \<and>
    um_next_commit_sequence m' = um_next_commit_sequence m \<and> um_running_flushes m' = um_running_flushes m"

lemma same_pool_views:
  assumes "same_pool m m'"
  shows "recs m' = recs m" "states m' = states m" "queue_line m' = queue_line m" "active_line m' = active_line m"
    "pool_ok m' w = pool_ok m w"
  using assms
  by (simp_all add: same_pool_def recs_def states_def queue_line_def active_line_def pool_ok_def cong: option.case_cong)

lemma submits_same_pool:
  assumes "same_pool m0 m" "submits h w m us p"
  shows "submits h w m0 us p"
proof -
  have "um_pending (foldl (\<lambda>m u. PublishPending h u m) m vs) = um_pending (foldl (\<lambda>m u. PublishPending h u m) m0 vs)" for vs
    using assms(1) by (intro publish_all_pending) (simp add: same_pool_def)
  then show ?thesis
    using assms same_pool_views [OF assms(1)]
    by (auto simp: submits_def same_pool_def split: prod.splits submit_result.splits)
qed

lemma submits_nothing:
  assumes "same_pool m m'" "pool_ok m w" "\<forall>c. res \<noteq> Submitted c"
  shows "submits h w m us (m', res)"
  using assms same_pool_views [OF assms(1)]
  by (cases res) (simp_all add: submits_def accepted_def same_pool_def)

lemma submits_second: "pool_ok m w \<Longrightarrow> submits h w m us (submit_second h m us bytes)"
proof (cases "EnsureActiveBuffer m")
  case (Pair m' res)
  assume ok: "pool_ok m w"
  note e = EnsureActive_cases [OF Pair]
  then have same: "same_pool m m'" by (simp add: same_pool_def)
  show ?thesis
  proof (cases res)
    case (EnsureReady a)
    then have "submits h w m' us (submit_publish h m' a us bytes)"
      using e ok same_pool_views [OF same] by (intro submits_publish) auto
    then show ?thesis using submits_same_pool [OF same] Pair EnsureReady by (simp add: submit_second_def)
  qed (use Pair submits_nothing [OF same ok] in \<open>simp_all add: submit_second_def\<close>)
qed

lemma submits_queue:
  assumes "pool_ok m w" "submits h w (QueueActiveBuffer m) us p"
  shows "submits h w m us p"
proof -
  have "um_pending (foldl (\<lambda>m u. PublishPending h u m) (QueueActiveBuffer m) vs) =
      um_pending (foldl (\<lambda>m u. PublishPending h u m) m vs)" for vs by (rule publish_all_pending) simp
  then show ?thesis
    using assms(2) line_queue [OF assms(1)]
    by (auto simp: submits_def split: prod.splits submit_result.splits)
qed

lemma submits_first: "pool_ok m w \<Longrightarrow> submits h w m us (submit_first h m us bytes)"
proof (cases "EnsureActiveBuffer m")
  case (Pair m' res)
  assume ok: "pool_ok m w"
  note e = EnsureActive_cases [OF Pair]
  then have same: "same_pool m m'" by (simp add: same_pool_def)
  then have ok': "pool_ok m' w" using ok by (simp add: same_pool_views(5))
  show ?thesis
  proof (cases res)
    case (EnsureReady a)
    then have "submits h w m' us (submit_publish h m' a us bytes)"
      using e ok' by (intro submits_publish) auto
    moreover have "submits h w m' us (submit_second h (QueueActiveBuffer m') us bytes)"
      by (rule submits_queue [OF ok' submits_second [OF pool_ok_queue [OF ok']]])
    ultimately have "submits h w m' us (submit_first h m us bytes)"
      using Pair EnsureReady by (simp add: submit_first_def Let_def)
    then show ?thesis by (rule submits_same_pool [OF same])
  qed (use Pair submits_nothing [OF same ok] in \<open>simp_all add: submit_first_def\<close>)
qed

lemma submits_batch: "pool_ok m w \<Longrightarrow> submits h w m us (SubmitBatch h sz m us)"
  using submits_first [of m w h us] submits_nothing [of m m w]
  by (auto simp: SubmitBatch_def same_pool_def split: option.splits)

end
