(* ===== verification/UpdateInv.thy ===== *)
theory UpdateInv
  imports UpdateRun DeltaMerge
begin

text \<open>
  What holds in every state the update manager reaches: records are delivered in commit order and only
  once, an undisturbed run delivers everything, and readers find the last value submitted until it is
  delivered.
\<close>

section \<open>Definitions\<close>

definition on_target :: "PropertyDeltaTarget \<Rightarrow> (PropertyDeltaTarget \<times> PropertyDeltaRecord) list \<Rightarrow> PropertyDeltaRecord list" where
  "on_target t es = map snd (filter (\<lambda>e. fst e = t) es)"

fun worker_line :: "flush_worker \<Rightarrow> (PropertyDeltaTarget \<times> PropertyDeltaRecord) list" where
  "worker_line (Delivering i gs) = group_entries gs"
| "worker_line _ = []"

text \<open>All records of a run in the order in which they are or will be delivered.\<close>

definition line :: "update_run \<Rightarrow> (PropertyDeltaTarget \<times> PropertyDeltaRecord) list" where
  "line r = ur_delivered r @ worker_line (ur_worker r) @ queue_line (ur_manager r) @ active_line (ur_manager r)"

definition update_reaches :: "std_hash \<Rightarrow> u64 \<Rightarrow> PropertyUpdateManager \<Rightarrow> update_run \<Rightarrow> bool" where
  "update_reaches h sizeof_update m r \<longleftrightarrow> (update_step h sizeof_update)\<^sup>*\<^sup>* (update_start m) r"

section \<open>Groups of a buffer\<close>

lemma on_target_simps [simp]:
  "on_target t [] = []" "on_target t (xs @ ys) = on_target t xs @ on_target t ys"
  "on_target t (e # es) = (if fst e = t then snd e # on_target t es else on_target t es)"
  by (simp_all add: on_target_def)

lemma on_target_entries: "on_target t (map entry us) = map bu_record (filter (\<lambda>u. bu_target u = t) us)"
  by (induction us) (simp_all add: entry_def)

lemma on_target_pairs [simp]: "on_target t (map (Pair s) rs) = (if s = t then rs else [])"
  by (induction rs) auto

lemma on_target_mset:
  assumes "\<And>t. on_target t xs = on_target t ys"
  shows "mset xs = mset ys"
proof (rule multiset_eqI)
  fix e
  have "count (mset es) e = count (mset (on_target (fst e) es)) (snd e)" for es
    by (induction es) (auto simp: prod_eq_iff)
  then show "count (mset xs) e = count (mset ys) e" using assms by simp
qed

lemma flush_groups_snoc: "flush_groups (us @ [u]) = add_to_group u (flush_groups us)"
  by (simp add: flush_groups_def)

lemma flush_groups_ok:
  "distinct (map fst (flush_groups us)) \<and>
   (case map_of (flush_groups us) t of None \<Rightarrow> [] | Some g \<Rightarrow> g_records g) = on_target t (map entry us)"
proof (induction us rule: rev_induct)
  case Nil
  then show ?case by (simp add: flush_groups_def)
next
  case (snoc u us)
  then show ?case
    by (auto simp: flush_groups_snoc add_to_group_def Let_def distinct_update update_conv' entry_def
        simp del: map_of_eq_Some_iff split: option.splits)
qed

lemma group_entries_Nil [simp]: "group_entries [] = []"
  by (simp add: group_entries_def)

lemma group_entries_Cons: "group_entries ((t, g) # gs) = group_entries [(t, g)] @ group_entries gs"
  by (simp add: group_entries_def)

lemma on_target_groups:
  "distinct (map fst gs) \<Longrightarrow>
   on_target t (group_entries gs) = (case map_of gs t of None \<Rightarrow> [] | Some g \<Rightarrow> g_records g)"
proof (induction gs)
  case (Cons p gs)
  obtain s g where "p = (s, g)" by fastforce
  moreover have "map_of gs s = None" if "s \<notin> fst ` set gs" using that by (simp add: map_of_eq_None_iff)
  ultimately show ?case using Cons by (auto simp: group_entries_def)
qed simp

text \<open>However the hash map orders the groups of a buffer, every target gets its records in buffer order.\<close>

lemma flush_groups_target:
  assumes "mset gs = mset (flush_groups us)"
  shows "on_target t (group_entries gs) = on_target t (map entry us)"
proof -
  have d: "distinct (map fst (flush_groups us))" using flush_groups_ok by blast
  have "mset (map fst gs) = mset (map fst (flush_groups us))" using assms by simp
  then have d': "distinct (map fst gs)" using d mset_eq_imp_distinct_iff by blast
  have "map_of gs = map_of (flush_groups us)"
    using map_of_inject_set [OF d' d] mset_eq_setD [OF assms] by blast
  then show ?thesis using on_target_groups [OF d'] flush_groups_ok by simp
qed

lemmas flush_groups_mset = on_target_mset [OF flush_groups_target]

section \<open>The invariant\<close>

definition line_ok :: "update_run \<Rightarrow> bool" where
  "line_ok r \<longleftrightarrow> (\<forall>t. sorted (map r_commit_sequence (on_target t (line r)))) \<and>
     mset (line r) \<subseteq># mset (map entry (ur_submitted r)) \<and>
     (\<not> ur_disturbed r \<longrightarrow> mset (line r) = mset (map entry (ur_submitted r)))"

text \<open>A buffer holds whole batches.\<close>

definition batches_ok :: "PropertyUpdateManager \<Rightarrow> BufferedPropertyUpdate list \<Rightarrow> bool" where
  "batches_ok m us \<longleftrightarrow> (\<forall>i < length (recs m). set (recs m ! i) \<subseteq> set us \<and>
     (\<forall>u \<in> set (recs m ! i). \<forall>u' \<in> set us. commit_of u' = commit_of u \<longrightarrow> u' \<in> set (recs m ! i)))"

fun worker_ok :: "PropertyUpdateManager \<Rightarrow> (PropertyDeltaTarget \<times> PropertyDeltaRecord) set \<Rightarrow> flush_worker \<Rightarrow> bool" where
  "worker_ok m sent (Delivering i gs) \<longleftrightarrow> entry ` set (recs m ! i) \<subseteq> sent \<union> set (group_entries gs)"
| "worker_ok m sent (Retiring i us) \<longleftrightarrow> entry ` set (recs m ! i) \<subseteq> sent \<and> set us \<subseteq> set (recs m ! i)"
| "worker_ok m sent _ \<longleftrightarrow> True"

definition update_inv :: "std_hash \<Rightarrow> update_run \<Rightarrow> bool" where
  "update_inv h r \<longleftrightarrow> pool_ok (ur_manager r) (worker_index (ur_worker r)) \<and>
     um_running_flushes (ur_manager r) = (if ur_worker r = FlushIdle then 0 else 1) \<and>
     table_ok (ur_manager r) \<and>
     (\<forall>u \<in> set (ur_submitted r). commit_of u < um_next_commit_sequence (ur_manager r)) \<and>
     line_ok r \<and> batches_ok (ur_manager r) (ur_submitted r) \<and>
     worker_ok (ur_manager r) (set (ur_delivered r)) (ur_worker r) \<and>
     pending.visible h (ur_manager r) (ur_submitted r) (set (ur_delivered r))"

lemma visible_pending:
  "um_pending m' = um_pending m \<Longrightarrow> pending.visible h m' us sent = pending.visible h m us sent"
  by (simp add: pending.visible_def pending_find_def cong: option.case_cong)

lemma worker_ok_recs: "worker_index w = None \<or> recs m' ! the (worker_index w) = recs m ! the (worker_index w) \<Longrightarrow>
    worker_ok m' sent w = worker_ok m sent w"
  by (cases w) simp_all

lemma batches_ok_recs: "recs m' = recs m \<Longrightarrow> batches_ok m' us = batches_ok m us"
  by (simp add: batches_ok_def)

lemma sorted_on_target_snoc:
  assumes "\<forall>t. sorted (map r_commit_sequence (on_target t es))"
    "\<forall>e \<in> set es. r_commit_sequence (snd e) \<le> c" "\<forall>e \<in> set es'. r_commit_sequence (snd e) = c"
  shows "sorted (map r_commit_sequence (on_target t (es @ es')))"
proof -
  have "map r_commit_sequence (on_target t es') = replicate (length (on_target t es')) c"
    using assms(3) by (induction es') auto
  moreover have "\<forall>x \<in> set (map r_commit_sequence (on_target t es)). x \<le> c"
    using assms(2) by (auto simp: on_target_def)
  ultimately show ?thesis using assms(1) by (auto simp: sorted_append)
qed

subsection \<open>Steps that keep the order of the line\<close>

lemma line_ok_same:
  assumes "line_ok r" "\<And>t. on_target t (line r') = on_target t (line r)"
    "ur_submitted r' = ur_submitted r" "ur_disturbed r' = ur_disturbed r"
  shows "line_ok r'"
  using assms on_target_mset [OF assms(2)] by (simp add: line_ok_def)

lemma line_ok_drop:
  assumes "line_ok r" "line r = a @ b @ c" "line r' = a @ c" "ur_submitted r' = ur_submitted r" "ur_disturbed r'"
  shows "line_ok r'"
proof -
  have "mset (line r') \<subseteq># mset (line r)" unfolding assms(2,3) by simp
  also have "\<dots> \<subseteq># mset (map entry (ur_submitted r))" using assms(1) by (simp add: line_ok_def)
  finally have "mset (line r') \<subseteq># mset (map entry (ur_submitted r'))" unfolding assms(4) .
  moreover have "sorted (map r_commit_sequence (on_target t (line r')))" for t
  proof -
    have "sorted (map r_commit_sequence (on_target t (a @ b @ c)))" using assms(1,2) by (simp add: line_ok_def)
    then show ?thesis unfolding assms(3) by (simp add: sorted_append)
  qed
  ultimately show ?thesis using assms(5) by (simp add: line_ok_def)
qed

lemma line_ok_submit:
  assumes "line_ok r" "line r' = line r @ map entry us" "ur_submitted r' = ur_submitted r @ us"
    "ur_disturbed r' = ur_disturbed r" "\<forall>u \<in> set (ur_submitted r). commit_of u \<le> c" "\<forall>u \<in> set us. commit_of u = c"
  shows "line_ok r'"
proof -
  have "set (line r) \<subseteq> entry ` set (ur_submitted r)"
    using assms(1) mset_subset_eqD by (fastforce simp: line_ok_def simp flip: set_mset_mset)
  then have "\<forall>e \<in> set (line r). r_commit_sequence (snd e) \<le> c" using assms(5) by (auto simp: entry_def)
  then have "sorted (map r_commit_sequence (on_target t (line r @ map entry us)))" for t
    using assms(1,6) by (intro sorted_on_target_snoc [where c = c]) (auto simp: line_ok_def entry_def)
  with assms(1-4) show ?thesis by (simp add: line_ok_def)
qed

text \<open>A step that moves no records and no pending values.\<close>

lemma inv_frame:
  assumes "update_inv h r" "pool_ok m' (worker_index w')" "um_running_flushes m' = (if w' = FlushIdle then 0 else 1)"
    "um_pending m' = um_pending (ur_manager r)" "um_next_commit_sequence m' = um_next_commit_sequence (ur_manager r)"
    "recs m' = recs (ur_manager r)" "line_ok (r\<lparr>ur_manager := m', ur_worker := w', ur_disturbed := d\<rparr>)"
    "worker_ok m' (set (ur_delivered r)) w'"
  shows "update_inv h (r\<lparr>ur_manager := m', ur_worker := w', ur_disturbed := d\<rparr>)"
  using assms visible_pending [OF assms(4)]
  by (simp add: update_inv_def table_ok_def batches_ok_recs [OF assms(6)])

lemma inv_frame_manager:
  assumes "update_inv h r" "pool_ok m' (worker_index (ur_worker r))" "um_running_flushes m' = um_running_flushes (ur_manager r)"
    "um_pending m' = um_pending (ur_manager r)" "um_next_commit_sequence m' = um_next_commit_sequence (ur_manager r)"
    "recs m' = recs (ur_manager r)"
    "queue_line m' @ active_line m' = queue_line (ur_manager r) @ active_line (ur_manager r)"
  shows "update_inv h (r\<lparr>ur_manager := m'\<rparr>)"
proof -
  have "line_ok r" "worker_ok (ur_manager r) (set (ur_delivered r)) (ur_worker r)"
    "um_running_flushes (ur_manager r) = (if ur_worker r = FlushIdle then 0 else 1)"
    using assms(1) by (simp_all add: update_inv_def)
  moreover from this have "line_ok (r\<lparr>ur_manager := m'\<rparr>)"
    by (elim line_ok_same) (use assms(7) in \<open>simp_all add: line_def flip: on_target_simps(2)\<close>)
  ultimately have "update_inv h (r\<lparr>ur_manager := m', ur_worker := ur_worker r, ur_disturbed := ur_disturbed r\<rparr>)"
    using assms worker_ok_recs [of "ur_worker r" m' "ur_manager r"] by (intro inv_frame) simp_all
  then show ?thesis by simp
qed

subsection \<open>Submissions\<close>

lemma next_less: "unat c + 1 < 2 ^ 64 \<Longrightarrow> c < c + 1" for c :: u64
  by (simp add: word_less_nat_alt unat_word_ariths)

lemma batches_submit:
  assumes "batches_ok m us" "a < length (recs m)" "recs m' = (recs m)[a := recs m ! a @ vs]"
    "\<forall>u \<in> set us. commit_of u < c" "\<forall>u \<in> set vs. commit_of u = c"
  shows "batches_ok m' (us @ vs)"
  unfolding batches_ok_def
proof (intro allI impI)
  fix i assume "i < length (recs m')"
  then have i: "i < length (recs m)" using assms(3) by simp
  then have old: "set (recs m ! i) \<subseteq> set us"
    "\<And>u u'. u \<in> set (recs m ! i) \<Longrightarrow> u' \<in> set us \<Longrightarrow> commit_of u' = commit_of u \<Longrightarrow> u' \<in> set (recs m ! i)"
    using assms(1) by (auto simp: batches_ok_def)
  have new: "set (recs m' ! i) = set (recs m ! i) \<union> (if i = a then set vs else {})" using assms(2,3) i by auto
  have differ: "commit_of u \<noteq> commit_of v" if "u \<in> set us" "v \<in> set vs" for u v using that assms(4,5) by fastforce
  show "set (recs m' ! i) \<subseteq> set (us @ vs) \<and>
    (\<forall>u \<in> set (recs m' ! i). \<forall>u' \<in> set (us @ vs). commit_of u' = commit_of u \<longrightarrow> u' \<in> set (recs m' ! i))"
    unfolding new using old differ by (cases "i = a") (auto; metis subsetD)+
qed

lemma inv_submits:
  assumes inv: "update_inv h r" and bound: "unat (um_next_commit_sequence (ur_manager r)) + 1 < 2 ^ 64"
    and sub: "submits h (worker_index (ur_worker r)) (ur_manager r) us (m', res)"
  shows "update_inv h (r\<lparr>ur_manager := m', ur_submitted := ur_submitted r @ accepted res us, ur_waiting := ws\<rparr>)"
    (is "update_inv h ?r'")
proof (cases "\<exists>c. res = Submitted c")
  case False
  then have "accepted res us = []" by (cases res) (simp_all add: accepted_def)
  moreover have "update_inv h (r\<lparr>ur_manager := m'\<rparr>)"
    using sub False calculation by (intro inv_frame_manager [OF inv]) (auto simp: submits_def split: submit_result.splits)
  ultimately show ?thesis by (simp add: update_inv_def line_ok_def line_def)
next
  case True
  then obtain c where res: "res = Submitted c" by blast
  let ?m = "ur_manager r" and ?vs = "accepted res us"
  obtain a where pool: "pool_ok m' (worker_index (ur_worker r))" "um_running_flushes m' = um_running_flushes ?m"
      and lines: "queue_line m' @ active_line m' = queue_line ?m @ active_line ?m @ map entry ?vs"
      and c: "c = um_next_commit_sequence ?m" "um_next_commit_sequence m' = c + 1"
      and a: "a < length (recs ?m)" "worker_index (ur_worker r) \<noteq> Some a" "recs m' = (recs ?m)[a := recs ?m ! a @ ?vs]"
      and pend: "um_pending m' = um_pending (foldl (\<lambda>m u. PublishPending h u m) ?m ?vs)"
    using sub res by (auto simp: submits_def)
  have commits: "\<forall>u \<in> set ?vs. commit_of u = c" by (simp add: accepted_def res stamp_def)
  have less: "c < c + 1" using next_less bound c(1) by blast
  have older: "\<forall>u \<in> set (ur_submitted r). commit_of u < c" using inv c(1) by (simp add: update_inv_def)
  then have le: "\<forall>u \<in> set (ur_submitted r). commit_of u \<le> c" by (simp add: order_less_imp_le)
  have "pending.visible h (foldl (\<lambda>m u. PublishPending h u m) ?m ?vs) (ur_submitted r @ ?vs) (set (ur_delivered r)) \<and>
      table_ok (foldl (\<lambda>m u. PublishPending h u m) ?m ?vs)"
    using pending.visible_publish_all [OF _ _ le commits, of ?m h "set (ur_delivered r)"] inv by (simp add: update_inv_def)
  then have vis: "pending.visible h m' (ur_submitted r @ ?vs) (set (ur_delivered r))" "table_ok m'"
    using visible_pending [OF pend] pend by (simp_all add: table_ok_def)
  have ok: "line_ok r" using inv by (simp add: update_inv_def)
  have "line ?r' = line r @ map entry ?vs" using lines by (simp add: line_def)
  then have "line_ok ?r'" by (rule line_ok_submit [OF ok _ _ _ le commits]) simp_all
  moreover have "worker_ok m' (set (ur_delivered r)) (ur_worker r)"
  proof -
    have "worker_index (ur_worker r) = None \<or> recs m' ! the (worker_index (ur_worker r)) = recs ?m ! the (worker_index (ur_worker r))"
      using a by (cases "worker_index (ur_worker r)") auto
    from worker_ok_recs [OF this] show ?thesis using inv by (simp add: update_inv_def)
  qed
  moreover have "batches_ok m' (ur_submitted r @ ?vs)"
    using inv older commits by (intro batches_submit [OF _ a(1,3), where c = c]) (simp_all add: update_inv_def)
  moreover have "\<forall>u \<in> set (ur_submitted r @ ?vs). commit_of u < um_next_commit_sequence m'"
    using older commits less c(2) by (auto dest: order_less_trans)
  ultimately show ?thesis using inv pool vis by (simp add: update_inv_def)
qed

subsection \<open>The worker\<close>

lemma queue_line_take:
  "um_queued_buffers m = i # rest \<Longrightarrow> queue_line m = map entry (recs m ! i) @ map entry (concat (map ((!) (recs m)) rest))"
  by (simp add: queue_line_def)

lemma inv_take:
  assumes inv: "update_inv h r" and idle: "ur_worker r = FlushIdle" and taken: "worker_take (ur_manager r) = Some (i, m')"
    and gs: "mset gs = mset (flush_groups (b_records (um_buffers (ur_manager r) ! i)))"
  shows "update_inv h (r\<lparr>ur_manager := m', ur_worker := Delivering i gs\<rparr>)"
proof -
  let ?m = "ur_manager r"
  obtain rest where q: "um_queued_buffers ?m = i # rest"
      and m': "m' = (set_buffer_state i kFlushing ?m)\<lparr>um_queued_buffers := rest, um_running_flushes := um_running_flushes ?m + 1\<rparr>"
    using taken by (auto simp: worker_take_def split: list.splits)
  have ok: "pool_ok ?m None" "um_running_flushes ?m = 0" "line_ok r" using inv idle by (simp_all add: update_inv_def)
  have i: "i < length (recs ?m)" "states ?m ! i = kQueued" "i \<notin> set rest" using ok(1) q by (auto simp: pool_ok_def)
  have pool: "pool_ok m' (Some i)" using ok(1) i q by (fastforce simp: pool_ok_def m' nth_list_update)
  have gs': "mset gs = mset (flush_groups (recs ?m ! i))" using gs i(1) by (simp add: buffer_views)
  have active: "active_line m' = active_line ?m" by (simp add: m' active_line_def cong: option.case_cong)
  have queue: "queue_line ?m = map entry (recs ?m ! i) @ queue_line m'"
    using queue_line_take [OF q] by (simp add: m' queue_line_def)
  have "line_ok (r\<lparr>ur_manager := m', ur_worker := Delivering i gs\<rparr>)"
    using ok(3) by (elim line_ok_same) (simp_all add: line_def idle active queue flush_groups_target [OF gs'])
  moreover have "worker_ok m' (set (ur_delivered r)) (Delivering i gs)"
    using mset_eq_setD [OF flush_groups_mset [OF gs']] by (simp add: m')
  ultimately have "update_inv h (r\<lparr>ur_manager := m', ur_worker := Delivering i gs, ur_disturbed := ur_disturbed r\<rparr>)"
    using pool ok(2) by (intro inv_frame [OF inv]) (simp_all add: m')
  then show ?thesis by simp
qed

lemma inv_deliver:
  assumes inv: "update_inv h r" and w: "ur_worker r = Delivering i ((t, g) # gs)"
  shows "update_inv h (r\<lparr>ur_manager := (ur_manager r)\<lparr>um_stats := x\<rparr>,
    ur_delivered := ur_delivered r @ group_entries [(t, g)], ur_worker := Delivering i gs\<rparr>)" (is "update_inv h ?r'")
proof -
  have "line_ok r" "pending.visible h (ur_manager r) (ur_submitted r) (set (ur_delivered r))"
    using inv by (simp_all add: update_inv_def)
  moreover have "line ?r' = line r" by (simp add: line_def w group_entries_Cons [of t g gs])
  ultimately have "line_ok ?r'" "pending.visible h (ur_manager r) (ur_submitted r) (set (ur_delivered r @ group_entries [(t, g)]))"
    by (auto intro: line_ok_same pending.visible_mono)
  then show ?thesis using inv w
    by (auto simp: update_inv_def pool_ok_def table_ok_def group_entries_Cons [of t g gs]
        batches_ok_recs [of "(ur_manager r)\<lparr>um_stats := x\<rparr>" "ur_manager r"]
        visible_pending [of "(ur_manager r)\<lparr>um_stats := x\<rparr>" "ur_manager r"])
qed

lemma inv_deliver_failed:
  assumes inv: "update_inv h r" and w: "ur_worker r = Delivering i ((t, g) # gs)"
  shows "update_inv h (r\<lparr>ur_worker := DeliveryFailed i e, ur_disturbed := True\<rparr>)" (is "update_inv h ?r'")
proof -
  have "line_ok ?r'"
    by (rule line_ok_drop [of r "ur_delivered r" "group_entries ((t, g) # gs)" "queue_line (ur_manager r) @ active_line (ur_manager r)"])
      (use inv in \<open>simp_all add: update_inv_def line_def w\<close>)
  then show ?thesis using inv w by (simp add: update_inv_def)
qed

lemma inv_retire:
  assumes inv: "update_inv h r" and w: "ur_worker r = Retiring i (u # us)"
  shows "update_inv h (r\<lparr>ur_manager := RetireOne h u (ur_manager r), ur_worker := Retiring i us\<rparr>)" (is "update_inv h ?r'")
proof -
  let ?m = "ur_manager r" and ?m' = "RetireOne h u (ur_manager r)"
  have same: "recs ?m' = recs ?m" "states ?m' = states ?m" "queue_line ?m' = queue_line ?m" "active_line ?m' = active_line ?m"
    "um_running_flushes ?m' = um_running_flushes ?m" "um_next_commit_sequence ?m' = um_next_commit_sequence ?m"
    "um_queued_buffers ?m' = um_queued_buffers ?m" "um_active_buffer ?m' = um_active_buffer ?m"
    by (simp_all add: RetireOne_def Let_def split: option.splits)
  have ok: "pool_ok ?m (Some i)" "table_ok ?m" "batches_ok ?m (ur_submitted r)" "line_ok r"
      "entry ` set (recs ?m ! i) \<subseteq> set (ur_delivered r)" "set (u # us) \<subseteq> set (recs ?m ! i)"
    using inv w by (simp_all add: update_inv_def)
  then have "i < length (recs ?m)" by (simp add: pool_ok_def)
  then have "\<forall>u' \<in> set (ur_submitted r). commit_of u' = commit_of u \<longrightarrow> entry u' \<in> set (ur_delivered r)"
    using ok(3,5,6) by (fastforce simp: batches_ok_def)
  then have "pending.visible h ?m' (ur_submitted r) (set (ur_delivered r))"
    using inv by (intro pending.visible_retire ok(2)) (simp_all add: update_inv_def)
  moreover have "line_ok ?r'" using ok(4) by (elim line_ok_same) (simp_all add: line_def w same)
  moreover have "pool_ok ?m' (Some i)" using ok(1) by (simp add: pool_ok_def same)
  ultimately show ?thesis using inv w pending.wf_retire [OF ok(2)] same ok batches_ok_recs [OF same(1)]
    by (simp add: update_inv_def)
qed

lemma worker_flushed_pool:
  assumes ok: "pool_ok m (Some i)"
  shows "pool_ok (worker_flushed i m) None \<and> recs (worker_flushed i m) = (recs m)[i := []] \<and>
    queue_line (worker_flushed i m) = queue_line m \<and> active_line (worker_flushed i m) = active_line m \<and>
    um_pending (worker_flushed i m) = um_pending m \<and> um_running_flushes (worker_flushed i m) = um_running_flushes m - 1 \<and>
    um_next_commit_sequence (worker_flushed i m) = um_next_commit_sequence m"
proof -
  define m1 where "m1 = m\<lparr>um_running_flushes := um_running_flushes m - 1,
                 um_buffers := (um_buffers m)[i := \<lparr>b_state = kFree, b_records = [], b_bytes = 0\<rparr>],
                 um_stats := (um_stats m)\<lparr>st_buffers_flushed := st_buffers_flushed (um_stats m) + 1\<rparr>\<rparr>"
  have i: "i < length (recs m)" "i \<notin> set (um_queued_buffers m)" "um_active_buffer m \<noteq> Some i"
    using ok by (auto simp: pool_ok_def)
  have m1: "recs m1 = (recs m)[i := []]" "states m1 = (states m)[i := kFree]" "um_queued_buffers m1 = um_queued_buffers m"
    "um_active_buffer m1 = um_active_buffer m" by (simp_all add: m1_def recs_def states_def map_update)
  have pool: "pool_ok m1 None" using ok i by (auto simp: pool_ok_def m1 nth_list_update)
  have "map ((!) (recs m1)) (um_queued_buffers m) = map ((!) (recs m)) (um_queued_buffers m)"
    using i(2) by (intro map_cong refl) (metis m1(1) nth_list_update_neq)
  then have "queue_line m1 = queue_line m" unfolding queue_line_def m1(3) by (rule arg_cong)
  moreover have "active_line m1 = active_line m"
    using i(3) by (cases "um_active_buffer m") (auto simp: active_line_def m1)
  ultimately have lines: "queue_line m1 = queue_line m" "active_line m1 = active_line m" by simp_all
  show ?thesis
  proof (cases "um_active_buffer m")
    case None
    let ?m2 = "(set_buffer_state i kActive m1)\<lparr>um_active_buffer := Some i\<rparr>"
    have "worker_flushed i m = ?m2" by (simp add: worker_flushed_def Let_def None flip: m1_def) (simp add: m1_def None)
    moreover have "pool_ok ?m2 None" using pool i by (auto simp: pool_ok_def m1 nth_list_update)
    moreover have "queue_line ?m2 = queue_line m1" by (simp add: queue_line_def)
    moreover have "active_line ?m2 = []" "active_line m = []" using i(1) None by (simp_all add: active_line_def m1)
    ultimately show ?thesis using lines by (simp add: m1) (simp add: m1_def)
  next
    case (Some a)
    then have "worker_flushed i m = m1" by (simp add: worker_flushed_def Let_def m1_def)
    then show ?thesis using pool lines by (simp add: m1) (simp add: m1_def)
  qed
qed

lemma inv_flushed:
  assumes inv: "update_inv h r" and w: "ur_worker r = Retiring i []"
  shows "update_inv h (r\<lparr>ur_manager := worker_flushed i (ur_manager r), ur_worker := FlushIdle\<rparr>)" (is "update_inv h ?r'")
proof -
  let ?m = "ur_manager r"
  have ok: "pool_ok ?m (Some i)" "line_ok r" "um_running_flushes ?m = 1" "batches_ok ?m (ur_submitted r)"
    using inv w by (simp_all add: update_inv_def)
  note f = worker_flushed_pool [OF ok(1)]
  have "line_ok ?r'" using ok(2) by (elim line_ok_same) (simp_all add: line_def w f)
  moreover have "batches_ok (worker_flushed i ?m) (ur_submitted r)"
    unfolding batches_ok_def
  proof (intro allI impI)
    fix j assume "j < length (recs (worker_flushed i ?m))"
    then show "set (recs (worker_flushed i ?m) ! j) \<subseteq> set (ur_submitted r) \<and>
      (\<forall>u \<in> set (recs (worker_flushed i ?m) ! j). \<forall>u' \<in> set (ur_submitted r). commit_of u' = commit_of u \<longrightarrow>
        u' \<in> set (recs (worker_flushed i ?m) ! j))"
      using ok(4) by (cases "j = i") (auto simp: f batches_ok_def)
  qed
  ultimately show ?thesis
    using inv f ok(3) visible_pending [of "worker_flushed i ?m" ?m] by (simp add: update_inv_def table_ok_def)
qed

lemma inv_failed:
  assumes inv: "update_inv h r" and w: "ur_worker r = DeliveryFailed i e"
  shows "update_inv h (r\<lparr>ur_manager := worker_failed i e (ur_manager r), ur_worker := FlushIdle\<rparr>)" (is "update_inv h ?r'")
proof -
  let ?m = "ur_manager r" and ?m' = "worker_failed i e (ur_manager r)"
  have ok: "pool_ok ?m (Some i)" "line_ok r" "um_running_flushes ?m = 1" using inv w by (simp_all add: update_inv_def)
  have same: "recs ?m' = recs ?m" "states ?m' = (states ?m)[i := kFailed]" "um_pending ?m' = um_pending ?m"
    "um_queued_buffers ?m' = um_queued_buffers ?m" "um_active_buffer ?m' = um_active_buffer ?m"
    "um_next_commit_sequence ?m' = um_next_commit_sequence ?m" "um_running_flushes ?m' = um_running_flushes ?m - 1"
    by (simp_all add: worker_failed_def Let_def)
  have "pool_ok ?m' None" using ok(1) by (auto simp: pool_ok_def same nth_list_update)
  moreover have "line_ok ?r'" using ok(2)
    by (elim line_ok_same) (simp_all add: line_def w queue_line_def active_line_def same cong: option.case_cong)
  ultimately have "update_inv h (r\<lparr>ur_manager := ?m', ur_worker := FlushIdle, ur_disturbed := ur_disturbed r\<rparr>)"
    using ok(3) by (intro inv_frame [OF inv]) (simp_all add: same)
  then show ?thesis by simp
qed

subsection \<open>Every step\<close>

lemma inv_woken:
  assumes inv: "update_inv h r"
  shows "update_inv h (r\<lparr>ur_manager := activate_free (ur_manager r), ur_disturbed := True\<rparr>)" (is "update_inv h ?r'")
proof -
  let ?m = "ur_manager r"
  have ok: "pool_ok ?m (worker_index (ur_worker r))" "line_ok r" using inv by (simp_all add: update_inv_def)
  let ?front = "ur_delivered r @ worker_line (ur_worker r) @ queue_line ?m"
  have "\<exists>b c. line r = ?front @ b @ c \<and> line ?r' = ?front @ c"
  proof (cases "active_line (activate_free ?m) = active_line ?m")
    case True
    then show ?thesis using line_activate(1) [OF ok(1)] by (simp add: line_def)
  next
    case False
    then have "active_line (activate_free ?m) = []" using line_activate(2) [OF ok(1)] by blast
    then show ?thesis using line_activate(1) [OF ok(1)] by (simp add: line_def)
  qed
  then obtain b c where "line r = ?front @ b @ c" "line ?r' = ?front @ c" by blast
  then have "line_ok ?r'" by (rule line_ok_drop [OF ok(2)]) simp_all
  then have "update_inv h (r\<lparr>ur_manager := activate_free ?m, ur_worker := ur_worker r, ur_disturbed := True\<rparr>)"
    using inv pool_ok_activate [OF ok(1)] worker_ok_recs [of "ur_worker r" "activate_free ?m" ?m]
    by (intro inv_frame [OF inv]) (simp_all add: update_inv_def)
  then show ?thesis by simp
qed

lemma submits_resume:
  assumes "pool_ok m w"
  shows "submits h w (activate_free m) us (resume h stage m us bytes)"
  using submits_first [OF pool_ok_activate [OF assms], of h us bytes] submits_second [OF pool_ok_activate [OF assms], of h us bytes]
  by (simp add: resume_def)

lemma flush_end_pool:
  assumes "pool_ok m w"
  shows "pool_ok (fst (flush_end m)) w \<and> recs (fst (flush_end m)) = recs m \<and> um_pending (fst (flush_end m)) = um_pending m \<and>
    um_next_commit_sequence (fst (flush_end m)) = um_next_commit_sequence m \<and>
    um_running_flushes (fst (flush_end m)) = um_running_flushes m \<and>
    queue_line (fst (flush_end m)) = queue_line m \<and> active_line (fst (flush_end m)) = active_line m"
proof (cases "um_fatal_error m = [] \<and> um_active_buffer m = None")
  case True
  then have "fst (flush_end m) = activate_free m" "active_line m = []" by (simp_all add: flush_end_def active_line_def)
  with True show ?thesis using pool_ok_activate [OF assms] line_activate(1,3) [OF assms] by simp
next
  case False
  then have "fst (flush_end m) = m" by (auto simp: flush_end_def)
  with assms show ?thesis by simp
qed

lemma flush_begin_pool:
  assumes "pool_ok m w"
  shows "pool_ok (fst (flush_begin m)) w \<and> recs (fst (flush_begin m)) = recs m \<and> um_pending (fst (flush_begin m)) = um_pending m \<and>
    um_next_commit_sequence (fst (flush_begin m)) = um_next_commit_sequence m \<and>
    um_running_flushes (fst (flush_begin m)) = um_running_flushes m \<and>
    queue_line (fst (flush_begin m)) @ active_line (fst (flush_begin m)) = queue_line m @ active_line m"
  using assms pool_ok_queue [OF assms] line_queue [OF assms] by (simp add: flush_begin_def)

lemma inv_step:
  assumes inv: "update_inv h r" and step: "update_step h sz r r'"
  shows "update_inv h r'"
proof -
  let ?m = "ur_manager r"
  have ok: "pool_ok ?m (worker_index (ur_worker r))" using inv by (simp add: update_inv_def)
  note frame = inv_frame_manager [OF inv]
  from step show ?thesis
  proof cases
    case (submit updates bytes res m')
    then show ?thesis using inv_submits [OF inv submit(2)] submits_batch [OF ok, of h updates sz] by simp
  next
    case (wake ws stage updates bytes ws' m' res)
    let ?w = "r\<lparr>ur_manager := activate_free ?m, ur_disturbed := True\<rparr>"
    have "submits h (worker_index (ur_worker r)) (activate_free ?m) updates (m', res)"
      using submits_resume [OF ok, of h updates stage bytes] wake(4) by simp
    then have "update_inv h (?w\<lparr>ur_manager := m', ur_submitted := ur_submitted ?w @ accepted res updates,
        ur_waiting := ws @ ws' @ blocked res updates bytes\<rparr>)"
      by (intro inv_submits inv_woken inv) (use wake(2) in simp_all)
    moreover have "r' = ?w\<lparr>ur_manager := m', ur_submitted := ur_submitted ?w @ accepted res updates,
        ur_waiting := ws @ ws' @ blocked res updates bytes\<rparr>" unfolding wake(1) by simp
    ultimately show ?thesis by (simp only:)
  next
    case (take_buffer m' i gs)
    then show ?thesis using inv_take [OF inv] by simp
  next
    case (deliver t g i gs)
    then show ?thesis using inv_deliver [OF inv] by simp
  next
    case (deliver_failed i t g gs e)
    then show ?thesis using inv_deliver_failed [OF inv] by simp
  next
    case (delivered i)
    moreover have "i < length (recs ?m)" using ok delivered by (simp add: pool_ok_def)
    ultimately show ?thesis using inv by (simp add: update_inv_def line_ok_def line_def buffer_views)
  next
    case (retire u i us)
    then show ?thesis using inv_retire [OF inv] by simp
  next
    case (flushed i)
    then show ?thesis using inv_flushed [OF inv] by simp
  next
    case (failed i e)
    then show ?thesis using inv_failed [OF inv] by simp
  next
    case flush_request
    then show ?thesis using frame [of "fst (flush_begin ?m)"] flush_begin_pool [OF ok] by simp
  next
    case flush_return
    then show ?thesis using frame [of "fst (flush_end ?m)"] flush_end_pool [OF ok] by simp
  next
    case stop
    then show ?thesis using frame [of "StopWorker ?m"] ok by (simp add: StopWorker_def pool_ok_def)
  next
    case (fatal e)
    then show ?thesis using frame [of "SetFatalError e ?m"] ok by (simp add: SetFatalError_def pool_ok_def)
  qed
qed

lemma new_manager:
  assumes "PropertyUpdateManager_new opts cb init = Inr m"
  shows "pool_ok m None \<and> table_ok m \<and> um_running_flushes m = 0 \<and> um_queued_buffers m = [] \<and>
    (\<forall>k. pending_find h m k = None) \<and> active_line m = [] \<and> (\<forall>i < length (recs m). recs m ! i = []) \<and>
    um_pending m = replicate kPendingBucketCount []"
proof -
  have two: "2 \<le> unat (buffer_count opts)" and m: "um_buffers m =
      (replicate (unat (buffer_count opts)) \<lparr>b_state = kFree, b_records = [], b_bytes = 0\<rparr>)
        [0 := \<lparr>b_state = kActive, b_records = [], b_bytes = 0\<rparr>]" "um_active_buffer m = Some 0" "um_queued_buffers m = []"
      "um_pending m = replicate kPendingBucketCount []" "um_running_flushes m = 0"
    using assms by (auto simp: PropertyUpdateManager_new_def Let_def word_le_nat_alt not_less split: if_splits)
  have "recs m = replicate (unat (buffer_count opts)) []"
    unfolding recs_def m(1) by (rule nth_equalityI) (auto simp: nth_list_update)
  moreover have "states m = (replicate (unat (buffer_count opts)) kFree)[0 := kActive]"
    by (simp add: states_def m(1) map_update)
  moreover have "pending_find h m k = None" for k
    by (simp add: pending_find_def m(4) PendingBucketIndex_def kPendingBucketCount_def)
  ultimately show ?thesis using two m by (auto simp: pool_ok_def table_ok_def active_line_def)
qed

lemma inv_start:
  assumes "PropertyUpdateManager_new opts cb init = Inr m"
  shows "update_inv h (update_start m)"
  using new_manager [OF assms, of h]
  by (simp add: update_inv_def update_start_def line_ok_def line_def queue_line_def batches_ok_def pending.visible_def)

lemma inv_reachable:
  assumes "PropertyUpdateManager_new opts cb init = Inr m" "update_reaches h sz m r"
  shows "update_inv h r"
  using assms(2) unfolding update_reaches_def
  by (induction rule: rtranclp_induct) (blast intro: inv_start [OF assms(1)] inv_step)+

end

