(* ===== verification/UpdateProps.thy ===== *)
theory UpdateProps
  imports UpdateInv
begin

text \<open>
  What the update manager promises its clients: readers find the newest submitted value, the delta store
  gets the records of a target in commit order, a flush request returns when everything submitted before
  it was delivered, and snapshots agree with point lookups. A run in which a blocked thread wakes late
  shows where the promise of a flush request fails.
\<close>

section \<open>Definitions\<close>

text \<open>An executable scheduler for concrete runs.\<close>

datatype update_command =
  DoSubmit "BufferedPropertyUpdate list" | DoWake | DoTake | DoDeliver | DoRetire | DoFlushed | DoRequest | DoReturn

fun update_exec :: "std_hash \<Rightarrow> u64 \<Rightarrow> update_command \<Rightarrow> update_run \<Rightarrow> update_run option" where
  "update_exec h sz (DoSubmit us) r =
     (case (SubmitBatch h sz (ur_manager r) us, batch_bytes sz (buffer_capacity_bytes (um_options (ur_manager r))) 0 us) of
        ((m', res), Some bytes) \<Rightarrow>
          if um_next_commit_sequence (ur_manager r) < 0xFFFFFFFFFFFFFFFF
          then Some (r\<lparr>ur_manager := m', ur_submitted := ur_submitted r @ accepted res us,
                       ur_waiting := ur_waiting r @ blocked res us bytes\<rparr>) else None
      | _ \<Rightarrow> None)"
| "update_exec h sz DoWake r =
     (case ur_waiting r of
        [] \<Rightarrow> None
      | (stage, us, bytes) # ws \<Rightarrow>
          if um_next_commit_sequence (ur_manager r) < 0xFFFFFFFFFFFFFFFF
          then (case resume h stage (ur_manager r) us bytes of (m', res) \<Rightarrow>
                  Some (r\<lparr>ur_manager := m', ur_submitted := ur_submitted r @ accepted res us,
                          ur_waiting := ws @ blocked res us bytes, ur_disturbed := True\<rparr>)) else None)"
| "update_exec h sz DoTake r =
     (if ur_worker r \<noteq> FlushIdle then None
      else case worker_take (ur_manager r) of
        None \<Rightarrow> None
      | Some (i, m') \<Rightarrow> Some (r\<lparr>ur_manager := m',
          ur_worker := Delivering i (flush_groups (b_records (um_buffers (ur_manager r) ! i)))\<rparr>))"
| "update_exec h sz DoDeliver r =
     (case ur_worker r of
        Delivering i ((t, g) # gs) \<Rightarrow> Some (r\<lparr>ur_manager := (ur_manager r)\<lparr>um_stats := (um_stats (ur_manager r))
           \<lparr>st_delta_batches_published := st_delta_batches_published (um_stats (ur_manager r)) + 1\<rparr>\<rparr>,
           ur_delivered := ur_delivered r @ group_entries [(t, g)], ur_worker := Delivering i gs\<rparr>)
      | Delivering i [] \<Rightarrow> Some (r\<lparr>ur_worker := Retiring i (b_records (um_buffers (ur_manager r) ! i))\<rparr>)
      | _ \<Rightarrow> None)"
| "update_exec h sz DoRetire r =
     (case ur_worker r of
        Retiring i (u # us) \<Rightarrow> Some (r\<lparr>ur_manager := RetireOne h u (ur_manager r), ur_worker := Retiring i us\<rparr>)
      | _ \<Rightarrow> None)"
| "update_exec h sz DoFlushed r =
     (case ur_worker r of
        Retiring i [] \<Rightarrow> Some (r\<lparr>ur_manager := worker_flushed i (ur_manager r), ur_worker := FlushIdle\<rparr>)
      | _ \<Rightarrow> None)"
| "update_exec h sz DoRequest r = Some (r\<lparr>ur_manager := fst (flush_begin (ur_manager r))\<rparr>)"
| "update_exec h sz DoReturn r =
     (if flush_ready (ur_manager r) then Some (r\<lparr>ur_manager := fst (flush_end (ur_manager r))\<rparr>) else None)"

fun update_execs :: "std_hash \<Rightarrow> u64 \<Rightarrow> update_command list \<Rightarrow> update_run \<Rightarrow> update_run option" where
  "update_execs h sz [] r = Some r"
| "update_execs h sz (c # cs) r = (case update_exec h sz c r of None \<Rightarrow> None | Some r' \<Rightarrow> update_execs h sz cs r')"

lemma commits_left: "c < 0xFFFFFFFFFFFFFFFF \<Longrightarrow> unat c + 1 < 2 ^ 64" for c :: u64
  by (simp add: word_less_nat_alt)

lemma update_exec_step: "update_exec h sz c r = Some r' \<Longrightarrow> update_step h sz r r'"
proof (cases c)
  case DoWake
  assume run: "update_exec h sz c r = Some r'"
  then obtain stage us bytes ws m' res where "ur_waiting r = [] @ (stage, us, bytes) # ws"
      "unat (um_next_commit_sequence (ur_manager r)) + 1 < 2 ^ 64" "resume h stage (ur_manager r) us bytes = (m', res)"
      and r': "r' = r\<lparr>ur_manager := m', ur_submitted := ur_submitted r @ accepted res us,
                      ur_waiting := [] @ ws @ blocked res us bytes, ur_disturbed := True\<rparr>"
    using DoWake by (auto split: list.splits prod.splits if_splits dest: commits_left)
  then show ?thesis unfolding r' by (intro update_step.wake)
qed (auto split: list.splits prod.splits if_splits option.splits flush_worker.splits intro: update_step.intros dest!: commits_left)

lemma update_execs_reach: "update_execs h sz cs r = Some r' \<Longrightarrow> (update_step h sz)\<^sup>*\<^sup>* r r'"
proof (induction cs arbitrary: r)
  case (Cons c cs)
  then obtain r1 where "update_exec h sz c r = Some r1" "update_execs h sz cs r1 = Some r'" by (auto split: option.splits)
  then show ?case using Cons.IH update_exec_step by (meson converse_rtranclp_into_rtranclp)
qed simp

section \<open>Readers and the order of delivery\<close>

text \<open>C4. In every reachable state of the update manager, for every key: a lookup that finds a value returns
  the one submitted last for the key with its commit sequence; one that finds none implies that the last
  value submitted for it has been handed to the delta store, where the reader finds it next.\<close>

theorem update_readers_current:
  assumes "PropertyUpdateManager_new opts cb init = Inr m" "update_reaches h sz m r"
  shows "case LookupLatest h (ur_manager r) k of
      Some (v, c) \<Rightarrow> \<exists>u. last_sub k (ur_submitted r) = Some u \<and> v = r_value (bu_record u) \<and> c = commit_of u
    | None \<Rightarrow> \<forall>u. last_sub k (ur_submitted r) = Some u \<longrightarrow> entry u \<in> set (ur_delivered r)"
proof -
  have "pending.visible h (ur_manager r) (ur_submitted r) (set (ur_delivered r))"
    using inv_reachable [OF assms] by (simp add: update_inv_def)
  then have "case pending_find h (ur_manager r) k of
      Some v \<Rightarrow> \<exists>u. last_sub k (ur_submitted r) = Some u \<and> v = pending_of u
    | None \<Rightarrow> \<forall>u. last_sub k (ur_submitted r) = Some u \<longrightarrow> entry u \<in> set (ur_delivered r)"
    unfolding pending.visible_def by blast
  then show ?thesis by (auto simp: LookupLatest_def pending_of_def split: option.splits)
qed

text \<open>C6. Whatever the interleaving, the records the delta store has been given for a target are in the order
  of their commit sequences, and every one was submitted, none twice: what the delta store requires of its
  callers for its chains to resolve to the last commit.\<close>

theorem updates_delivered_in_order:
  assumes "PropertyUpdateManager_new opts cb init = Inr m" "update_reaches h sz m r"
  shows "sorted (map r_commit_sequence (on_target t (ur_delivered r))) \<and>
    commit_ordered (on_target t (ur_delivered r)) \<and>
    mset (ur_delivered r) \<subseteq># mset (map entry (ur_submitted r))"
proof -
  have ok: "line_ok r" using inv_reachable [OF assms] by (simp add: update_inv_def)
  then have "sorted (map r_commit_sequence (on_target t (line r)))" unfolding line_ok_def by blast
  then have s: "sorted (map r_commit_sequence (on_target t (ur_delivered r)))" by (simp add: line_def sorted_append)
  then have "commit_ordered (on_target t (ur_delivered r))"
    unfolding commit_ordered_def sorted_map by (rule sorted_wrt_mono_rel [rotated]) simp
  moreover have "mset (ur_delivered r) \<subseteq># mset (line r)" by (simp add: line_def)
  then have "mset (ur_delivered r) \<subseteq># mset (map entry (ur_submitted r))"
    using ok unfolding line_ok_def by (blast intro: subset_mset.order_trans)
  ultimately show ?thesis using s by blast
qed

section \<open>Flush requests\<close>

definition young :: "PropertyCommitSequence \<Rightarrow> update_run \<Rightarrow> bool" where
  "young n r \<longleftrightarrow> n \<le> um_next_commit_sequence (ur_manager r) \<and>
     (\<forall>e \<in> set (active_line (ur_manager r)). n \<le> r_commit_sequence (snd e))"

lemma young_frame:
  "young n r \<Longrightarrow> um_next_commit_sequence (ur_manager r') = um_next_commit_sequence (ur_manager r) \<Longrightarrow>
   set (active_line (ur_manager r')) \<subseteq> set (active_line (ur_manager r)) \<Longrightarrow> young n r'"
  by (auto simp: young_def)

lemma young_step:
  assumes step: "update_step h sz r r'" and inv: "update_inv h r" and young: "young n r" and calm: "\<not> ur_disturbed r'"
  shows "young n r'"
proof -
  let ?m = "ur_manager r"
  have ok: "pool_ok ?m (worker_index (ur_worker r))" using inv by (simp add: update_inv_def)
  note frame = young_frame [OF young]
  from step show ?thesis
  proof cases
    case (submit updates bytes res m')
    have sub: "submits h (worker_index (ur_worker r)) ?m updates (m', res)"
      using submits_batch [OF ok, of h updates sz] submit(4) by simp
    have active: "set (active_line m') \<subseteq> set (active_line ?m) \<union> set (map entry (accepted res updates))"
      using sub by (simp add: submits_def)
    show ?thesis
    proof (cases "\<exists>c. res = Submitted c")
      case True
      then have c: "res = Submitted (um_next_commit_sequence ?m)" "um_next_commit_sequence m' = um_next_commit_sequence ?m + 1"
        using sub by (auto simp: submits_def)
      then have "n \<le> um_next_commit_sequence m'"
        using young next_less [OF submit(2)] by (auto simp: young_def)
      moreover have "\<forall>e \<in> set (map entry (accepted res updates)). r_commit_sequence (snd e) = um_next_commit_sequence ?m"
        by (auto simp: accepted_def c(1) stamp_def entry_def)
      ultimately show ?thesis using young active by (fastforce simp: young_def submit(1))
    next
      case False
      then have "um_next_commit_sequence m' = um_next_commit_sequence ?m" "accepted res updates = []"
        using sub by (auto simp: submits_def accepted_def split: submit_result.splits)
      then show ?thesis using active by (intro frame) (simp_all add: submit(1))
    qed
  next
    case (take_buffer m' i gs)
    then show ?thesis
      by (intro frame) (auto simp: worker_take_def active_line_def split: list.splits cong: option.case_cong)
  next
    case (retire u i us)
    then show ?thesis by (intro frame) (simp_all add: RetireOne_def Let_def split: option.splits)
  next
    case (flushed i)
    then show ?thesis using worker_flushed_pool [of ?m i] ok by (intro frame) simp_all
  next
    case (failed i e)
    then show ?thesis by (intro frame) (auto simp: worker_failed_def Let_def active_line_def cong: option.case_cong)
  next
    case flush_request
    then show ?thesis using line_queue [OF ok] by (intro frame) (auto simp: flush_begin_def)
  next
    case flush_return
    then show ?thesis using flush_end_pool [OF ok] by (intro frame) simp_all
  qed (use calm in \<open>auto intro!: frame simp: StopWorker_def SetFatalError_def\<close>)
qed

lemma disturbed_step: "update_step h sz r r' \<Longrightarrow> ur_disturbed r \<Longrightarrow> ur_disturbed r'"
  by (cases rule: update_step.cases) auto

lemma submitted_step: "update_step h sz r r' \<Longrightarrow> set (ur_submitted r) \<subseteq> set (ur_submitted r')"
  by (cases rule: update_step.cases) auto

lemma young_run:
  assumes "(update_step h sz)\<^sup>*\<^sup>* r r'" "update_inv h r" "young n r" "\<not> ur_disturbed r'"
  shows "young n r' \<and> update_inv h r' \<and> set (ur_submitted r) \<subseteq> set (ur_submitted r')"
  using assms
proof (induction rule: rtranclp_induct)
  case (step y z)
  then have "\<not> ur_disturbed y" using disturbed_step by blast
  with step have y: "young n y" "update_inv h y" "set (ur_submitted r) \<subseteq> set (ur_submitted y)" by simp_all
  then show ?case
    using young_step [OF step.hyps(2) y(2,1)] inv_step [OF y(2) step.hyps(2)] submitted_step [OF step.hyps(2)] step.prems
    by blast
qed simp

lemma drained:
  assumes inv: "update_inv h r" and idle: "um_queued_buffers (ur_manager r) = []" "um_running_flushes (ur_manager r) = 0"
    and calm: "\<not> ur_disturbed r" and young: "young n r" and u: "u \<in> set (ur_submitted r)" "commit_of u < n"
  shows "entry u \<in> set (ur_delivered r)"
proof -
  have "ur_worker r = FlushIdle" using inv idle(2) by (simp add: update_inv_def split: if_splits)
  then have "line r = ur_delivered r @ active_line (ur_manager r)" by (simp add: line_def queue_line_def idle(1))
  moreover have "set (line r) = entry ` set (ur_submitted r)"
    using inv calm mset_eq_setD [of "line r" "map entry (ur_submitted r)"] by (simp add: update_inv_def line_ok_def)
  ultimately have "entry u \<in> set (ur_delivered r) \<union> set (active_line (ur_manager r))" using u(1) by auto
  moreover have "entry u \<notin> set (active_line (ur_manager r))" using young u(2) by (fastforce simp: young_def entry_def)
  ultimately show ?thesis by blast
qed


section \<open>Concrete runs\<close>

text \<open>A hash function under which all keys collide.\<close>

definition sample_hash :: std_hash where
  "sample_hash = \<lparr>hash_u8 = (\<lambda>_. 0x61C8864680B583EB), hash_u32 = (\<lambda>_. 0x61C8864680B583EB),
     hash_u64 = (\<lambda>_. 0x61C8864680B583EB), hash_bool = (\<lambda>_. 0x61C8864680B583EB)\<rparr>"

definition sample_update_options :: PropertyUpdateOptions where
  "sample_update_options = \<lparr>enabled = True, buffer_capacity_records = 8, buffer_capacity_bytes = 124, buffer_count = 2,
     delta_chain_merge_threshold = 4, update_durability = kProcessCrashSafe\<rparr>"

definition sample_update :: "VertexId_t \<Rightarrow> string \<Rightarrow> BufferedPropertyUpdate" where
  "sample_update dst v =
     \<lparr>bu_target = \<lparr>t_kind = kEdge, t_shard_id = 0, t_base_file_id = 12, t_base_generation = 1, t_property_id = 0\<rparr>,
      bu_record = \<lparr>r_src = 1, r_dst = dst, r_base_sequence = 5, r_commit_sequence = 0, r_is_out = True, r_edge_type = 0,
        r_value = v\<rparr>,
      bu_target_is_persistent = True\<rparr>"

definition sample_manager :: PropertyUpdateManager where
  "sample_manager = (case PropertyUpdateManager_new sample_update_options True 1 of Inr m \<Rightarrow> m)"

definition flush_one :: "update_command list" where
  "flush_one = [DoTake, DoDeliver, DoDeliver, DoRetire, DoFlushed]"

definition sample_updates :: "update_command list" where
  "sample_updates = [DoSubmit [sample_update 4 ''old'', sample_update 5 ''e''], DoSubmit [sample_update 4 ''new'']]"

lemma sample_manager_new: "PropertyUpdateManager_new sample_update_options True 1 = Inr sample_manager"
  by (simp add: sample_manager_def PropertyUpdateManager_new_def sample_update_options_def)

lemma reaches_execs: "update_execs h sz cs (update_start m) = Some r \<Longrightarrow> update_reaches h sz m r"
  unfolding update_reaches_def by (rule update_execs_reach)

lemma execs_SomeI: "case update_execs h sz cs r of None \<Rightarrow> False | Some r' \<Rightarrow> P r' \<Longrightarrow>
    \<exists>r'. update_execs h sz cs r = Some r' \<and> P r'"
  by (simp split: option.splits)

lemma update_execs_append:
  "update_execs h sz (cs @ cs') r = (case update_execs h sz cs r of None \<Rightarrow> None | Some r' \<Rightarrow> update_execs h sz cs' r')"
  by (induction cs arbitrary: r) (simp_all split: option.splits)

lemma update_execs_request:
  "update_execs h sz cs r0 = Some r \<Longrightarrow> update_execs h sz (cs @ DoRequest # cs') r0 = Some r' \<Longrightarrow>
   update_execs h sz cs' (r\<lparr>ur_manager := fst (flush_begin (ur_manager r))\<rparr>) = Some r'"
  by (simp add: update_execs_append)

declare update_execs.simps [simp del] update_exec.simps [simp del]

lemma sample_updates_run:
  "\<exists>r. update_execs sample_hash 30 sample_updates (update_start sample_manager) = Some r \<and>
     LookupLatest sample_hash (ur_manager r) (MakePendingKey (sample_update 4 [])) = Some (''new'', 2) \<and>
     ur_submitted r = [stamp 1 (sample_update 4 ''old''), stamp 1 (sample_update 5 ''e''), stamp 2 (sample_update 4 ''new'')] \<and>
     snd (flush_begin (ur_manager r)) = None"
  by (rule execs_SomeI) code_simp

lemma sample_flush_run:
  "\<exists>r. update_execs sample_hash 30 (sample_updates @ [DoRequest, DoTake, DoDeliver, DoDeliver, DoRetire, DoRetire, DoRetire, DoFlushed])
         (update_start sample_manager) = Some r \<and>
     ur_delivered r = map entry [stamp 1 (sample_update 4 ''old''), stamp 1 (sample_update 5 ''e''), stamp 2 (sample_update 4 ''new'')] \<and>
     flush_ready (ur_manager r) \<and> snd (flush_end (ur_manager r)) = None \<and> \<not> ur_disturbed r"
  by (rule execs_SomeI) code_simp

lemma sample_lookup_exact:
  "case update_execs sample_hash 30 sample_updates (update_start sample_manager) of None \<Rightarrow> False
   | Some r \<Rightarrow> LookupExact sample_hash (ur_manager r) (MakePendingKey (sample_update 4 [])) 5 = Some (''new'', 2)"
  by code_simp

theorem update_readers_current_witness:
  "\<exists>r. update_reaches sample_hash 30 sample_manager r \<and> length (ur_submitted r) = 3 \<and>
     (\<exists>u. last_sub (MakePendingKey (sample_update 4 [])) (ur_submitted r) = Some u \<and> r_value (bu_record u) = ''new'')"
proof -
  obtain r where run: "update_execs sample_hash 30 sample_updates (update_start sample_manager) = Some r" and
      look: "LookupLatest sample_hash (ur_manager r) (MakePendingKey (sample_update 4 [])) = Some (''new'', 2)" and
      len: "length (ur_submitted r) = 3"
    using sample_updates_run by auto
  note r = reaches_execs [OF run]
  from update_readers_current [OF sample_manager_new r, of "MakePendingKey (sample_update 4 [])"] look
  have "\<exists>u. last_sub (MakePendingKey (sample_update 4 [])) (ur_submitted r) = Some u \<and> ''new'' = r_value (bu_record u)" by auto
  with r len show ?thesis by auto
qed

theorem updates_delivered_in_order_witness:
  "\<exists>r. update_reaches sample_hash 30 sample_manager r \<and> length (ur_delivered r) = 3 \<and>
     sorted (map r_commit_sequence (on_target (bu_target (sample_update 4 [])) (ur_delivered r)))"
proof -
  obtain cs r where run: "update_execs sample_hash 30 cs (update_start sample_manager) = Some r" and "length (ur_delivered r) = 3"
    using sample_flush_run by auto
  with updates_delivered_in_order [OF sample_manager_new reaches_execs [OF run]] reaches_execs [OF run] show ?thesis by blast
qed


section \<open>A flush request that misses an update\<close>

text \<open>Two buffers are queued and a thread is blocked. The worker frees the first buffer and makes it active, another
  thread puts a record there, and the worker frees the second one before the blocked thread has the mutex.\<close>

definition late_wake :: "update_command list" where
  "late_wake = [DoSubmit [sample_update 1 ''aaaa''], DoSubmit [sample_update 2 ''bbbb''], DoSubmit [sample_update 3 ''c'']] @
     flush_one @ [DoSubmit [sample_update 4 ''d'']] @ flush_one @ [DoWake]"

lemma late_wake_run:
  "\<exists>r. update_execs sample_hash 120 late_wake (update_start sample_manager) = Some r \<and>
     stamp 3 (sample_update 4 ''d'') \<in> set (ur_submitted r) \<and> snd (flush_begin (ur_manager r)) = None"
  by (rule execs_SomeI) code_simp

lemma late_wake_flush_run:
  "\<exists>r. update_execs sample_hash 120 (late_wake @ DoRequest # flush_one) (update_start sample_manager) = Some r \<and>
     entry (stamp 3 (sample_update 4 ''d'')) \<notin> set (ur_delivered r) \<and> flush_ready (ur_manager r) \<and>
     snd (flush_end (ur_manager r)) = None \<and> um_queued_buffers (ur_manager r) = [] \<and> um_active_buffer (ur_manager r) = Some 1 \<and>
     b_records (um_buffers (ur_manager r) ! 0) = [stamp 3 (sample_update 4 ''d'')]"
  by (rule execs_SomeI) code_simp

text \<open>C20. A thread that wakes up in \<^verbatim>\<open>EnsureActiveBuffer\<close> makes a free buffer active even when another one has
  become active meanwhile. There is a run in which an acknowledged update is in the buffer that loses its
  place: a flush request made afterwards returns with success and the update has not been delivered, its
  buffer being neither queued nor active any more.\<close>

theorem flush_request_misses_update:
  "\<exists>opts m h sz r r' u. PropertyUpdateManager_new opts True 1 = Inr m \<and> update_reaches h sz m r \<and>
     u \<in> set (ur_submitted r) \<and> snd (flush_begin (ur_manager r)) = None \<and>
     (update_step h sz)\<^sup>*\<^sup>* (r\<lparr>ur_manager := fst (flush_begin (ur_manager r))\<rparr>) r' \<and>
     flush_ready (ur_manager r') \<and> snd (flush_end (ur_manager r')) = None \<and> entry u \<notin> set (ur_delivered r') \<and>
     um_queued_buffers (ur_manager r') = [] \<and> um_active_buffer (ur_manager r') = Some 1 \<and>
     b_records (um_buffers (ur_manager r') ! 0) = [u]"
proof -
  obtain r where r: "update_execs sample_hash 120 late_wake (update_start sample_manager) = Some r"
      "stamp 3 (sample_update 4 ''d'') \<in> set (ur_submitted r)" "snd (flush_begin (ur_manager r)) = None"
    using late_wake_run by auto
  obtain r' where r': "update_execs sample_hash 120 (late_wake @ DoRequest # flush_one) (update_start sample_manager) = Some r'"
      "entry (stamp 3 (sample_update 4 ''d'')) \<notin> set (ur_delivered r')" "flush_ready (ur_manager r')"
      "snd (flush_end (ur_manager r')) = None" "um_queued_buffers (ur_manager r') = []" "um_active_buffer (ur_manager r') = Some 1"
      "b_records (um_buffers (ur_manager r') ! 0) = [stamp 3 (sample_update 4 ''d'')]"
    using late_wake_flush_run by auto
  have "update_execs sample_hash 120 flush_one (r\<lparr>ur_manager := fst (flush_begin (ur_manager r))\<rparr>) = Some r'"
    using update_execs_request [OF r(1) r'(1)] .
  note run = update_execs_reach [OF this]
  show ?thesis
    by (rule exI [of _ sample_update_options], rule exI [of _ sample_manager], rule exI [of _ sample_hash], rule exI [of _ 120],
        rule exI [of _ r], rule exI [of _ r'], rule exI [of _ "stamp 3 (sample_update 4 ''d'')"])
      (intro conjI sample_manager_new reaches_execs [OF r(1)] run r r')
qed

section \<open>Snapshots\<close>

text \<open>Every key is in the bucket its hash selects, once.\<close>

definition placed :: "std_hash \<Rightarrow> (PendingKey \<times> PendingValue) list list \<Rightarrow> bool" where
  "placed h p \<longleftrightarrow> (\<forall>i < length p. distinct (map fst (p ! i)) \<and> (\<forall>k \<in> fst ` set (p ! i). PendingBucketIndex h k = i))"

lemma placed_update:
  "placed h p \<Longrightarrow> distinct (map fst b) \<Longrightarrow> \<forall>k \<in> fst ` set b. PendingBucketIndex h k = i \<Longrightarrow> placed h (p[i := b])"
  unfolding placed_def by (metis length_list_update nth_list_update_eq nth_list_update_neq)

lemma placed_publish:
  assumes "table_ok m" "placed h (um_pending m)"
  shows "placed h (um_pending (PublishPending h u m))"
proof -
  let ?k = "MakePendingKey u"
  have "PendingBucketIndex h ?k < length (um_pending m)" by (rule bucket_bound [OF assms(1)])
  then have "placed h ((um_pending m)[PendingBucketIndex h ?k := AList.update ?k v (um_pending m ! PendingBucketIndex h ?k)])" for v
    using assms(2) by (intro placed_update) (auto simp: placed_def distinct_update dom_update)
  then show ?thesis by (simp add: PublishPending_def Let_def)
qed

lemma placed_retire:
  assumes "table_ok m" "placed h (um_pending m)"
  shows "placed h (um_pending (RetireOne h u m))"
proof -
  let ?k = "MakePendingKey u"
  have "PendingBucketIndex h ?k < length (um_pending m)" by (rule bucket_bound [OF assms(1)])
  then have "placed h ((um_pending m)[PendingBucketIndex h ?k := AList.delete ?k (um_pending m ! PendingBucketIndex h ?k)])"
    using assms(2) by (intro placed_update) (auto simp: placed_def delete_keys distinct_removeAll simp flip: set_map)
  then show ?thesis using assms(2) by (simp add: RetireOne_def Let_def split: option.splits)
qed

lemma placed_publish_all:
  "table_ok m \<Longrightarrow> placed h (um_pending m) \<Longrightarrow> placed h (um_pending (foldl (\<lambda>m u. PublishPending h u m) m us))"
  by (induction us arbitrary: m) (simp_all add: placed_publish pending.wf_publish)

lemma placed_submits:
  assumes "submits h w m us (m', res)" "table_ok m" "placed h (um_pending m)"
  shows "placed h (um_pending m')"
  using assms placed_publish_all [OF assms(2,3)] by (cases res) (auto simp: submits_def)

lemma placed_step:
  assumes step: "update_step h sz r r'" and inv: "update_inv h r" and old: "placed h (um_pending (ur_manager r))"
  shows "placed h (um_pending (ur_manager r'))"
proof -
  let ?m = "ur_manager r"
  have ok: "pool_ok ?m (worker_index (ur_worker r))" "table_ok ?m" using inv by (simp_all add: update_inv_def)
  note sub = placed_submits [OF _ ok(2) old]
  from step show ?thesis
  proof cases
    case (submit updates bytes res m')
    then show ?thesis using sub submits_batch [OF ok(1), of h updates sz] by simp
  next
    case (wake ws stage updates bytes ws' m' res)
    have "submits h (worker_index (ur_worker r)) (activate_free ?m) updates (m', res)"
      using submits_resume [OF ok(1), of h updates stage bytes] wake(4) by simp
    then have "placed h (um_pending m')" by (rule placed_submits) (use ok(2) old in \<open>simp_all add: table_ok_def\<close>)
    then show ?thesis by (simp add: wake(1))
  next
    case (retire u i us)
    then show ?thesis using placed_retire [OF ok(2) old] by simp
  qed (use old in \<open>auto simp: worker_take_def worker_flushed_def worker_failed_def flush_begin_def flush_end_def StopWorker_def
      SetFatalError_def Let_def split: list.splits if_splits\<close>)
qed

lemma placed_reachable:
  assumes new: "PropertyUpdateManager_new opts cb init = Inr m" and "update_reaches h sz m r"
  shows "placed h (um_pending (ur_manager r)) \<and> update_inv h r"
  using assms(2) unfolding update_reaches_def
proof (induction rule: rtranclp_induct)
  case base
  then show ?case using new_manager [OF new] inv_start [OF new] by (simp add: placed_def update_start_def)
next
  case (step y z)
  then show ?case using placed_step inv_step by blast
qed

lemma placed_member:
  assumes "placed h p" "length p = kPendingBucketCount"
  shows "(k, v) \<in> set (concat p) \<longleftrightarrow> map_of (p ! PendingBucketIndex h k) k = Some v"
proof
  assume "(k, v) \<in> set (concat p)"
  then obtain i where "i < length p" "(k, v) \<in> set (p ! i)" by (metis (no_types) UN_E in_set_conv_nth set_concat)
  moreover from this have "PendingBucketIndex h k = i" "distinct (map fst (p ! i))" using assms(1) by (force simp: placed_def)+
  ultimately show "map_of (p ! PendingBucketIndex h k) k = Some v" by simp
next
  assume "map_of (p ! PendingBucketIndex h k) k = Some v"
  moreover have "PendingBucketIndex h k < length p" by (simp add: assms(2) PendingBucketIndex_def kPendingBucketCount_def)
  ultimately show "(k, v) \<in> set (concat p)" using map_of_SomeD nth_mem by fastforce
qed

text \<open>C21. In every reachable state the snapshot of the pending updates of a source vertex contains exactly the
  entries that the exact lookup of their destination and base version finds.\<close>

theorem snapshot_agrees_with_lookup:
  assumes "PropertyUpdateManager_new opts cb init = Inr m" "update_reaches h sz m r"
  shows "e \<in> set (SnapshotForSource (ur_manager r) kind shard_id property_id src is_out edge_type) \<longleftrightarrow>
    LookupExact h (ur_manager r)
      \<lparr>pk_kind = kind, pk_shard_id = shard_id, pk_property_id = property_id, pk_src = src, pk_dst = sn_dst e,
       pk_is_out = is_out, pk_edge_type = edge_type\<rparr> (sn_base_sequence e) = Some (sn_value e, sn_commit_sequence e)"
    (is "?snap = (LookupExact h ?m ?k _ = _)")
proof -
  have p: "placed h (um_pending ?m)" "length (um_pending ?m) = kPendingBucketCount"
    using placed_reachable [OF assms] by (simp_all add: update_inv_def table_ok_def)
  note member = placed_member [OF p]
  have "?snap \<longleftrightarrow> (?k, \<lparr>pv_base_sequence = sn_base_sequence e, pv_commit_sequence = sn_commit_sequence e, pv_value = sn_value e\<rparr>)
      \<in> set (concat (um_pending ?m))" (is "_ \<longleftrightarrow> ?entry \<in> _")
  proof
    assume ?snap
    then obtain k v where kv: "(k, v) \<in> set (concat (um_pending ?m))" "pk_kind k = kind" "pk_shard_id k = shard_id"
        "pk_property_id k = property_id" "pk_src k = src" "pk_is_out k = is_out" "pk_edge_type k = edge_type"
        and e: "e = \<lparr>sn_dst = pk_dst k, sn_base_sequence = pv_base_sequence v, sn_commit_sequence = pv_commit_sequence v,
                 sn_value = pv_value v\<rparr>"
      unfolding SnapshotForSource_def set_map set_filter by (auto simp del: set_concat)
    have "k = ?k" "v = snd ?entry" using kv(2-7) by (simp_all add: e)
    then show "?entry \<in> set (concat (um_pending ?m))" using kv(1) by simp
  next
    assume "?entry \<in> set (concat (um_pending ?m))"
    then show ?snap unfolding SnapshotForSource_def set_map set_filter by (intro image_eqI [of _ _ ?entry]) simp_all
  qed
  also have "\<dots> \<longleftrightarrow> pending_find h ?m ?k = Some (snd ?entry)" unfolding member pending_find_def snd_conv ..
  also have "\<dots> \<longleftrightarrow> LookupExact h ?m ?k (sn_base_sequence e) = Some (sn_value e, sn_commit_sequence e)"
    by (auto simp: LookupExact_def split: option.splits)
  finally show ?thesis .
qed

theorem snapshot_agrees_with_lookup_witness:
  "\<exists>r. update_reaches sample_hash 30 sample_manager r \<and>
     \<lparr>sn_dst = 4, sn_base_sequence = 5, sn_commit_sequence = 2, sn_value = ''new''\<rparr>
       \<in> set (SnapshotForSource (ur_manager r) kEdge 0 0 1 True 0)"
proof -
  obtain r where run: "update_execs sample_hash 30 sample_updates (update_start sample_manager) = Some r" and
      look: "LookupExact sample_hash (ur_manager r) (MakePendingKey (sample_update 4 [])) 5 = Some (''new'', 2)"
    using execs_SomeI [OF sample_lookup_exact] by blast
  have key: "MakePendingKey (sample_update 4 []) = \<lparr>pk_kind = kEdge, pk_shard_id = 0, pk_property_id = 0, pk_src = 1, pk_dst = 4,
      pk_is_out = True, pk_edge_type = 0\<rparr>" by (simp add: MakePendingKey_def sample_update_def)
  from snapshot_agrees_with_lookup [OF sample_manager_new reaches_execs [OF run],
      of "\<lparr>sn_dst = 4, sn_base_sequence = 5, sn_commit_sequence = 2, sn_value = ''new''\<rparr>" kEdge 0 0 1 True 0] look
  show ?thesis using reaches_execs [OF run] by (intro exI [of _ r]) (simp add: key)
qed

section \<open>Batch sizes\<close>

definition batch_total :: "u64 \<Rightarrow> BufferedPropertyUpdate list \<Rightarrow> nat" where
  "batch_total sz us = (\<Sum>u \<leftarrow> us. unat sz + length (r_value (bu_record u)))"

lemma batch_bytes_total:
  assumes "acc \<le> capacity" "\<forall>u \<in> set us. unat sz + length (r_value (bu_record u)) < 2 ^ 64"
  shows "batch_bytes sz capacity acc us =
    (if unat acc + batch_total sz us \<le> unat capacity then Some (acc + word_of_nat (batch_total sz us)) else None)"
  using assms
proof (induction us arbitrary: acc)
  case Nil
  then show ?case by (simp add: batch_total_def word_le_nat_alt)
next
  case (Cons u us)
  let ?n = "unat sz + length (r_value (bu_record u))"
  have n: "?n < 2 ^ 64" using Cons.prems by simp
  have e: "EstimateBytes sz u = word_of_nat ?n" by (simp add: EstimateBytes_def)
  have un: "unat (EstimateBytes sz u) = ?n"
    unfolding e unat_of_nat using n by simp
  have sub: "unat (capacity - acc) = unat capacity - unat acc" using Cons.prems(1) by (simp add: unat_sub)
  have le: "unat acc \<le> unat capacity" using Cons.prems(1) by (simp add: word_le_nat_alt)
  have total: "batch_total sz (u # us) = ?n + batch_total sz us" by (simp add: batch_total_def)
  show ?case
  proof (cases "unat acc + ?n \<le> unat capacity")
    case True
    have "unat capacity < 2 ^ LENGTH(64)" by (rule unsigned_less)
    then have add: "unat (acc + EstimateBytes sz u) = unat acc + ?n" using True un by (simp add: unat_add_lem [THEN iffD1])
    then have "acc + EstimateBytes sz u \<le> capacity" using True by (simp add: word_le_nat_alt)
    from Cons.IH [OF this] Cons.prems(2) have
      "batch_bytes sz capacity (acc + EstimateBytes sz u) us = (if unat acc + ?n + batch_total sz us \<le> unat capacity
         then Some (acc + EstimateBytes sz u + word_of_nat (batch_total sz us)) else None)" by (simp add: add)
    moreover have "\<not> EstimateBytes sz u > capacity - acc" using True un sub by (simp add: word_less_nat_alt)
    ultimately show ?thesis unfolding total e by (simp add: Let_def e add.assoc)
  next
    case False
    then have "EstimateBytes sz u > capacity - acc" using un sub le by (simp add: word_less_nat_alt)
    then show ?thesis using False unfolding total by (simp add: Let_def)
  qed
qed

text \<open>C22. The size check of a batch is exact, with no wrap-around of the accumulated size: a batch is rejected for its
  size precisely when the sum of its record sizes exceeds the capacity in bytes or their number the capacity
  in records, the manager then being left as it was, and any other batch offered while a buffer is active is
  accepted or, having filled the last buffer, waits for a free one.\<close>

theorem submit_batch_decision:
  assumes "us \<noteq> []" "\<forall>u \<in> set us. unat sz + length (r_value (bu_record u)) < 2 ^ 64"
    and "um_active_buffer m = Some a" "um_fatal_error m = []" "\<not> um_stop m"
  shows "SubmitBatch h sz m us =
      (if batch_total sz us > unat (buffer_capacity_bytes (um_options m))
       then (m, Rejected ''property update batch exceeds buffer_capacity_bytes'')
       else if length us > unat (buffer_capacity_records (um_options m))
       then (m, Rejected ''property update batch exceeds buffer_capacity_records'')
       else submit_first h m us (word_of_nat (batch_total sz us))) \<and>
    snd (submit_first h m us bytes) \<in> {Submitted (um_next_commit_sequence m), WaitsSecond}"
proof
  show "SubmitBatch h sz m us =
      (if batch_total sz us > unat (buffer_capacity_bytes (um_options m))
       then (m, Rejected ''property update batch exceeds buffer_capacity_bytes'')
       else if length us > unat (buffer_capacity_records (um_options m))
       then (m, Rejected ''property update batch exceeds buffer_capacity_records'')
       else submit_first h m us (word_of_nat (batch_total sz us)))"
    using assms(1) batch_bytes_total [of 0 "buffer_capacity_bytes (um_options m)" us sz] assms(2)
    by (simp add: SubmitBatch_def)
  have ready: "EnsureActiveBuffer m = (m, EnsureReady a)" using assms(3-5) by (simp add: EnsureActiveBuffer_def)
  have quiet: "um_fatal_error (QueueActiveBuffer m) = [] \<and> \<not> um_stop (QueueActiveBuffer m)"
    using assms(4,5) by (simp add: QueueActiveBuffer_def activate_free_def set_buffer_state_def split: option.splits)
  then have "snd (submit_second h (QueueActiveBuffer m) us bytes) \<in> {Submitted (um_next_commit_sequence m), WaitsSecond}"
    by (cases "um_active_buffer (QueueActiveBuffer m)") (simp_all add: submit_second_def EnsureActiveBuffer_def submit_publish_def Let_def)
  then show "snd (submit_first h m us bytes) \<in> {Submitted (um_next_commit_sequence m), WaitsSecond}"
    by (simp add: submit_first_def ready submit_publish_def Let_def)
qed

theorem submit_batch_decision_witness:
  "SubmitBatch sample_hash 120 sample_manager [sample_update 1 ''too long''] =
     (sample_manager, Rejected ''property update batch exceeds buffer_capacity_bytes'')"
  using submit_batch_decision [of "[sample_update 1 ''too long'']" 120 sample_manager 0 sample_hash]
  by (simp add: sample_update_def batch_total_def sample_manager_def PropertyUpdateManager_new_def sample_update_options_def)

end
