(* ===== verification/Schema.thy ===== *)
theory Schema
  imports FileIo Types
begin

text \<open>
  The schema file of a database: the text helpers and \<^verbatim>\<open>GraphDb::LoadSchemaFromYaml\<close> of
  \<^verbatim>\<open>src/graph_db.cpp\<close> with the schema structs of \<^verbatim>\<open>include/richgraph/graph_db.h\<close>. A file is its content as a
  string, the parser a state transformer on lines, an error the message the code reports. Decimal numbers are
  read as \<^verbatim>\<open>std::stoull\<close> and \<^verbatim>\<open>std::stoi\<close> read them.
\<close>

section \<open>Definitions\<close>

subsection \<open>Text\<close>

definition isspace :: "char \<Rightarrow> bool" where
  "isspace c \<longleftrightarrow> c \<in> {CHR '' '', CHR 0x09, CHR 0x0A, CHR 0x0B, CHR 0x0C, CHR 0x0D}"

definition isdigit :: "char \<Rightarrow> bool" where
  "isdigit c \<longleftrightarrow> 48 \<le> (of_char c :: nat) \<and> (of_char c :: nat) \<le> 57"

definition Trim :: "string \<Rightarrow> string" where
  "Trim s = rev (dropWhile isspace (rev (dropWhile isspace s)))"

definition StripComment :: "string \<Rightarrow> string" where
  "StripComment line = takeWhile (\<lambda>c. c \<noteq> CHR ''#'') line"

definition StartsWith :: "string \<Rightarrow> string \<Rightarrow> bool" where
  "StartsWith s p \<longleftrightarrow> length s \<ge> length p \<and> take (length p) s = p"

definition Unquote :: "string \<Rightarrow> string" where
  "Unquote s =
     (if length s \<ge> 2 \<and>
         (hd s = CHR 0x22 \<and> last s = CHR 0x22 \<or> hd s = CHR 0x27 \<and> last s = CHR 0x27)
      then take (length s - 2) (drop 1 s) else s)"

text \<open>The tokens repeated calls of \<^verbatim>\<open>std::getline\<close> return: nothing follows a final delimiter.\<close>

function getlines :: "char \<Rightarrow> string \<Rightarrow> string list" where
  "getlines d s =
     (if s = [] then []
      else takeWhile (\<lambda>c. c \<noteq> d) s #
        (case dropWhile (\<lambda>c. c \<noteq> d) s of [] \<Rightarrow> [] | _ # rest \<Rightarrow> getlines d rest))"
  by pat_completeness auto

lemma dropWhile_shorter: "dropWhile P xs = y # ys \<Longrightarrow> length ys < length xs"
  by (metis Suc_le_eq length_Cons length_dropWhile_le)

termination getlines
  by (relation "measure (\<lambda>(d, s). length s)") (auto dest: dropWhile_shorter)

declare getlines.simps [simp del]

definition decimal :: "string \<Rightarrow> nat" where
  "decimal ds = foldl (\<lambda>n c. 10 * n + (of_char c - 48)) 0 ds"

text \<open>White space, a sign and digits; what follows them is ignored. \<^verbatim>\<open>strtoull\<close> negates a number with a minus sign.\<close>

definition scan_sign :: "string \<Rightarrow> bool \<times> string" where
  "scan_sign s =
     (case dropWhile isspace s of
        [] \<Rightarrow> (False, [])
      | c # cs \<Rightarrow> if c = CHR ''-'' then (True, cs) else if c = CHR ''+'' then (False, cs) else (False, c # cs))"

definition stoull :: "string \<Rightarrow> u64 option" where
  "stoull s =
     (case scan_sign s of (neg, cs) \<Rightarrow>
        let ds = takeWhile isdigit cs; n = decimal ds
        in if ds = [] \<or> n \<ge> 2 ^ 64 then None
           else Some (if neg then - word_of_nat n else word_of_nat n))"

lemma stoull_code [code]:
  "stoull s =
     (case scan_sign s of (neg, cs) \<Rightarrow>
        let ds = takeWhile isdigit cs; n = decimal ds
        in if ds = [] \<or> int n \<ge> 2 ^ 64 then None
           else Some (if neg then - word_of_nat n else word_of_nat n))"
  by (simp add: stoull_def numeral_power_le_of_nat_cancel_iff [symmetric])

definition stoi :: "string \<Rightarrow> int option" where
  "stoi s =
     (case scan_sign s of (neg, cs) \<Rightarrow>
        let ds = takeWhile isdigit cs; n = (if neg then - int (decimal ds) else int (decimal ds))
        in if ds = [] \<or> n < - (2 ^ 31) \<or> n \<ge> 2 ^ 31 then None else Some n)"

definition ParseBool :: "string \<Rightarrow> bool option" where
  "ParseBool raw =
     (let s = Trim raw in
      if s = ''1'' \<or> s = ''true'' \<or> s = ''True'' \<or> s = ''TRUE'' then Some True
      else if s = ''0'' \<or> s = ''false'' \<or> s = ''False'' \<or> s = ''FALSE'' then Some False
      else None)"

definition ParseUint64 :: "string \<Rightarrow> u64 option" where
  "ParseUint64 raw = (let s = Trim raw in if s = [] then None else stoull s)"

definition ParseUint32 :: "string \<Rightarrow> u32 option" where
  "ParseUint32 raw =
     (case ParseUint64 raw of
        None \<Rightarrow> None
      | Some tmp \<Rightarrow> if tmp > 0xFFFFFFFF then None else Some (ucast tmp))"

definition ParseInt :: "string \<Rightarrow> int option" where
  "ParseInt raw = (let s = Trim raw in if s = [] then None else stoi s)"

text \<open>\<^verbatim>\<open>ParseInlineList\<close> returns true whenever it has somewhere to put the list.\<close>

definition list_items :: "string list \<Rightarrow> string list" where
  "list_items tokens = filter (\<lambda>t. t \<noteq> []) (map (\<lambda>t. Unquote (Trim t)) tokens)"

definition ParseInlineList :: "string \<Rightarrow> string list" where
  "ParseInlineList raw =
     (let s = Trim raw in
      if s = [] then []
      else
        let s = (if hd s = CHR ''['' \<and> last s = CHR '']'' then Trim (take (length s - 2) (drop 1 s)) else s);
            out = list_items (getlines (CHR '','') s)
        in if out = [] then list_items [s] else out)"

definition ParseKeyValue :: "string \<Rightarrow> (string \<times> string) option" where
  "ParseKeyValue line =
     (if CHR '':'' \<notin> set line then None
      else Some (Trim (takeWhile (\<lambda>c. c \<noteq> CHR '':'') line), Trim (tl (dropWhile (\<lambda>c. c \<noteq> CHR '':'') line))))"

subsection \<open>Schemas\<close>

record PropertyDef =
  pd_name :: string
  pd_length :: u32

record ShardSchema =
  sh_name :: string
  sh_properties :: "string list"
  sh_memtable_size :: u32
  sh_is_csr :: bool
  sh_csr_l0_max_sst_num :: u32
  sh_csr_l1_max_sst_num :: u32

record Schema =
  sc_max_vertex_num :: u64
  sc_use_csr_disk :: bool
  sc_sub_property_num :: u32
  sc_max_property_length :: u32
  sc_system_threads :: int
  sc_property_defs :: "PropertyDef list"
  sc_edge_shards :: "ShardSchema list"
  sc_node_db :: ShardSchema

definition default_PropertyDef :: PropertyDef where
  "default_PropertyDef = \<lparr>pd_name = [], pd_length = 10\<rparr>"

definition default_EdgeShardSchema :: ShardSchema where
  "default_EdgeShardSchema = \<lparr>sh_name = [], sh_properties = [], sh_memtable_size = 0, sh_is_csr = False,
     sh_csr_l0_max_sst_num = 8, sh_csr_l1_max_sst_num = 10000\<rparr>"

definition default_NodeShardSchema :: ShardSchema where
  "default_NodeShardSchema = \<lparr>sh_name = ''node_Db'', sh_properties = [], sh_memtable_size = 0, sh_is_csr = False,
     sh_csr_l0_max_sst_num = 8, sh_csr_l1_max_sst_num = 10000\<rparr>"

definition default_Schema :: Schema where
  "default_Schema = \<lparr>sc_max_vertex_num = 0, sc_use_csr_disk = False, sc_sub_property_num = 0, sc_max_property_length = 10,
     sc_system_threads = 1, sc_property_defs = [], sc_edge_shards = [], sc_node_db = default_NodeShardSchema\<rparr>"

subsection \<open>The parser\<close>

datatype Section = kRoot | kEdgeShards | kNodeDb | kPropertyDefs

text \<open>The local variables of the function; an open shard or property is \<open>Some\<close> of its struct.\<close>

record parser_state =
  ps_schema :: Schema
  ps_section :: Section
  ps_edge_shard :: "ShardSchema option"
  ps_prop_def :: "PropertyDef option"
  ps_has_max_vertex_num :: bool

definition initial_parser :: parser_state where
  "initial_parser = \<lparr>ps_schema = default_Schema, ps_section = kRoot, ps_edge_shard = None, ps_prop_def = None,
     ps_has_max_vertex_num = False\<rparr>"

definition flush_edge_shard :: "parser_state \<Rightarrow> parser_state" where
  "flush_edge_shard p =
     (case ps_edge_shard p of
        None \<Rightarrow> p
      | Some s \<Rightarrow>
          let s' = (if sh_name s = []
                    then s\<lparr>sh_name := ''edge_Db'' @ to_string (length (sc_edge_shards (ps_schema p)))\<rparr> else s)
          in p\<lparr>ps_schema := (ps_schema p)\<lparr>sc_edge_shards := sc_edge_shards (ps_schema p) @ [s']\<rparr>,
               ps_edge_shard := None\<rparr>)"

definition flush_prop_def :: "parser_state \<Rightarrow> parser_state" where
  "flush_prop_def p =
     (case ps_prop_def p of
        None \<Rightarrow> p
      | Some d \<Rightarrow>
          (if pd_name d \<noteq> []
           then p\<lparr>ps_schema := (ps_schema p)\<lparr>sc_property_defs := sc_property_defs (ps_schema p) @ [d]\<rparr>\<rparr>
           else p)\<lparr>ps_prop_def := None\<rparr>)"

definition set_or_error :: "string \<Rightarrow> nat \<Rightarrow> 'a option \<Rightarrow> ('a \<Rightarrow> 'b) \<Rightarrow> string + 'b" where
  "set_or_error what line_no parsed f =
     (case parsed of None \<Rightarrow> Inl (''invalid '' @ what @ '' at line '' @ to_string line_no) | Some x \<Rightarrow> Inr (f x))"

text \<open>The keys every section accepts; \<open>None\<close> when the line has none of them.\<close>

definition root_key :: "nat \<Rightarrow> string \<Rightarrow> string \<Rightarrow> parser_state \<Rightarrow> (string + parser_state) option" where
  "root_key line_no key v p =
     (if key = ''max_vertex_num'' then
        Some (set_or_error key line_no (ParseUint64 v)
          (\<lambda>n. p\<lparr>ps_schema := (ps_schema p)\<lparr>sc_max_vertex_num := n\<rparr>, ps_has_max_vertex_num := True\<rparr>))
      else if key = ''use_csr_disk'' then
        Some (set_or_error key line_no (ParseBool v) (\<lambda>b. p\<lparr>ps_schema := (ps_schema p)\<lparr>sc_use_csr_disk := b\<rparr>\<rparr>))
      else if key = ''sub_property_num'' then
        Some (set_or_error key line_no (ParseUint32 v) (\<lambda>n. p\<lparr>ps_schema := (ps_schema p)\<lparr>sc_sub_property_num := n\<rparr>\<rparr>))
      else if key = ''max_property_length'' then
        Some (set_or_error key line_no (ParseUint32 v) (\<lambda>n. p\<lparr>ps_schema := (ps_schema p)\<lparr>sc_max_property_length := n\<rparr>\<rparr>))
      else if key = ''system_threads'' then
        Some (set_or_error key line_no (case ParseInt v of Some n \<Rightarrow> if n \<le> 0 then None else Some n | None \<Rightarrow> None)
          (\<lambda>n. p\<lparr>ps_schema := (ps_schema p)\<lparr>sc_system_threads := n\<rparr>\<rparr>))
      else None)"

text \<open>A key of a shard; the code has it three times, for the two forms of an edge shard line and for the node shard.\<close>

definition shard_key :: "string \<Rightarrow> nat \<Rightarrow> string \<Rightarrow> string \<Rightarrow> ShardSchema \<Rightarrow> string + ShardSchema" where
  "shard_key owner line_no key v s =
     (if key = ''name'' then Inr (s\<lparr>sh_name := Unquote v\<rparr>)
      else if key = ''properties'' then Inr (s\<lparr>sh_properties := ParseInlineList v\<rparr>)
      else if key = ''memtable_size'' then
        set_or_error (owner @ '' memtable_size'') line_no (ParseUint32 v) (\<lambda>n. s\<lparr>sh_memtable_size := n\<rparr>)
      else if key = ''is_csr'' then
        set_or_error (owner @ '' is_csr'') line_no (ParseBool v) (\<lambda>b. s\<lparr>sh_is_csr := b\<rparr>)
      else if key = ''csr_l0_max_sst_num'' then
        set_or_error (owner @ '' csr_l0_max_sst_num'') line_no (ParseUint32 v) (\<lambda>n. s\<lparr>sh_csr_l0_max_sst_num := n\<rparr>)
      else if key = ''csr_l1_max_sst_num'' then
        set_or_error (owner @ '' csr_l1_max_sst_num'') line_no (ParseUint32 v) (\<lambda>n. s\<lparr>sh_csr_l1_max_sst_num := n\<rparr>)
      else Inl (''unknown '' @ owner @ '' key at line '' @ to_string line_no @ '': '' @ key))"

definition edge_shard_line :: "nat \<Rightarrow> string \<Rightarrow> parser_state \<Rightarrow> string + parser_state" where
  "edge_shard_line line_no line p =
     (if StartsWith line ''-'' then
        let p1 = (flush_edge_shard p)\<lparr>ps_edge_shard := Some default_EdgeShardSchema\<rparr>; remain = Trim (drop 1 line)
        in if remain = [] then Inr p1
           else case ParseKeyValue remain of
                  None \<Rightarrow> Inl (''invalid edge_shards item at line '' @ to_string line_no)
                | Some (key, v) \<Rightarrow>
                    (case shard_key ''edge_shard'' line_no key v default_EdgeShardSchema of
                       Inl e \<Rightarrow> Inl e | Inr s \<Rightarrow> Inr (p1\<lparr>ps_edge_shard := Some s\<rparr>))
      else
        let s0 = (case ps_edge_shard p of Some s \<Rightarrow> s | None \<Rightarrow> default_EdgeShardSchema)
        in case ParseKeyValue line of
             None \<Rightarrow> Inl (''invalid edge_shards line '' @ to_string line_no)
           | Some (key, v) \<Rightarrow>
               (case shard_key ''edge_shard'' line_no key v s0 of
                  Inl e \<Rightarrow> Inl e | Inr s \<Rightarrow> Inr (p\<lparr>ps_edge_shard := Some s\<rparr>)))"

definition node_db_line :: "nat \<Rightarrow> string \<Rightarrow> parser_state \<Rightarrow> string + parser_state" where
  "node_db_line line_no line p =
     (case ParseKeyValue line of
        None \<Rightarrow> Inl (''invalid node_db line '' @ to_string line_no)
      | Some (key, v) \<Rightarrow>
          (case shard_key ''node_db'' line_no key v (sc_node_db (ps_schema p)) of
             Inl e \<Rightarrow> Inl e | Inr s \<Rightarrow> Inr (p\<lparr>ps_schema := (ps_schema p)\<lparr>sc_node_db := s\<rparr>\<rparr>)))"

definition prop_def_key :: "nat \<Rightarrow> string \<Rightarrow> string \<Rightarrow> PropertyDef \<Rightarrow> string + PropertyDef" where
  "prop_def_key line_no key v d =
     (if key = ''name'' then Inr (d\<lparr>pd_name := Unquote v\<rparr>)
      else if key = ''length'' then set_or_error ''property length'' line_no (ParseUint32 v) (\<lambda>n. d\<lparr>pd_length := n\<rparr>)
      else Inl (''unknown property_defs key at line '' @ to_string line_no @ '': '' @ key))"

definition prop_def_line :: "nat \<Rightarrow> string \<Rightarrow> parser_state \<Rightarrow> string + parser_state" where
  "prop_def_line line_no line p =
     (if StartsWith line ''-'' then
        let p1 = (flush_prop_def p)\<lparr>ps_prop_def := Some default_PropertyDef\<rparr>; remain = Trim (drop 1 line)
        in if remain = [] then Inr p1
           else case ParseKeyValue remain of
                  None \<Rightarrow> Inl (''invalid property_defs item at line '' @ to_string line_no)
                | Some (key, v) \<Rightarrow>
                    (case prop_def_key line_no key v default_PropertyDef of
                       Inl e \<Rightarrow> Inl e | Inr d \<Rightarrow> Inr (p1\<lparr>ps_prop_def := Some d\<rparr>))
      else
        let d0 = (case ps_prop_def p of Some d \<Rightarrow> d | None \<Rightarrow> default_PropertyDef)
        in case ParseKeyValue line of
             None \<Rightarrow> Inl (''invalid property_defs line '' @ to_string line_no)
           | Some (key, v) \<Rightarrow>
               (case prop_def_key line_no key v d0 of
                  Inl e \<Rightarrow> Inl e | Inr d \<Rightarrow> Inr (p\<lparr>ps_prop_def := Some d\<rparr>)))"

definition section_line :: "nat \<Rightarrow> string \<Rightarrow> parser_state \<Rightarrow> string + parser_state" where
  "section_line line_no line p =
     (case ps_section p of
        kEdgeShards \<Rightarrow> edge_shard_line line_no line p
      | kNodeDb \<Rightarrow> node_db_line line_no line p
      | kPropertyDefs \<Rightarrow> prop_def_line line_no line p
      | kRoot \<Rightarrow> Inl (''unknown or misplaced line '' @ to_string line_no @ '': '' @ line))"

definition parse_line :: "nat \<Rightarrow> string \<Rightarrow> parser_state \<Rightarrow> string + parser_state" where
  "parse_line line_no raw_line p =
     (let line = Trim (StripComment raw_line) in
      if line = [] then Inr p
      else if line = ''edge_shards:'' then Inr ((flush_edge_shard (flush_prop_def p))\<lparr>ps_section := kEdgeShards\<rparr>)
      else if line = ''node_db:'' then Inr ((flush_edge_shard (flush_prop_def p))\<lparr>ps_section := kNodeDb\<rparr>)
      else if line = ''property_defs:'' then Inr ((flush_prop_def (flush_edge_shard p))\<lparr>ps_section := kPropertyDefs\<rparr>)
      else case ParseKeyValue line of
             None \<Rightarrow> section_line line_no line p
           | Some (key, v) \<Rightarrow>
               (case root_key line_no key v p of None \<Rightarrow> section_line line_no line p | Some r \<Rightarrow> r))"

fun parse_lines :: "nat \<Rightarrow> string list \<Rightarrow> parser_state \<Rightarrow> string + parser_state" where
  "parse_lines line_no [] p = Inr p"
| "parse_lines line_no (l # ls) p =
     (case parse_line (Suc line_no) l p of Inl e \<Rightarrow> Inl e | Inr p' \<Rightarrow> parse_lines (Suc line_no) ls p')"

text \<open>The checks and defaults after the last line.\<close>

definition max_columns :: "Schema \<Rightarrow> nat" where
  "max_columns sc =
     (let n = foldl (\<lambda>n s. max n (length (sh_properties s))) (length (sh_properties (sc_node_db sc))) (sc_edge_shards sc)
      in if n = 0 then 1 else n)"

definition finish_schema :: "parser_state \<Rightarrow> string + Schema" where
  "finish_schema p =
     (let p1 = flush_prop_def (flush_edge_shard p); sc = ps_schema p1 in
      if \<not> ps_has_max_vertex_num p1 \<or> sc_max_vertex_num sc = 0 then Inl ''max_vertex_num is required and must be > 0''
      else if sc_edge_shards sc = [] then Inl ''edge_shards must not be empty''
      else
        let sc1 = (if sh_name (sc_node_db sc) = [] then sc\<lparr>sc_node_db := (sc_node_db sc)\<lparr>sh_name := ''node_Db''\<rparr>\<rparr> else sc);
            sc2 = (if sc_system_threads sc1 \<le> 0 then sc1\<lparr>sc_system_threads := 1\<rparr> else sc1)
        in Inr (if sc_sub_property_num sc2 = 0 then sc2\<lparr>sc_sub_property_num := word_of_nat (max_columns sc2)\<rparr> else sc2))"

text \<open>The whole function: the content of the file, if it can be opened, and whether there is somewhere to put the schema.\<close>

definition LoadSchemaFromYaml :: "string option \<Rightarrow> string \<Rightarrow> bool \<Rightarrow> (Status \<times> string) + Schema" where
  "LoadSchemaFromYaml content schema_path has_out =
     (if \<not> has_out then Inl (kInvalidArgument, ''out_schema is null'')
      else case content of
        None \<Rightarrow> Inl (kIOError, ''open schema file failed: '' @ schema_path)
      | Some text \<Rightarrow>
          (case parse_lines 0 (getlines (CHR 0x0A) text) initial_parser of
             Inl e \<Rightarrow> Inl (kInvalidArgument, e)
           | Inr p \<Rightarrow> (case finish_schema p of Inl e \<Rightarrow> Inl (kInvalidArgument, e) | Inr sc \<Rightarrow> Inr sc)))"

end
