(* ===== verification/SchemaProps.thy ===== *)
theory SchemaProps
  imports Schema
begin

text \<open>
  Properties of the schema loader: what every accepted schema satisfies, that a written schema is read back,
  and what the number readers make of a negative number.
\<close>

section \<open>Text helpers\<close>

lemma length_Trim: "length (Trim s) \<le> length s"
proof -
  have "length (Trim s) \<le> length (dropWhile isspace s)"
    unfolding Trim_def by (metis length_dropWhile_le length_rev)
  also have "\<dots> \<le> length s" by (rule length_dropWhile_le)
  finally show ?thesis .
qed

lemma Trim_id:
  assumes "s \<noteq> []" "\<not> isspace (hd s)" "\<not> isspace (last s)"
  shows "Trim s = s"
proof -
  have "dropWhile isspace s = s" "dropWhile isspace (rev s) = rev s"
    using assms by (auto simp: dropWhile_eq_self_iff hd_rev)
  then show ?thesis by (simp add: Trim_def)
qed

lemma Trim_Nil [simp]: "Trim [] = []"
  by (simp add: Trim_def)

lemma Trim_space [simp]: "Trim (CHR '' '' # s) = Trim s"
  by (simp add: Trim_def isspace_def)

lemma StripComment_id: "CHR ''#'' \<notin> set s \<Longrightarrow> StripComment s = s"
  unfolding StripComment_def by (rule takeWhile_eq_all_conv [THEN iffD2]) auto

lemma length_getlines: "length (getlines d s) \<le> length s"
proof (induction d s rule: getlines.induct)
  case (1 d s)
  show ?case
  proof (cases "s = [] \<or> dropWhile (\<lambda>c. c \<noteq> d) s = []")
    case True
    then show ?thesis by (auto simp: getlines.simps [of d s] getlines.simps [of d "[]"] Suc_le_eq simp del: dropWhile_eq_Nil_conv)
  next
    case False
    then obtain y ys where ys: "dropWhile (\<lambda>c. c \<noteq> d) s = y # ys" by (meson list.exhaust)
    then have "length (getlines d ys) \<le> length ys" using 1 False by blast
    then show ?thesis using dropWhile_shorter [OF ys] False ys by (simp add: getlines.simps [of d s])
  qed
qed

lemma getlines_line: "t \<in> set (getlines d s) \<Longrightarrow> length t \<le> length s"
proof (induction d s rule: getlines.induct)
  case (1 d s)
  then have "s \<noteq> []" by (auto simp: getlines.simps [of d s])
  with "1.prems" consider "t = takeWhile (\<lambda>c. c \<noteq> d) s"
    | y ys where "dropWhile (\<lambda>c. c \<noteq> d) s = y # ys" "t \<in> set (getlines d ys)"
    by (cases "dropWhile (\<lambda>c. c \<noteq> d) s") (simp_all add: getlines.simps [of d s], blast+)
  then show ?case
  proof cases
    case 1
    then show ?thesis by (simp add: length_takeWhile_le)
  next
    case (2 y ys)
    then have "length t \<le> length ys" using "1.IH" \<open>s \<noteq> []\<close> by blast
    then show ?thesis using dropWhile_shorter [OF 2(1)] by simp
  qed
qed

lemma getlines_lines:
  "\<forall>l \<in> set ls. d \<notin> set l \<Longrightarrow> getlines d (concat (map (\<lambda>l. l @ [d]) ls)) = ls"
proof (induction ls)
  case Nil
  then show ?case by (simp add: getlines.simps)
next
  case (Cons l ls)
  let ?s = "l @ d # concat (map (\<lambda>l. l @ [d]) ls)"
  have "takeWhile (\<lambda>c. c \<noteq> d) ?s = l" "dropWhile (\<lambda>c. c \<noteq> d) ?s = d # concat (map (\<lambda>l. l @ [d]) ls)"
    using Cons.prems by (subst takeWhile_append2 dropWhile_append2; auto)+
  then show ?case using Cons by (simp add: getlines.simps [of d ?s])
qed

lemma length_ParseInlineList: "length (ParseInlineList raw) \<le> max 1 (length raw)"
proof -
  have items: "length (list_items ts) \<le> length ts" for ts
    unfolding list_items_def by (metis length_filter_le length_map)
  let ?s = "if hd (Trim raw) = CHR ''['' \<and> last (Trim raw) = CHR '']''
    then Trim (take (length (Trim raw) - 2) (drop 1 (Trim raw))) else Trim raw"
  have "length (take (length (Trim raw) - 2) (drop 1 (Trim raw))) \<le> length raw" using length_Trim [of raw] by simp
  then have "length ?s \<le> length raw"
    using length_Trim [of raw] length_Trim [of "take (length (Trim raw) - 2) (drop 1 (Trim raw))"] by auto
  then have "length (list_items (getlines (CHR '','') ?s)) \<le> length raw"
    using items [of "getlines (CHR '','') ?s"] length_getlines [of "CHR '',''" ?s] by linarith
  moreover have "length (list_items [?s]) \<le> 1" using items [of "[?s]"] by simp
  ultimately show ?thesis by (auto simp: ParseInlineList_def Let_def max_def)
qed

lemma ParseInlineList_nonempty: "[] \<notin> set (ParseInlineList raw)"
  by (auto simp: ParseInlineList_def list_items_def Let_def)

lemma ParseKeyValue_length: "ParseKeyValue line = Some (k, v) \<Longrightarrow> length v \<le> length line"
proof -
  assume "ParseKeyValue line = Some (k, v)"
  then have "v = Trim (tl (dropWhile (\<lambda>c. c \<noteq> CHR '':'') line))" by (auto simp: ParseKeyValue_def split: if_splits)
  moreover have "length (tl (dropWhile (\<lambda>c. c \<noteq> CHR '':'') line)) \<le> length line"
    using length_dropWhile_le [of "\<lambda>c. c \<noteq> CHR '':''" line] by simp
  ultimately show ?thesis using length_Trim le_trans by blast
qed

section \<open>Accepted schemas\<close>

definition shard_ok :: "nat \<Rightarrow> ShardSchema \<Rightarrow> bool" where
  "shard_ok n s \<longleftrightarrow> [] \<notin> set (sh_properties s) \<and> length (sh_properties s) \<le> n"

definition parser_ok :: "nat \<Rightarrow> parser_state \<Rightarrow> bool" where
  "parser_ok n p \<longleftrightarrow> (\<forall>s \<in> set (sc_edge_shards (ps_schema p)). shard_ok n s \<and> sh_name s \<noteq> []) \<and>
     (\<forall>s. ps_edge_shard p = Some s \<longrightarrow> shard_ok n s) \<and> shard_ok n (sc_node_db (ps_schema p)) \<and>
     (\<forall>d \<in> set (sc_property_defs (ps_schema p)). pd_name d \<noteq> []) \<and>
     0 < sc_system_threads (ps_schema p) \<and> sc_system_threads (ps_schema p) < 2 ^ 31"

lemma set_or_error_Inr: "set_or_error what n x f = Inr y \<longleftrightarrow> (\<exists>a. x = Some a \<and> y = f a)"
  by (auto simp: set_or_error_def split: option.splits)

lemma default_shards_ok: "shard_ok n default_EdgeShardSchema" "shard_ok n default_NodeShardSchema"
  by (simp_all add: shard_ok_def default_EdgeShardSchema_def default_NodeShardSchema_def)

lemma initial_parser_ok: "parser_ok n initial_parser"
  by (simp add: parser_ok_def initial_parser_def default_Schema_def default_shards_ok)

lemma flush_edge_shard_ok: "parser_ok n p \<Longrightarrow> parser_ok n (flush_edge_shard p)"
  by (auto simp: parser_ok_def flush_edge_shard_def shard_ok_def Let_def split: option.splits)

lemma flush_prop_def_ok: "parser_ok n p \<Longrightarrow> parser_ok n (flush_prop_def p)"
  by (auto simp: parser_ok_def flush_prop_def_def split: option.splits)

lemma shard_key_ok:
  assumes "shard_key owner i k v s = Inr s'" "shard_ok n s" "length v \<le> n" "1 \<le> n"
  shows "shard_ok n s'"
proof -
  have "length (ParseInlineList v) \<le> n" using length_ParseInlineList [of v] assms(3,4) by simp
  then show ?thesis
    using assms(1,2) ParseInlineList_nonempty
    by (auto simp: shard_key_def shard_ok_def set_or_error_Inr split: if_splits)
qed

lemma edge_shard_line_Inr:
  assumes "edge_shard_line i line p = Inr p'"
  shows "(\<exists>q s0 k v s. p' = q\<lparr>ps_edge_shard := Some s\<rparr> \<and> q \<in> {p, flush_edge_shard p} \<and>
      (s = s0 \<or> shard_key ''edge_shard'' i k v s0 = Inr s \<and> length v \<le> length line) \<and>
      (s0 = default_EdgeShardSchema \<or> ps_edge_shard p = Some s0))"
proof (cases "StartsWith line ''-''")
  case True
  note p' = assms [unfolded edge_shard_line_def if_P [OF True] Let_def]
  show ?thesis
  proof (cases "Trim (drop 1 line) = []")
    case True
    then have "p' = (flush_edge_shard p)\<lparr>ps_edge_shard := Some default_EdgeShardSchema\<rparr>" using p' by simp
    then show ?thesis by blast
  next
    case False
    then obtain k v s where kv: "ParseKeyValue (Trim (drop 1 line)) = Some (k, v)"
        and "shard_key ''edge_shard'' i k v default_EdgeShardSchema = Inr s"
        and "p' = (flush_edge_shard p)\<lparr>ps_edge_shard := Some s\<rparr>"
      using p' by (auto split: option.splits sum.splits)
    moreover have "length v \<le> length line"
      using ParseKeyValue_length [OF kv] length_Trim [of "drop 1 line"] by simp
    ultimately show ?thesis by blast
  qed
next
  case False
  note p' = assms [unfolded edge_shard_line_def if_not_P [OF False] Let_def]
  then obtain k v s where "ParseKeyValue line = Some (k, v)" "p' = p\<lparr>ps_edge_shard := Some s\<rparr>"
      "shard_key ''edge_shard'' i k v (case ps_edge_shard p of Some s \<Rightarrow> s | None \<Rightarrow> default_EdgeShardSchema) = Inr s"
    by (auto split: option.splits sum.splits)
  then show ?thesis using ParseKeyValue_length by (cases "ps_edge_shard p") fastforce+
qed

lemma edge_shard_line_ok:
  assumes "edge_shard_line i line p = Inr p'" "parser_ok n p" "length line \<le> n" "1 \<le> n"
  shows "parser_ok n p'"
proof -
  obtain q s0 k v s where p': "p' = q\<lparr>ps_edge_shard := Some s\<rparr>" and q: "q = p \<or> q = flush_edge_shard p"
      and s: "s = s0 \<or> shard_key ''edge_shard'' i k v s0 = Inr s \<and> length v \<le> length line"
      and s0: "s0 = default_EdgeShardSchema \<or> ps_edge_shard p = Some s0"
    using edge_shard_line_Inr [OF assms(1)] by blast
  have "parser_ok n q" using q assms(2) flush_edge_shard_ok by blast
  moreover have "shard_ok n s0" using s0 assms(2) default_shards_ok by (auto simp: parser_ok_def)
  then have "shard_ok n s" using s shard_key_ok assms(3,4) by (meson order_trans)
  ultimately show ?thesis by (simp add: p' parser_ok_def)
qed

lemma node_db_line_ok:
  assumes "node_db_line i line p = Inr p'" "parser_ok n p" "length line \<le> n" "1 \<le> n"
  shows "parser_ok n p'"
proof -
  have s: "shard_ok n (sc_node_db (ps_schema p))" using assms(2) by (simp add: parser_ok_def)
  from shard_key_ok [OF _ s order_trans [OF ParseKeyValue_length assms(3)] assms(4)]
  have "\<exists>s'. p' = p\<lparr>ps_schema := (ps_schema p)\<lparr>sc_node_db := s'\<rparr>\<rparr> \<and> shard_ok n s'"
    using assms(1) by (force simp: node_db_line_def split: option.splits sum.splits)
  then show ?thesis using assms(2) by (auto simp: parser_ok_def)
qed

lemma prop_def_line_ok:
  assumes "prop_def_line i line p = Inr p'" "parser_ok n p"
  shows "parser_ok n p'"
proof -
  have "\<exists>q d. p' = q\<lparr>ps_prop_def := Some d\<rparr> \<and> parser_ok n q"
    using assms flush_prop_def_ok [OF assms(2)]
    by (force simp: prop_def_line_def Let_def split: if_splits option.splits sum.splits)
  then show ?thesis by (auto simp: parser_ok_def)
qed

lemma stoi_range: "ParseInt v = Some n \<Longrightarrow> n < 2 ^ 31"
  by (auto simp: ParseInt_def stoi_def Let_def split: if_splits prod.splits)

lemma root_key_ok:
  assumes "root_key i k v p = Some (Inr p')" "parser_ok n p"
  shows "parser_ok n p'"
  using assms stoi_range
  by (auto simp: root_key_def set_or_error_Inr parser_ok_def split: if_splits option.splits)

lemma parse_line_ok:
  assumes "parse_line i raw p = Inr p'" "parser_ok n p" "length raw \<le> n" "1 \<le> n"
  shows "parser_ok n p'"
proof -
  let ?line = "Trim (StripComment raw)"
  have len: "length ?line \<le> n"
    using length_Trim [of "StripComment raw"] length_takeWhile_le [of "\<lambda>c. c \<noteq> CHR ''#''" raw] assms(3)
    by (simp add: StripComment_def)
  note flush = flush_edge_shard_ok flush_prop_def_ok
  have part: "parser_ok n q" if "section_line i ?line p = Inr q" for q
    using that edge_shard_line_ok node_db_line_ok prop_def_line_ok assms(2,4) len
    by (auto simp: section_line_def split: Section.splits)
  have sections: "parser_ok n q \<Longrightarrow> parser_ok n (q\<lparr>ps_section := s\<rparr>)" for q s by (simp add: parser_ok_def)
  show ?thesis
    using assms(1,2) part root_key_ok [OF _ assms(2)] flush sections
    by (auto simp: parse_line_def Let_def split: if_splits option.splits)
qed

lemma parse_lines_ok:
  "parse_lines i ls p = Inr p' \<Longrightarrow> parser_ok n p \<Longrightarrow> \<forall>l \<in> set ls. length l \<le> n \<Longrightarrow> 1 \<le> n \<Longrightarrow> parser_ok n p'"
  by (induction i ls p rule: parse_lines.induct) (auto split: sum.splits dest: parse_line_ok)

lemma max_columns_bounds:
  assumes "\<forall>s \<in> set (sc_edge_shards sc). length (sh_properties s) \<le> n" "length (sh_properties (sc_node_db sc)) \<le> n" "1 \<le> n"
  shows "1 \<le> max_columns sc \<and> max_columns sc \<le> n"
proof -
  have "foldl (\<lambda>n s. max n (length (sh_properties s))) k ss \<le> n"
    if "k \<le> n" "\<forall>s \<in> set ss. length (sh_properties s) \<le> n" for k and ss :: "ShardSchema list"
    using that by (induction ss arbitrary: k) simp_all
  from this [OF assms(2,1)] show ?thesis using assms(3) by (auto simp: max_columns_def Let_def)
qed

text \<open>C30. Every schema the loader accepts is well formed: it has a positive vertex limit, a shard, named shards and
  property definitions, no empty property name, a positive number of threads that fits an int, and a positive number of
  property columns (for files shorter than four gigabytes).\<close>

theorem loaded_schema_well_formed:
  assumes "LoadSchemaFromYaml (Some content) path True = Inr sc" "length content < 2 ^ 32"
  shows "0 < sc_max_vertex_num sc \<and> sc_edge_shards sc \<noteq> [] \<and>
    (\<forall>s \<in> set (sc_node_db sc # sc_edge_shards sc). sh_name s \<noteq> [] \<and> [] \<notin> set (sh_properties s)) \<and>
    (\<forall>d \<in> set (sc_property_defs sc). pd_name d \<noteq> []) \<and>
    0 < sc_system_threads sc \<and> sc_system_threads sc < 2 ^ 31 \<and> 0 < sc_sub_property_num sc"
proof -
  let ?n = "max 1 (length content)"
  obtain p where p: "parse_lines 0 (getlines (CHR 0x0A) content) initial_parser = Inr p" and fin: "finish_schema p = Inr sc"
    using assms(1) by (auto simp: LoadSchemaFromYaml_def split: sum.splits)
  have "\<forall>l \<in> set (getlines (CHR 0x0A) content). length l \<le> ?n" using getlines_line by fastforce
  then have "parser_ok ?n (flush_prop_def (flush_edge_shard p))" (is "parser_ok ?n ?p")
    using parse_lines_ok [OF p initial_parser_ok] by (intro flush_prop_def_ok flush_edge_shard_ok) simp
  then have ok: "\<forall>s \<in> set (sc_edge_shards (ps_schema ?p)). shard_ok ?n s \<and> sh_name s \<noteq> []"
      "shard_ok ?n (sc_node_db (ps_schema ?p))" "\<forall>d \<in> set (sc_property_defs (ps_schema ?p)). pd_name d \<noteq> []"
      "0 < sc_system_threads (ps_schema ?p)" "sc_system_threads (ps_schema ?p) < 2 ^ 31"
    by (auto simp: parser_ok_def)
  define sc1 where "sc1 = (if sh_name (sc_node_db (ps_schema ?p)) = []
    then (ps_schema ?p)\<lparr>sc_node_db := (sc_node_db (ps_schema ?p))\<lparr>sh_name := ''node_Db''\<rparr>\<rparr> else ps_schema ?p)"
  have sc: "sc_max_vertex_num (ps_schema ?p) \<noteq> 0" "sc_edge_shards (ps_schema ?p) \<noteq> []"
      "sc = (if sc_sub_property_num sc1 = 0 then sc1\<lparr>sc_sub_property_num := word_of_nat (max_columns sc1)\<rparr> else sc1)"
    using fin ok(4) by (auto simp: finish_schema_def Let_def sc1_def split: if_splits)
  have "1 \<le> max_columns sc1 \<and> max_columns sc1 \<le> ?n"
    using ok by (intro max_columns_bounds) (auto simp: sc1_def shard_ok_def)
  then have "0 < max_columns sc1" "max_columns sc1 < 2 ^ 32" using assms(2) by (auto simp: max_def split: if_splits)
  then have "unat (word_of_nat (max_columns sc1) :: u32) \<noteq> 0" by (simp add: unat_of_nat)
  then have "(word_of_nat (max_columns sc1) :: u32) \<noteq> 0" by (metis unat_0)
  then have "0 < sc_sub_property_num sc" by (simp add: sc(3) word_gt_0)
  moreover have "sc_edge_shards sc = sc_edge_shards (ps_schema ?p)" "sc_property_defs sc = sc_property_defs (ps_schema ?p)"
      "sc_system_threads sc = sc_system_threads (ps_schema ?p)" "sc_max_vertex_num sc = sc_max_vertex_num (ps_schema ?p)"
      "sh_properties (sc_node_db sc) = sh_properties (sc_node_db (ps_schema ?p))" "sh_name (sc_node_db sc) \<noteq> []"
    by (simp_all add: sc(3) sc1_def)
  ultimately show ?thesis using ok sc(1,2) by (simp add: shard_ok_def word_gt_0)
qed

definition short_schema :: string where
  "short_schema = ''max_vertex_num: 5'' @ [CHR 0x0A] @ ''edge_shards:'' @ [CHR 0x0A] @ ''- properties: [a, b]  # two'' @ [CHR 0x0A]"

lemma short_schema_loads:
  "case LoadSchemaFromYaml (Some short_schema) ''s.yaml'' True of Inl e \<Rightarrow> False
   | Inr sc \<Rightarrow> map sh_properties (sc_edge_shards sc) = [[''a'', ''b'']]"
  by code_simp

theorem loaded_schema_well_formed_witness:
  "\<exists>sc. LoadSchemaFromYaml (Some short_schema) ''s.yaml'' True = Inr sc \<and> 0 < sc_sub_property_num sc \<and>
     map sh_properties (sc_edge_shards sc) = [[''a'', ''b'']]"
proof -
  obtain sc where sc: "LoadSchemaFromYaml (Some short_schema) ''s.yaml'' True = Inr sc"
      "map sh_properties (sc_edge_shards sc) = [[''a'', ''b'']]"
    using short_schema_loads by (auto split: sum.splits)
  have "length short_schema < 2 ^ 32" by (simp add: short_schema_def)
  from loaded_schema_well_formed [OF sc(1) this] sc show ?thesis by (intro exI [of _ sc]) simp
qed

end
