(* ===== verification/SchemaRoundtrip.thy ===== *)
theory SchemaRoundtrip
  imports SchemaProps
begin

text \<open>A reference printer of schema files, and that the loader reads back what it writes.\<close>

section \<open>Definitions\<close>

text \<open>Names that need no quotes.\<close>

definition plain :: "string \<Rightarrow> bool" where
  "plain s \<longleftrightarrow> s \<noteq> [] \<and> (\<forall>c \<in> set s. \<not> isspace c \<and> c \<notin> {CHR ''#'', CHR '','', CHR 0x22, CHR 0x27})"

definition print_bool :: "bool \<Rightarrow> string" where
  "print_bool b = (if b then ''true'' else ''false'')"

fun join_items :: "string list \<Rightarrow> string" where
  "join_items [] = []"
| "join_items [x] = x"
| "join_items (x # xs) = x @ '', '' @ join_items xs"

definition print_list :: "string list \<Rightarrow> string" where
  "print_list xs = ''['' @ join_items xs @ '']''"

definition field :: "string \<Rightarrow> string \<Rightarrow> string" where
  "field k v = k @ '': '' @ v"

definition shard_fields :: "ShardSchema \<Rightarrow> string list" where
  "shard_fields s =
     [field ''properties'' (print_list (sh_properties s)), field ''memtable_size'' (to_string (unat (sh_memtable_size s))),
      field ''is_csr'' (print_bool (sh_is_csr s)), field ''csr_l0_max_sst_num'' (to_string (unat (sh_csr_l0_max_sst_num s))),
      field ''csr_l1_max_sst_num'' (to_string (unat (sh_csr_l1_max_sst_num s)))]"

definition edge_shard_lines :: "ShardSchema \<Rightarrow> string list" where
  "edge_shard_lines s = field ''- name'' (sh_name s) # shard_fields s"

definition prop_def_lines :: "PropertyDef \<Rightarrow> string list" where
  "prop_def_lines d = [field ''- name'' (pd_name d), field ''length'' (to_string (unat (pd_length d)))]"

definition schema_lines :: "Schema \<Rightarrow> string list" where
  "schema_lines sc =
     [field ''max_vertex_num'' (to_string (unat (sc_max_vertex_num sc))), field ''use_csr_disk'' (print_bool (sc_use_csr_disk sc)),
      field ''sub_property_num'' (to_string (unat (sc_sub_property_num sc))),
      field ''max_property_length'' (to_string (unat (sc_max_property_length sc))),
      field ''system_threads'' (to_string (nat (sc_system_threads sc)))] @
     ''property_defs:'' # concat (map prop_def_lines (sc_property_defs sc)) @
     ''edge_shards:'' # concat (map edge_shard_lines (sc_edge_shards sc)) @
     ''node_db:'' # field ''name'' (sh_name (sc_node_db sc)) # shard_fields (sc_node_db sc)"

definition print_schema :: "Schema \<Rightarrow> string" where
  "print_schema sc = concat (map (\<lambda>l. l @ [CHR 0x0A]) (schema_lines sc))"

definition shard_printable :: "ShardSchema \<Rightarrow> bool" where
  "shard_printable s \<longleftrightarrow> plain (sh_name s) \<and> list_all plain (sh_properties s)"

definition schema_printable :: "Schema \<Rightarrow> bool" where
  "schema_printable sc \<longleftrightarrow> sc_max_vertex_num sc \<noteq> 0 \<and> sc_sub_property_num sc \<noteq> 0 \<and> 0 < sc_system_threads sc \<and>
     sc_system_threads sc < 2 ^ 31 \<and> sc_edge_shards sc \<noteq> [] \<and> list_all shard_printable (sc_edge_shards sc) \<and>
     shard_printable (sc_node_db sc) \<and> list_all (\<lambda>d. plain (pd_name d)) (sc_property_defs sc)"

section \<open>Values\<close>

lemma decimal_snoc: "decimal (ds @ [c]) = 10 * decimal ds + (of_char c - 48)"
  by (simp add: decimal_def)

lemma decimal_to_string [simp]: "decimal (to_string n) = n"
proof (induction n rule: to_string.induct)
  case (1 n)
  have digit: "(of_char (char_of (48 + k :: nat)) :: nat) = 48 + k" if "k < 10" for k using that by simp
  show ?case
  proof (cases "n < 10")
    case True
    then show ?thesis using digit [of n] by (simp add: to_string.simps [of n] decimal_def)
  next
    case False
    then show ?thesis using 1 digit [of "n mod 10"] by (simp add: to_string.simps [of n] decimal_snoc)
  qed
qed

lemma to_string_isdigit: "c \<in> set (to_string n) \<Longrightarrow> isdigit c"
  using to_string_digits by (simp add: isdigit_def)

lemma digit_facts: "isdigit c \<Longrightarrow> \<not> isspace c \<and> c \<notin> {CHR ''-'', CHR ''+'', CHR ''#'', CHR 0x0A}"
  by (auto simp: isdigit_def isspace_def)

text \<open>A value that survives the trimming and the removal of comments.\<close>

definition value_ok :: "string \<Rightarrow> bool" where
  "value_ok v \<longleftrightarrow> v \<noteq> [] \<and> \<not> isspace (hd v) \<and> \<not> isspace (last v) \<and> CHR ''#'' \<notin> set v \<and> CHR 0x0A \<notin> set v"

lemma value_ok_to_string: "value_ok (to_string n)"
  using to_string_isdigit digit_facts to_string_nonempty [of n]
  unfolding value_ok_def by (metis hd_in_set insertCI last_in_set)

lemma value_ok_plain: "plain s \<Longrightarrow> value_ok s"
  unfolding plain_def value_ok_def by (auto simp: isspace_def)

lemma value_ok_print_bool: "value_ok (print_bool b)"
  by (simp add: print_bool_def value_ok_def isspace_def)

lemma scan_to_string: "scan_sign (to_string n) = (False, to_string n)" "takeWhile isdigit (to_string n) = to_string n"
proof -
  obtain c cs where cs: "to_string n = c # cs" using to_string_nonempty by (meson list.exhaust)
  then have "isdigit c" using to_string_isdigit by (metis list.set_intros(1))
  then show "scan_sign (to_string n) = (False, to_string n)" using digit_facts [of c] by (simp add: scan_sign_def cs)
  show "takeWhile isdigit (to_string n) = to_string n" using to_string_isdigit by (simp add: takeWhile_eq_all_conv)
qed

lemma Trim_value: "value_ok v \<Longrightarrow> Trim v = v"
  by (simp add: value_ok_def Trim_id)

lemma ParseUint64_to_string: "n < 2 ^ 64 \<Longrightarrow> ParseUint64 (to_string n) = Some (word_of_nat n)"
  using to_string_nonempty [of n]
  by (simp add: ParseUint64_def Trim_value value_ok_to_string stoull_def scan_to_string Let_def)

lemma ParseUint64_print [simp]: "ParseUint64 (to_string (unat w)) = Some w" for w :: u64
proof -
  have "unat w < 2 ^ LENGTH(64)" by (rule unsigned_less)
  then show ?thesis using ParseUint64_to_string [of "unat w"] by simp
qed

lemma ParseUint32_print [simp]: "ParseUint32 (to_string (unat w)) = Some w" for w :: u32
proof -
  have w: "unat w < 2 ^ LENGTH(32)" by (rule unsigned_less)
  have wide: "unat (ucast w :: u64) = unat w" by (simp add: unat_ucast_widen)
  then have "(ucast w :: u64) \<le> 0xFFFFFFFF" using w by (simp add: word_le_nat_alt)
  moreover have "ucast (ucast w :: u64) = w" by (rule bit_word_eqI) (auto simp: bit_ucast_iff bit_imp_le_length)
  ultimately show ?thesis
    using w ParseUint64_to_string [of "unat w"] by (simp add: ParseUint32_def not_less)
qed

lemma ParseBool_print [simp]: "ParseBool (print_bool b) = Some b"
  by (simp add: ParseBool_def Trim_value value_ok_print_bool) (simp add: print_bool_def)

lemma ParseInt_print: "0 < n \<Longrightarrow> n < 2 ^ 31 \<Longrightarrow> ParseInt (to_string (nat n)) = Some n"
  using to_string_nonempty [of "nat n"]
  by (simp add: ParseInt_def Trim_value value_ok_to_string stoi_def scan_to_string Let_def)

lemma Unquote_plain [simp]: "plain s \<Longrightarrow> Unquote s = s"
  by (cases s) (auto simp: plain_def Unquote_def)

lemma Unquote_Trim_plain: "plain s \<Longrightarrow> Unquote (Trim s) = s"
  by (simp add: Trim_value value_ok_plain)

lemma getlines_join:
  "CHR '','' \<notin> set pre \<Longrightarrow> list_all plain (x # ys) \<Longrightarrow>
   getlines (CHR '','') (pre @ join_items (x # ys)) = (pre @ x) # map ((#) (CHR '' '')) ys"
proof (induction ys arbitrary: pre x)
  case Nil
  then have "CHR '','' \<notin> set (pre @ x)" "pre @ x \<noteq> []" by (auto simp: plain_def)
  then have "takeWhile (\<lambda>c. c \<noteq> CHR '','') (pre @ x) = pre @ x" "dropWhile (\<lambda>c. c \<noteq> CHR '','') (pre @ x) = []" "pre @ x \<noteq> []"
    by (auto simp: takeWhile_eq_all_conv)
  then have "getlines (CHR '','') (pre @ x) = [pre @ x]" by (subst getlines.simps) (simp only: if_False list.case)
  then show ?case by simp
next
  case (Cons y ys)
  let ?rest = "CHR '','' # '' '' @ join_items (y # ys)"
  have x: "CHR '','' \<notin> set (pre @ x)" using Cons.prems by (auto simp: plain_def)
  have "getlines (CHR '','') ((pre @ x) @ ?rest) = (pre @ x) # getlines (CHR '','') ('' '' @ join_items (y # ys))"
    using x by (subst getlines.simps) (subst takeWhile_append2 dropWhile_append2; auto)+
  also have "getlines (CHR '','') ('' '' @ join_items (y # ys)) = ('' '' @ y) # map ((#) (CHR '' '')) ys"
    using Cons.prems by (intro Cons.IH) simp_all
  finally show ?case by simp
qed

lemma join_items_ends:
  "list_all plain (x # xs) \<Longrightarrow> join_items (x # xs) \<noteq> [] \<and> \<not> isspace (hd (join_items (x # xs))) \<and>
    \<not> isspace (last (join_items (x # xs))) \<and> CHR ''#'' \<notin> set (join_items (x # xs)) \<and> CHR 0x0A \<notin> set (join_items (x # xs))"
proof (induction xs arbitrary: x)
  case Nil
  then show ?case using value_ok_plain by (simp add: value_ok_def)
next
  case (Cons y ys)
  have x: "value_ok x" using Cons.prems value_ok_plain by simp
  then have "hd (join_items (x # y # ys)) = hd x" "last (join_items (x # y # ys)) = last (join_items (y # ys))"
    using Cons.IH [of y] Cons.prems by (simp_all add: value_ok_def)
  then show ?case using Cons.IH [of y] Cons.prems x by (simp add: value_ok_def)
qed

lemma value_ok_print_list:
  assumes "list_all plain xs"
  shows "value_ok (print_list xs)"
  using join_items_ends [of "hd xs" "tl xs"] assms
  by (cases xs) (auto simp: print_list_def value_ok_def isspace_def)

lemma ParseInlineList_print [simp]:
  assumes "list_all plain xs"
  shows "ParseInlineList (print_list xs) = xs"
proof -
  have t: "Trim (print_list xs) = ''['' @ join_items xs @ '']''"
    using Trim_value [OF value_ok_print_list [OF assms]] by (simp add: print_list_def)
  have inner: "Trim (join_items xs) = join_items xs"
    using join_items_ends [of "hd xs" "tl xs"] assms by (cases xs) (simp_all add: Trim_id)
  have "ParseInlineList (print_list xs) =
      (let out = list_items (getlines (CHR '','') (join_items xs)) in if out = [] then list_items [join_items xs] else out)"
    unfolding ParseInlineList_def t by (simp add: inner Let_def)
  moreover have "list_items (getlines (CHR '','') (join_items xs)) = xs"
  proof (cases xs)
    case Nil
    then show ?thesis by (simp add: list_items_def getlines.simps)
  next
    case (Cons y ys)
    have "map (\<lambda>t. Unquote (Trim t)) (map ((#) (CHR '' '')) ys) = ys"
      using assms Cons by (induction ys arbitrary: y xs) (auto simp: Unquote_Trim_plain)
    then have "map (\<lambda>t. Unquote (Trim t)) (getlines (CHR '','') (join_items xs)) = xs"
      using getlines_join [of "[]" y ys] assms by (simp add: Cons Unquote_Trim_plain)
    moreover have "filter (\<lambda>t. t \<noteq> []) xs = xs" using assms by (auto simp: filter_id_conv list_all_iff plain_def)
    ultimately show ?thesis by (simp add: list_items_def)
  qed
  moreover have "list_items [[]] = []" by (simp add: list_items_def Unquote_def)
  ultimately show ?thesis by (cases xs) (simp_all add: Let_def)
qed

section \<open>Lines\<close>

definition key_ok :: "string \<Rightarrow> bool" where
  "key_ok k \<longleftrightarrow> k \<noteq> [] \<and> \<not> isspace (hd k) \<and> \<not> isspace (last k) \<and> CHR ''#'' \<notin> set k \<and> CHR '':'' \<notin> set k \<and> CHR 0x0A \<notin> set k"

lemma ParseKeyValue_field:
  assumes "key_ok k" "value_ok v"
  shows "ParseKeyValue (field k v) = Some (k, v)"
proof -
  have "CHR '':'' \<notin> set k" using assms by (simp add: key_ok_def)
  then have "takeWhile (\<lambda>c. c \<noteq> CHR '':'') (field k v) = k" "dropWhile (\<lambda>c. c \<noteq> CHR '':'') (field k v) = '': '' @ v"
    unfolding field_def by (subst takeWhile_append2 dropWhile_append2; auto)+
  moreover have "Trim k = k" "Trim v = v" using assms by (auto simp: key_ok_def value_ok_def intro: Trim_id)
  ultimately show ?thesis by (simp add: ParseKeyValue_def field_def)
qed

lemma Trim_field: "key_ok k \<Longrightarrow> value_ok v \<Longrightarrow> Trim (field k v) = field k v"
  by (rule Trim_id) (simp_all add: field_def key_ok_def value_ok_def)

lemma field_not_section:
  assumes "key_ok k" "value_ok v"
  shows "field k v \<noteq> []" "field k v \<noteq> ''edge_shards:''" "field k v \<noteq> ''node_db:''" "field k v \<noteq> ''property_defs:''"
proof -
  have "snd (the (ParseKeyValue (field k v))) \<noteq> []" using assms ParseKeyValue_field [OF assms] by (simp add: value_ok_def)
  moreover have "ParseKeyValue ''edge_shards:'' = Some (''edge_shards'', [])" "ParseKeyValue ''node_db:'' = Some (''node_db'', [])"
    "ParseKeyValue ''property_defs:'' = Some (''property_defs'', [])" by code_simp+
  ultimately show "field k v \<noteq> ''edge_shards:''" "field k v \<noteq> ''node_db:''" "field k v \<noteq> ''property_defs:''"
    by (metis option.sel snd_conv)+
  show "field k v \<noteq> []" by (simp add: field_def)
qed

lemma parse_field:
  assumes "key_ok k" "value_ok v"
  shows "parse_line i (field k v) p = (case root_key i k v p of None \<Rightarrow> section_line i (field k v) p | Some r \<Rightarrow> r)"
proof -
  have "CHR ''#'' \<notin> set (field k v)" using assms by (simp add: field_def key_ok_def value_ok_def)
  then have line: "Trim (StripComment (field k v)) = field k v" by (simp add: StripComment_id Trim_field [OF assms])
  show ?thesis unfolding parse_line_def line Let_def
    using field_not_section [OF assms] ParseKeyValue_field [OF assms] by simp
qed

lemma keys_ok: "key_ok ''max_vertex_num''" "key_ok ''use_csr_disk''" "key_ok ''sub_property_num''" "key_ok ''max_property_length''"
  "key_ok ''system_threads''" "key_ok ''- name''" "key_ok ''name''" "key_ok ''length''" "key_ok ''properties''"
  "key_ok ''memtable_size''" "key_ok ''is_csr''" "key_ok ''csr_l0_max_sst_num''" "key_ok ''csr_l1_max_sst_num''"
  by code_simp+

lemma not_root_key:
  "k \<in> {''- name'', ''name'', ''length'', ''properties'', ''memtable_size'', ''is_csr'', ''csr_l0_max_sst_num'', ''csr_l1_max_sst_num''} \<Longrightarrow>
   root_key i k v p = None"
  by (auto simp: root_key_def)

lemma StartsWith_field: "key_ok k \<Longrightarrow> StartsWith (field k v) ''-'' \<longleftrightarrow> hd k = CHR ''-''"
  by (cases k) (simp_all add: StartsWith_def field_def key_ok_def)

lemmas printed_values = value_ok_to_string value_ok_print_bool value_ok_print_list value_ok_plain

lemma parse_lines_append:
  "parse_lines i (xs @ ys) p = (case parse_lines i xs p of Inl e \<Rightarrow> Inl e | Inr p' \<Rightarrow> parse_lines (i + length xs) ys p')"
  by (induction i xs p rule: parse_lines.induct) (simp_all split: sum.splits)

text \<open>One line of an open edge shard, of the node shard and of an open property definition.\<close>

lemma edge_field:
  assumes "key_ok k" "value_ok v" "hd k \<noteq> CHR ''-''" "\<And>j q. root_key j k v q = None"
    "ps_section p = kEdgeShards" "ps_edge_shard p = Some s"
  shows "parse_line i (field k v) p =
    (case shard_key ''edge_shard'' i k v s of Inl e \<Rightarrow> Inl e | Inr s \<Rightarrow> Inr (p\<lparr>ps_edge_shard := Some s\<rparr>))"
  using assms
  by (simp add: parse_field section_line_def edge_shard_line_def StartsWith_field ParseKeyValue_field split: sum.splits)

lemma node_field:
  assumes "key_ok k" "value_ok v" "\<And>j q. root_key j k v q = None" "ps_section p = kNodeDb"
  shows "parse_line i (field k v) p =
    (case shard_key ''node_db'' i k v (sc_node_db (ps_schema p)) of Inl e \<Rightarrow> Inl e
     | Inr s \<Rightarrow> Inr (p\<lparr>ps_schema := (ps_schema p)\<lparr>sc_node_db := s\<rparr>\<rparr>))"
  using assms by (simp add: parse_field section_line_def node_db_line_def ParseKeyValue_field split: sum.splits)

lemma edge_fields:
  assumes "shard_printable s" "ps_section p = kEdgeShards" "ps_edge_shard p = Some s0"
  shows "parse_lines i (shard_fields s) p = Inr (p\<lparr>ps_edge_shard := Some (s\<lparr>sh_name := sh_name s0\<rparr>)\<rparr>)"
  using assms
  by (simp add: shard_fields_def edge_field keys_ok printed_values not_root_key shard_printable_def shard_key_def set_or_error_def)

lemma node_fields:
  assumes "shard_printable s" "ps_section p = kNodeDb"
  shows "parse_lines i (shard_fields s) p =
    Inr (p\<lparr>ps_schema := (ps_schema p)\<lparr>sc_node_db := s\<lparr>sh_name := sh_name (sc_node_db (ps_schema p))\<rparr>\<rparr>\<rparr>)"
  using assms
  by (simp add: shard_fields_def node_field keys_ok printed_values not_root_key shard_printable_def shard_key_def set_or_error_def)

lemma named_item:
  assumes "value_ok v"
  shows "Trim (drop 1 (field ''- name'' v)) = field ''name'' v" "drop 1 (field ''- name'' v) \<noteq> []"
  using Trim_field [OF keys_ok(7) assms] by (simp_all add: field_def)

lemma edge_shard_read:
  assumes "shard_printable s" "ps_section p = kEdgeShards"
  shows "parse_lines i (edge_shard_lines s) p = Inr ((flush_edge_shard p)\<lparr>ps_edge_shard := Some s\<rparr>)"
proof -
  have v: "value_ok (sh_name s)" "plain (sh_name s)" using assms(1) value_ok_plain by (auto simp: shard_printable_def)
  let ?s0 = "default_EdgeShardSchema\<lparr>sh_name := sh_name s\<rparr>"
  let ?p = "(flush_edge_shard p)\<lparr>ps_edge_shard := Some ?s0\<rparr>"
  have "edge_shard_line j (field ''- name'' (sh_name s)) p = Inr ?p" for j
    using field_not_section(1) [OF keys_ok(7) v(1)] v(2)
    by (simp add: edge_shard_line_def StartsWith_field keys_ok named_item(1) [OF v(1), simplified] ParseKeyValue_field v(1) shard_key_def Let_def)
  then have first: "parse_line j (field ''- name'' (sh_name s)) p = Inr ?p" for j
    using assms(2) by (simp add: parse_field keys_ok v(1) not_root_key section_line_def)
  have "ps_section ?p = kEdgeShards" using assms(2) by (simp add: flush_edge_shard_def Let_def split: option.splits)
  then have "parse_lines j (shard_fields s) ?p = Inr ((flush_edge_shard p)\<lparr>ps_edge_shard := Some s\<rparr>)" for j
    using edge_fields [OF assms(1), of ?p ?s0 j] by simp
  then show ?thesis by (simp add: edge_shard_lines_def first)
qed

lemma prop_def_read:
  assumes "plain (pd_name d)" "ps_section p = kPropertyDefs"
  shows "parse_lines i (prop_def_lines d) p = Inr ((flush_prop_def p)\<lparr>ps_prop_def := Some d\<rparr>)"
proof -
  have v: "value_ok (pd_name d)" using assms(1) value_ok_plain by auto
  let ?d0 = "default_PropertyDef\<lparr>pd_name := pd_name d\<rparr>"
  let ?p = "(flush_prop_def p)\<lparr>ps_prop_def := Some ?d0\<rparr>"
  have "prop_def_line j (field ''- name'' (pd_name d)) p = Inr ?p" for j
    using field_not_section(1) [OF keys_ok(7) v] assms(1)
    by (simp add: prop_def_line_def StartsWith_field keys_ok named_item(1) [OF v, simplified] ParseKeyValue_field v prop_def_key_def Let_def)
  then have first: "parse_line j (field ''- name'' (pd_name d)) p = Inr ?p" for j
    using assms(2) by (simp add: parse_field keys_ok v not_root_key section_line_def)
  have "ps_section ?p = kPropertyDefs" using assms(2) by (simp add: flush_prop_def_def split: option.splits)
  then have "parse_line j (field ''length'' (to_string (unat (pd_length d)))) ?p = Inr ((flush_prop_def p)\<lparr>ps_prop_def := Some d\<rparr>)" for j
    by (cases d) (simp add: parse_field keys_ok value_ok_to_string not_root_key section_line_def prop_def_line_def StartsWith_field
        ParseKeyValue_field prop_def_key_def set_or_error_def)
  then show ?thesis by (simp add: prop_def_lines_def first)
qed

section \<open>Whole files\<close>

lemma flush_edge_shard_open:
  "sh_name s \<noteq> [] \<Longrightarrow> flush_edge_shard (p\<lparr>ps_edge_shard := Some s\<rparr>) =
     p\<lparr>ps_schema := (ps_schema p)\<lparr>sc_edge_shards := sc_edge_shards (ps_schema p) @ [s]\<rparr>, ps_edge_shard := None\<rparr>"
  by (simp add: flush_edge_shard_def)

lemma flush_prop_def_open:
  "pd_name d \<noteq> [] \<Longrightarrow> flush_prop_def (p\<lparr>ps_prop_def := Some d\<rparr>) =
     p\<lparr>ps_schema := (ps_schema p)\<lparr>sc_property_defs := sc_property_defs (ps_schema p) @ [d]\<rparr>, ps_prop_def := None\<rparr>"
  by (simp add: flush_prop_def_def)

lemma flush_closed: "ps_edge_shard p = None \<Longrightarrow> flush_edge_shard p = p" "ps_prop_def p = None \<Longrightarrow> flush_prop_def p = p"
  by (simp_all add: flush_edge_shard_def flush_prop_def_def)

lemma flush_edge_shard_frame [simp]:
  "ps_section (flush_edge_shard p) = ps_section p" "ps_prop_def (flush_edge_shard p) = ps_prop_def p"
  "ps_edge_shard (flush_edge_shard p) = None"
  by (simp_all add: flush_edge_shard_def Let_def split: option.splits)

lemma flush_prop_def_frame [simp]:
  "ps_section (flush_prop_def p) = ps_section p" "ps_edge_shard (flush_prop_def p) = ps_edge_shard p"
  "ps_prop_def (flush_prop_def p) = None"
  by (simp_all add: flush_prop_def_def split: option.splits)

lemma edge_shards_read:
  assumes "list_all shard_printable ss" "ps_section p = kEdgeShards"
  shows "\<exists>p'. (\<forall>i. parse_lines i (concat (map edge_shard_lines ss)) p = Inr p') \<and> ps_prop_def p' = ps_prop_def p \<and>
    flush_edge_shard p' = (flush_edge_shard p)\<lparr>ps_schema := (ps_schema (flush_edge_shard p))
      \<lparr>sc_edge_shards := sc_edge_shards (ps_schema (flush_edge_shard p)) @ ss\<rparr>\<rparr>"
  using assms
proof (induction ss arbitrary: p)
  case (Cons s ss)
  let ?p = "(flush_edge_shard p)\<lparr>ps_edge_shard := Some s\<rparr>"
  have s: "shard_printable s" "sh_name s \<noteq> []" using Cons.prems by (auto simp: shard_printable_def plain_def)
  have "ps_section ?p = kEdgeShards" using Cons.prems by simp
  moreover have "list_all shard_printable ss" using Cons.prems by simp
  ultimately obtain p' where "\<forall>i. parse_lines i (concat (map edge_shard_lines ss)) ?p = Inr p'"
      "ps_prop_def p' = ps_prop_def ?p"
      "flush_edge_shard p' = (flush_edge_shard ?p)\<lparr>ps_schema := (ps_schema (flush_edge_shard ?p))
        \<lparr>sc_edge_shards := sc_edge_shards (ps_schema (flush_edge_shard ?p)) @ ss\<rparr>\<rparr>"
    using Cons.IH by blast
  then show ?case
    using edge_shard_read [OF s(1) Cons.prems(2)] s(2)
    by (simp add: parse_lines_append flush_edge_shard_open)
qed simp

lemma prop_defs_read:
  assumes "list_all (\<lambda>d. plain (pd_name d)) ds" "ps_section p = kPropertyDefs"
  shows "\<exists>p'. (\<forall>i. parse_lines i (concat (map prop_def_lines ds)) p = Inr p') \<and> ps_edge_shard p' = ps_edge_shard p \<and>
    flush_prop_def p' = (flush_prop_def p)\<lparr>ps_schema := (ps_schema (flush_prop_def p))
      \<lparr>sc_property_defs := sc_property_defs (ps_schema (flush_prop_def p)) @ ds\<rparr>\<rparr>"
  using assms
proof (induction ds arbitrary: p)
  case (Cons d ds)
  let ?p = "(flush_prop_def p)\<lparr>ps_prop_def := Some d\<rparr>"
  have d: "plain (pd_name d)" "pd_name d \<noteq> []" using Cons.prems by (auto simp: plain_def)
  have "ps_section ?p = kPropertyDefs" using Cons.prems by simp
  moreover have "list_all (\<lambda>d. plain (pd_name d)) ds" using Cons.prems by simp
  ultimately obtain p' where "\<forall>i. parse_lines i (concat (map prop_def_lines ds)) ?p = Inr p'"
      "ps_edge_shard p' = ps_edge_shard ?p"
      "flush_prop_def p' = (flush_prop_def ?p)\<lparr>ps_schema := (ps_schema (flush_prop_def ?p))
        \<lparr>sc_property_defs := sc_property_defs (ps_schema (flush_prop_def ?p)) @ ds\<rparr>\<rparr>"
    using Cons.IH by blast
  then show ?case
    using prop_def_read [OF d(1) Cons.prems(2)] d(2)
    by (simp add: parse_lines_append flush_prop_def_open)
qed simp

lemma section_headers:
  "parse_line i ''property_defs:'' p = Inr ((flush_prop_def (flush_edge_shard p))\<lparr>ps_section := kPropertyDefs\<rparr>)"
  "parse_line i ''edge_shards:'' p = Inr ((flush_edge_shard (flush_prop_def p))\<lparr>ps_section := kEdgeShards\<rparr>)"
  "parse_line i ''node_db:'' p = Inr ((flush_edge_shard (flush_prop_def p))\<lparr>ps_section := kNodeDb\<rparr>)"
proof -
  have "Trim (StripComment ''property_defs:'') = ''property_defs:''" "Trim (StripComment ''edge_shards:'') = ''edge_shards:''"
    "Trim (StripComment ''node_db:'') = ''node_db:''" by code_simp+
  then show "parse_line i ''property_defs:'' p = Inr ((flush_prop_def (flush_edge_shard p))\<lparr>ps_section := kPropertyDefs\<rparr>)"
    "parse_line i ''edge_shards:'' p = Inr ((flush_edge_shard (flush_prop_def p))\<lparr>ps_section := kEdgeShards\<rparr>)"
    "parse_line i ''node_db:'' p = Inr ((flush_edge_shard (flush_prop_def p))\<lparr>ps_section := kNodeDb\<rparr>)"
    by (simp_all add: parse_line_def Let_def)
qed

lemma root_fields_read:
  assumes "0 < sc_system_threads sc" "sc_system_threads sc < 2 ^ 31"
  shows "parse_lines i
     [field ''max_vertex_num'' (to_string (unat (sc_max_vertex_num sc))), field ''use_csr_disk'' (print_bool (sc_use_csr_disk sc)),
      field ''sub_property_num'' (to_string (unat (sc_sub_property_num sc))),
      field ''max_property_length'' (to_string (unat (sc_max_property_length sc))),
      field ''system_threads'' (to_string (nat (sc_system_threads sc)))] initial_parser =
    Inr (initial_parser\<lparr>ps_schema := sc\<lparr>sc_property_defs := [], sc_edge_shards := [], sc_node_db := default_NodeShardSchema\<rparr>,
      ps_has_max_vertex_num := True\<rparr>)"
  using assms ParseInt_print [OF assms]
  by (simp add: parse_field keys_ok printed_values root_key_def set_or_error_def initial_parser_def default_Schema_def)

lemma schema_lines_read:
  assumes "schema_printable sc"
  shows "\<exists>p. parse_lines 0 (schema_lines sc) initial_parser = Inr p \<and> ps_edge_shard p = None \<and> ps_prop_def p = None \<and>
    ps_has_max_vertex_num p \<and> ps_schema p = sc"
proof -
  have sc: "0 < sc_system_threads sc" "sc_system_threads sc < 2 ^ 31" "list_all shard_printable (sc_edge_shards sc)"
      "shard_printable (sc_node_db sc)" "list_all (\<lambda>d. plain (pd_name d)) (sc_property_defs sc)"
    using assms by (simp_all add: schema_printable_def)
  let ?sc0 = "sc\<lparr>sc_property_defs := [], sc_edge_shards := [], sc_node_db := default_NodeShardSchema\<rparr>"
  define p0 where "p0 = initial_parser\<lparr>ps_schema := ?sc0, ps_has_max_vertex_num := True, ps_section := kPropertyDefs\<rparr>"
  have p0: "flush_prop_def p0 = p0" "ps_edge_shard p0 = None" "ps_schema p0 = ?sc0" "ps_section p0 = kPropertyDefs"
    by (simp_all add: p0_def initial_parser_def flush_closed)
  obtain p1 where p1: "\<forall>i. parse_lines i (concat (map prop_def_lines (sc_property_defs sc))) p0 = Inr p1" "ps_edge_shard p1 = None"
      "flush_prop_def p1 = p0\<lparr>ps_schema := ?sc0\<lparr>sc_property_defs := sc_property_defs sc\<rparr>\<rparr>"
    using prop_defs_read [OF sc(5) p0(4)] unfolding p0 by auto
  define p2 where "p2 = (flush_edge_shard (flush_prop_def p1))\<lparr>ps_section := kEdgeShards\<rparr>"
  have p2': "p2 = p0\<lparr>ps_schema := ?sc0\<lparr>sc_property_defs := sc_property_defs sc\<rparr>, ps_section := kEdgeShards\<rparr>"
    using p1 p0(2) by (simp add: p2_def flush_closed)
  then have p2: "flush_edge_shard p2 = p2" "ps_section p2 = kEdgeShards" "ps_prop_def p2 = None"
    using p0(2) by (simp_all add: flush_closed) (simp add: p0_def initial_parser_def)
  obtain p3 where p3: "\<forall>i. parse_lines i (concat (map edge_shard_lines (sc_edge_shards sc))) p2 = Inr p3" "ps_prop_def p3 = None"
      "flush_edge_shard p3 = p2\<lparr>ps_schema := sc\<lparr>sc_node_db := default_NodeShardSchema\<rparr>\<rparr>"
    using edge_shards_read [OF sc(3) p2(2)] p2 by (auto simp: p2')
  define p4 where "p4 = (flush_edge_shard (flush_prop_def p3))\<lparr>ps_section := kNodeDb\<rparr>"
  have p4: "p4 = p2\<lparr>ps_schema := sc\<lparr>sc_node_db := default_NodeShardSchema\<rparr>, ps_section := kNodeDb\<rparr>"
    using p3 by (simp add: p4_def flush_closed)
  let ?p5 = "p4\<lparr>ps_schema := sc\<lparr>sc_node_db := default_NodeShardSchema\<lparr>sh_name := sh_name (sc_node_db sc)\<rparr>\<rparr>\<rparr>"
  have "parse_line i (field ''name'' (sh_name (sc_node_db sc))) p4 = Inr ?p5" for i
    using sc(4) by (simp add: node_field keys_ok printed_values not_root_key shard_printable_def shard_key_def p4)
  moreover have "parse_lines i (shard_fields (sc_node_db sc)) ?p5 = Inr (p4\<lparr>ps_schema := sc\<rparr>)" for i
    using node_fields [OF sc(4), of ?p5] by (simp add: p4)
  moreover have headers: "flush_prop_def (flush_edge_shard
      (initial_parser\<lparr>ps_schema := ?sc0, ps_has_max_vertex_num := True\<rparr>))\<lparr>ps_section := kPropertyDefs\<rparr> = p0"
    by (simp add: p0_def initial_parser_def flush_closed)
  ultimately have "parse_lines 0 (schema_lines sc) initial_parser = Inr (p4\<lparr>ps_schema := sc\<rparr>)"
    unfolding schema_lines_def parse_lines_append root_fields_read [OF sc(1,2)]
    using p1(1) p3(1) headers by (simp add: parse_lines_append section_headers flip: p2_def p4_def)
  moreover have "ps_edge_shard p4 = None" "ps_prop_def p4 = None" "ps_has_max_vertex_num p4"
    by (simp_all add: p4 p2' p0_def initial_parser_def)
  ultimately show ?thesis by auto
qed

lemma field_no_newline: "key_ok k \<Longrightarrow> value_ok v \<Longrightarrow> CHR 0x0A \<notin> set (field k v)"
  by (simp add: field_def key_ok_def value_ok_def)

lemma schema_lines_no_newline:
  assumes "schema_printable sc" "l \<in> set (schema_lines sc)"
  shows "CHR 0x0A \<notin> set l"
proof -
  have shard: "CHR 0x0A \<notin> set l" if "shard_printable s" "l \<in> set (field k (sh_name s) # shard_fields s)" "key_ok k" for s k
    using that by (auto simp: shard_fields_def shard_printable_def field_no_newline keys_ok printed_values)
  have "CHR 0x0A \<notin> set l" if "d \<in> set (sc_property_defs sc)" "l \<in> set (prop_def_lines d)" for d
    using that assms(1)
    by (auto simp: prop_def_lines_def schema_printable_def list_all_iff field_no_newline keys_ok printed_values)
  moreover have "CHR 0x0A \<notin> set l" if "s \<in> set (sc_edge_shards sc)" "l \<in> set (edge_shard_lines s)" for s
    using that assms(1) by (intro shard [of s "''- name''"] keys_ok)
      (auto simp: edge_shard_lines_def schema_printable_def list_all_iff)
  moreover have "CHR 0x0A \<notin> set l" if "l \<in> set (field ''name'' (sh_name (sc_node_db sc)) # shard_fields (sc_node_db sc))"
    using that assms(1) by (intro shard [of "sc_node_db sc" "''name''"] keys_ok) (auto simp: schema_printable_def)
  moreover have "CHR 0x0A \<notin> set l" if "l \<in> {''property_defs:'', ''edge_shards:'', ''node_db:''}" using that by auto
  ultimately show ?thesis
    using assms(2) unfolding schema_lines_def
    by (auto simp: field_no_newline keys_ok printed_values)
qed

text \<open>C29. A schema whose names need no quotes, written one key per line, is read back unchanged: every field of
  every shard and property definition, numbers of full width, and lists of any length.\<close>

theorem schema_print_load:
  assumes "schema_printable sc"
  shows "LoadSchemaFromYaml (Some (print_schema sc)) path True = Inr sc"
proof -
  have "getlines (CHR 0x0A) (print_schema sc) = schema_lines sc"
    unfolding print_schema_def by (rule getlines_lines) (use schema_lines_no_newline [OF assms] in blast)
  moreover obtain p where "parse_lines 0 (schema_lines sc) initial_parser = Inr p" "ps_edge_shard p = None" "ps_prop_def p = None"
      "ps_has_max_vertex_num p" "ps_schema p = sc"
    using schema_lines_read [OF assms] by blast
  moreover have "sh_name (sc_node_db sc) \<noteq> []" using assms by (auto simp: schema_printable_def shard_printable_def plain_def)
  ultimately show ?thesis
    using assms by (simp add: LoadSchemaFromYaml_def finish_schema_def flush_closed schema_printable_def)
qed

section \<open>Examples\<close>

definition sample_schema :: Schema where
  "sample_schema = \<lparr>sc_max_vertex_num = 0xFFFFFFFFFFFFFFFF, sc_use_csr_disk = True, sc_sub_property_num = 2,
     sc_max_property_length = 16, sc_system_threads = 4, sc_property_defs = [\<lparr>pd_name = ''weight'', pd_length = 8\<rparr>],
     sc_edge_shards = [\<lparr>sh_name = ''hot'', sh_properties = [''weight'', ''since''], sh_memtable_size = 100, sh_is_csr = True,
       sh_csr_l0_max_sst_num = 8, sh_csr_l1_max_sst_num = 10000\<rparr>],
     sc_node_db = \<lparr>sh_name = ''people'', sh_properties = [], sh_memtable_size = 0, sh_is_csr = False,
       sh_csr_l0_max_sst_num = 8, sh_csr_l1_max_sst_num = 10000\<rparr>\<rparr>"

theorem schema_print_load_witness: "LoadSchemaFromYaml (Some (print_schema sample_schema)) ''s.yaml'' True = Inr sample_schema"
proof (rule schema_print_load)
  show "schema_printable sample_schema" by code_simp
qed

text \<open>A minus sign is accepted where a count is read: the limit of \<open>- 1\<close> vertices becomes the largest 64-bit number.\<close>

theorem negative_count_accepted:
  "case LoadSchemaFromYaml (Some (''max_vertex_num: -1'' @ [CHR 0x0A] @ ''edge_shards:'' @ [CHR 0x0A] @ ''- name: e'')) ''s.yaml'' True of
     Inl e \<Rightarrow> False | Inr sc \<Rightarrow> sc_max_vertex_num sc = 0xFFFFFFFFFFFFFFFF"
  by code_simp

end
