(* ===== verification/SkipList.thy ===== *)
theory SkipList
  imports Types
begin

text \<open>
  The in-memory edge \<^verbatim>\<open>Edge_string\<close> and its order (\<^verbatim>\<open>core/graph/edge.h\<close>), and the skip list that holds
  the edges of one source (\<^verbatim>\<open>SkipList\<close>, \<^verbatim>\<open>core/neighbors.h\<close>). The nodes live in an explicit store: a
  node is its address, address 0 is \<^verbatim>\<open>head_\<close>, and a node's \<^verbatim>\<open>next_\<close> array has one entry per level of the
  node. The search loops are partial functions: a loop that does not end, and an access outside a
  node's \<^verbatim>\<open>next_\<close> array, is \<open>None\<close>. What is proved is that on a well-formed list neither happens.
\<close>

section \<open>Definitions\<close>

subsection \<open>Edges\<close>

record Edge_string =
  e_dst :: VertexId_t
  e_seq :: SequenceNumber_t
  e_marker :: bool
  e_property :: string
  e_is_out :: bool
  e_edge_type :: u8

type_synonym Edge = Edge_string

definition mk_Edge :: "VertexId_t \<Rightarrow> SequenceNumber_t \<Rightarrow> Edge" where
  "mk_Edge dst seq = \<lparr>e_dst = dst, e_seq = seq, e_marker = False, e_property = [], e_is_out = True,
     e_edge_type = 0\<rparr>"

text \<open>\<^verbatim>\<open>EdgeComparator::compare\<close>: by destination, and of one destination the newest version first.\<close>

definition compare :: "Edge \<Rightarrow> Edge \<Rightarrow> int" where
  "compare a b =
     (if e_dst a < e_dst b then - 1
      else if e_dst a > e_dst b then 1
      else if sint (e_seq a) < sint (e_seq b) then 1
      else if sint (e_seq a) > sint (e_seq b) then - 1
      else 0)"

text \<open>\<^verbatim>\<open>Edge_string::property(sub_property_id)\<close>: one column of the \<^verbatim>\<open>'|'\<close>-separated payload.\<close>

fun sub_property_loop :: "int \<Rightarrow> int \<Rightarrow> string \<Rightarrow> string \<Rightarrow> string" where
  "sub_property_loop sub_property_id now_id [] ans = ans"
| "sub_property_loop sub_property_id now_id (c # cs) ans =
     (let now_id' = (if c = CHR ''|'' then now_id + 1 else now_id);
          ans' = (if c \<noteq> CHR ''|'' \<and> now_id = sub_property_id then ans @ [c] else ans)
      in if now_id' > sub_property_id then ans'
         else sub_property_loop sub_property_id now_id' cs ans')"

definition Edge_property :: "Edge \<Rightarrow> int \<Rightarrow> string" where
  "Edge_property e sub_property_id =
     (if sub_property_id = - 1 then e_property e
      else sub_property_loop sub_property_id 0 (e_property e) [])"

subsection \<open>The node store\<close>

definition kMaxHeight :: nat where "kMaxHeight = 4"
definition kBranching :: nat where "kBranching = 4"
definition kScaledInverseBranching :: nat where "kScaledInverseBranching = 2147483647 div kBranching"

record Node =
  nd_key :: Edge
  nd_next :: "nat option list"

record SkipList =
  sl_nodes :: "Node list"
  sl_prev :: "nat list"
  sl_max_height :: nat
  sl_prev_height :: nat
  sl_size :: nat
  sl_property_size :: nat

definition new_SkipList :: SkipList where
  "new_SkipList =
     \<lparr>sl_nodes = [\<lparr>nd_key = mk_Edge 0 0, nd_next = replicate kMaxHeight None\<rparr>],
      sl_prev = replicate kMaxHeight 0, sl_max_height = 1, sl_prev_height = 1,
      sl_size = 0, sl_property_size = 0\<rparr>"

text \<open>\<^verbatim>\<open>Node::Next(n)\<close>: \<open>None\<close> is a read outside the array, \<open>Some None\<close> the null pointer.\<close>

definition Next :: "Node list \<Rightarrow> nat \<Rightarrow> nat \<Rightarrow> nat option option" where
  "Next nodes x n =
     (if x < length nodes \<and> n < length (nd_next (nodes ! x)) then Some (nd_next (nodes ! x) ! n) else None)"

definition SetNext :: "nat \<Rightarrow> nat \<Rightarrow> nat option \<Rightarrow> Node list \<Rightarrow> Node list" where
  "SetNext x n nxt nodes = nodes[x := (nodes ! x)\<lparr>nd_next := (nd_next (nodes ! x))[n := nxt]\<rparr>]"

definition KeyIsAfterNode :: "Node list \<Rightarrow> Edge \<Rightarrow> nat option \<Rightarrow> bool" where
  "KeyIsAfterNode nodes key n = (case n of None \<Rightarrow> False | Some a \<Rightarrow> compare (nd_key (nodes ! a)) key < 0)"

text \<open>\<^verbatim>\<open>RandomHeight\<close> on the values \<^verbatim>\<open>rand()\<close> returns.\<close>

fun random_height_loop :: "nat \<Rightarrow> nat list \<Rightarrow> nat" where
  "random_height_loop height [] = height"
| "random_height_loop height (r # rs) =
     (if height < kMaxHeight \<and> r < kScaledInverseBranching then random_height_loop (height + 1) rs
      else height)"

definition RandomHeight :: "nat list \<Rightarrow> nat" where
  "RandomHeight rands = random_height_loop 1 rands"

subsection \<open>Searching\<close>

partial_function (option) find_ge_loop ::
  "Node list \<Rightarrow> Edge \<Rightarrow> nat \<Rightarrow> nat \<Rightarrow> nat option \<Rightarrow> nat option option" where
  [code]: "find_ge_loop nodes key x level last_bigger =
     (case Next nodes x level of
        None \<Rightarrow> None
      | Some nxt \<Rightarrow>
          let cmp = (case nxt of None \<Rightarrow> 1
                     | Some a \<Rightarrow> if nxt = last_bigger then 1 else compare (nd_key (nodes ! a)) key)
          in if cmp = 0 \<or> (cmp > 0 \<and> level = 0) then Some nxt
             else if cmp < 0 then find_ge_loop nodes key (the nxt) level last_bigger
             else find_ge_loop nodes key x (level - 1) nxt)"

definition FindGreaterOrEqual :: "SkipList \<Rightarrow> Edge \<Rightarrow> nat option option" where
  "FindGreaterOrEqual sl key = find_ge_loop (sl_nodes sl) key 0 (sl_max_height sl - 1) None"

text \<open>\<^verbatim>\<open>FindLessThan\<close> with the array it fills; the answer is the node and the array.\<close>

partial_function (option) find_lt_loop ::
  "Node list \<Rightarrow> Edge \<Rightarrow> nat \<Rightarrow> nat \<Rightarrow> nat option \<Rightarrow> nat list \<Rightarrow> (nat \<times> nat list) option" where
  [code]: "find_lt_loop nodes key x level last_not_after prev =
     (case Next nodes x level of
        None \<Rightarrow> None
      | Some nxt \<Rightarrow>
          if nxt \<noteq> last_not_after \<and> KeyIsAfterNode nodes key nxt
          then find_lt_loop nodes key (the nxt) level last_not_after prev
          else if level = 0 then Some (x, prev[level := x])
          else find_lt_loop nodes key x (level - 1) nxt (prev[level := x]))"

definition FindLessThan :: "SkipList \<Rightarrow> Edge \<Rightarrow> nat list \<Rightarrow> (nat \<times> nat list) option" where
  "FindLessThan sl key prev = find_lt_loop (sl_nodes sl) key 0 (sl_max_height sl - 1) None prev"

partial_function (option) find_last_loop :: "Node list \<Rightarrow> nat \<Rightarrow> nat \<Rightarrow> nat option" where
  [code]: "find_last_loop nodes x level =
     (case Next nodes x level of
        None \<Rightarrow> None
      | Some None \<Rightarrow> if level = 0 then Some x else find_last_loop nodes x (level - 1)
      | Some (Some nxt) \<Rightarrow> find_last_loop nodes nxt level)"

definition FindLast :: "SkipList \<Rightarrow> nat option" where
  "FindLast sl = find_last_loop (sl_nodes sl) 0 (sl_max_height sl - 1)"

text \<open>\<^verbatim>\<open>Contains\<close>; \<open>None\<close> is a search that does not return.\<close>

definition Contains :: "SkipList \<Rightarrow> Edge \<Rightarrow> bool option" where
  "Contains sl key =
     map_option (\<lambda>x. case x of None \<Rightarrow> False | Some a \<Rightarrow> compare key (nd_key (sl_nodes sl ! a)) = 0)
       (FindGreaterOrEqual sl key)"

text \<open>The two scans behind \<^verbatim>\<open>get\<close>: the first node of the destination, and the first one of the given
  direction and type.\<close>

definition SL_get_any :: "SkipList \<Rightarrow> VertexId_t \<Rightarrow> (Status \<times> Edge option) option" where
  "SL_get_any sl dst =
     (case FindGreaterOrEqual sl (mk_Edge dst kMaxSequence) of
        None \<Rightarrow> None
      | Some None \<Rightarrow> Some (kNotFound, None)
      | Some (Some x) \<Rightarrow>
          let key = nd_key (sl_nodes sl ! x) in
          if dst = e_dst key then Some (if e_marker key then (kDelete, None) else (kOk, Some key))
          else Some (kNotFound, None))"

partial_function (option) get_scan ::
  "Node list \<Rightarrow> VertexId_t \<Rightarrow> bool \<Rightarrow> u8 \<Rightarrow> nat option \<Rightarrow> (Status \<times> Edge option) option" where
  [code]: "get_scan nodes dst is_out edge_type n =
     (case n of
        None \<Rightarrow> Some (kNotFound, None)
      | Some x \<Rightarrow>
          let key = nd_key (nodes ! x) in
          if e_dst key \<noteq> dst then Some (kNotFound, None)
          else if e_is_out key = is_out \<and> e_edge_type key = edge_type
          then Some (if e_marker key then (kDelete, None) else (kOk, Some key))
          else (case Next nodes x 0 of None \<Rightarrow> None
                | Some nxt \<Rightarrow> get_scan nodes dst is_out edge_type nxt))"

definition SL_get :: "SkipList \<Rightarrow> VertexId_t \<Rightarrow> bool \<Rightarrow> u8 \<Rightarrow> (Status \<times> Edge option) option" where
  "SL_get sl dst is_out edge_type =
     (case FindGreaterOrEqual sl (mk_Edge dst kMaxSequence) of
        None \<Rightarrow> None
      | Some n \<Rightarrow> get_scan (sl_nodes sl) dst is_out edge_type n)"

text \<open>The iterator \<^verbatim>\<open>SeekToFirst; valid; next\<close> over level 0.\<close>

partial_function (option) iterate_from :: "Node list \<Rightarrow> nat option \<Rightarrow> Edge list option" where
  [code]: "iterate_from nodes n =
     (case n of
        None \<Rightarrow> Some []
      | Some x \<Rightarrow>
          (case Next nodes x 0 of None \<Rightarrow> None
           | Some nxt \<Rightarrow>
               Option.bind (iterate_from nodes nxt) (\<lambda>es. Some (nd_key (nodes ! x) # es))))"

definition SL_iterate :: "SkipList \<Rightarrow> Edge list option" where
  "SL_iterate sl = (case Next (sl_nodes sl) 0 0 of None \<Rightarrow> None | Some n \<Rightarrow> iterate_from (sl_nodes sl) n)"

subsection \<open>Inserting\<close>

fun link_levels :: "nat \<Rightarrow> nat list \<Rightarrow> nat list \<Rightarrow> Node list \<Rightarrow> Node list option" where
  "link_levels x prev [] nodes = Some nodes"
| "link_levels x prev (i # is) nodes =
     (case Next nodes (prev ! i) i of
        None \<Rightarrow> None
      | Some nxt \<Rightarrow> link_levels x prev is (SetNext (prev ! i) i (Some x) (SetNext x i nxt nodes)))"

text \<open>Where the new key goes: the fast path for sequential insertion, else a search.\<close>

definition locate_prev :: "SkipList \<Rightarrow> Edge \<Rightarrow> nat list option" where
  "locate_prev sl key =
     (let prev = sl_prev sl in
      case Next (sl_nodes sl) (prev ! 0) 0 of
        None \<Rightarrow> None
      | Some nxt \<Rightarrow>
          if \<not> KeyIsAfterNode (sl_nodes sl) key nxt \<and>
             (prev ! 0 = 0 \<or> KeyIsAfterNode (sl_nodes sl) key (Some (prev ! 0)))
          then Some (map (\<lambda>i. if 1 \<le> i \<and> i < sl_prev_height sl then prev ! 0 else prev ! i) [0 ..< length prev])
          else map_option snd (FindLessThan sl key prev))"

definition SL_put_edge :: "nat \<Rightarrow> nat list \<Rightarrow> Edge \<Rightarrow> SkipList \<Rightarrow> SkipList option" where
  "SL_put_edge reserve_node rands key sl =
     (let height = (if sl_size sl < reserve_node then 1 else RandomHeight rands);
          x = length (sl_nodes sl);
          sl1 = sl\<lparr>sl_nodes := sl_nodes sl @ [\<lparr>nd_key = key, nd_next = replicate height None\<rparr>]\<rparr>
      in case locate_prev sl1 key of
           None \<Rightarrow> None
         | Some prev0 \<Rightarrow>
             let prev = map (\<lambda>i. if sl_max_height sl \<le> i \<and> i < height then 0 else prev0 ! i) [0 ..< length prev0]
             in case link_levels x prev [0 ..< height] (sl_nodes sl1) of
                  None \<Rightarrow> None
                | Some nodes \<Rightarrow>
                    Some \<lparr>sl_nodes = nodes, sl_prev = prev[0 := x],
                          sl_max_height = max (sl_max_height sl) height, sl_prev_height = height,
                          sl_size = sl_size sl + 1,
                          sl_property_size = sl_property_size sl + length (e_property key)\<rparr>)"

section \<open>Lemmas\<close>

subsection \<open>The order of edges\<close>

definition edge_key :: "Edge \<Rightarrow> VertexId_t \<times> int" where
  "edge_key e = (e_dst e, - sint (e_seq e))"

lemma compare_key [simp]:
  "compare a b < 0 \<longleftrightarrow> edge_key a < edge_key b"
  "0 < compare a b \<longleftrightarrow> edge_key b < edge_key a"
  "compare a b = 0 \<longleftrightarrow> edge_key a = edge_key b"
  by (auto simp: compare_def edge_key_def)

subsection \<open>Well-formed lists\<close>

definition height :: "Node list \<Rightarrow> nat \<Rightarrow> nat" where
  "height nodes a = length (nd_next (nodes ! a))"

definition nkey :: "Node list \<Rightarrow> nat \<Rightarrow> VertexId_t \<times> int" where
  "nkey nodes a = edge_key (nd_key (nodes ! a))"

text \<open>Each level links the nodes that reach it, in the order of the bottom level.\<close>

definition links_ok :: "Node list \<Rightarrow> nat list \<Rightarrow> bool" where
  "links_ok nodes ls \<longleftrightarrow>
     (\<forall>pre a post. 0 # ls = pre @ a # post \<longrightarrow>
        (\<forall>l < height nodes a. nd_next (nodes ! a) ! l = List.find (\<lambda>b. l < height nodes b) post))"

definition nodes_ok :: "Node list \<Rightarrow> nat \<Rightarrow> nat list \<Rightarrow> bool" where
  "nodes_ok nodes mh ls \<longleftrightarrow>
     1 \<le> mh \<and> mh \<le> kMaxHeight \<and> nodes \<noteq> [] \<and> height nodes 0 = kMaxHeight \<and>
     distinct (0 # ls) \<and> set ls \<subseteq> {..< length nodes} \<and>
     (\<forall>a \<in> set ls. 1 \<le> height nodes a \<and> height nodes a \<le> mh) \<and>
     sorted_wrt (\<lambda>a b. nkey nodes a \<le> nkey nodes b) ls \<and> links_ok nodes ls"

text \<open>The node at which a level is entered when everything up to \<open>pfx\<close> is skipped.\<close>

definition level_pred :: "Node list \<Rightarrow> nat list \<Rightarrow> nat \<Rightarrow> nat" where
  "level_pred nodes pfx l = last (filter (\<lambda>b. l < height nodes b) pfx)"

definition sl_ok :: "SkipList \<Rightarrow> nat list \<Rightarrow> bool" where
  "sl_ok sl ls \<longleftrightarrow>
     nodes_ok (sl_nodes sl) (sl_max_height sl) ls \<and> sl_size sl = length ls \<and>
     length (sl_prev sl) = kMaxHeight \<and> 1 \<le> sl_prev_height sl \<and> sl_prev_height sl \<le> sl_max_height sl \<and>
     (\<exists>pre post. 0 # ls = pre @ (sl_prev sl ! 0) # post \<and>
        (\<forall>i < sl_max_height sl.
           (if i < sl_prev_height sl then sl_prev sl ! 0 else sl_prev sl ! i) =
             level_pred (sl_nodes sl) (pre @ [sl_prev sl ! 0]) i))"

lemma nodes_okD:
  assumes "nodes_ok nodes mh ls"
  shows "1 \<le> mh" "mh \<le> kMaxHeight" "nodes \<noteq> []" "height nodes 0 = kMaxHeight" "distinct (0 # ls)"
    "\<And>a. a \<in> set ls \<Longrightarrow> a < length nodes" "\<And>a. a \<in> set ls \<Longrightarrow> 1 \<le> height nodes a"
    "\<And>a. a \<in> set ls \<Longrightarrow> height nodes a \<le> mh"
    "sorted_wrt (\<lambda>a b. nkey nodes a \<le> nkey nodes b) ls" "links_ok nodes ls"
  using assms by (auto simp: nodes_ok_def)

lemma Next_split:
  assumes ok: "nodes_ok nodes mh ls" and split: "0 # ls = pre @ x # post" and l: "l < height nodes x"
  shows "Next nodes x l = Some (List.find (\<lambda>b. l < height nodes b) post)"
proof -
  have "x \<in> set (0 # ls)" using split by simp
  then have "x < length nodes" using nodes_okD(3,6) [OF ok] by auto
  moreover have "nd_next (nodes ! x) ! l = List.find (\<lambda>b. l < height nodes b) post"
    using nodes_okD(10) [OF ok] split l by (auto simp: links_ok_def)
  ultimately show ?thesis using l by (simp add: Next_def height_def)
qed

lemma find_split:
  assumes "List.find P xs = Some b"
  obtains mid rest where "xs = mid @ b # rest" "\<forall>a \<in> set mid. \<not> P a" "P b"
proof -
  have "\<exists>mid rest. xs = mid @ b # rest \<and> (\<forall>a \<in> set mid. \<not> P a) \<and> P b"
    using assms
  proof (induction xs)
    case (Cons a xs)
    show ?case
    proof (cases "P a")
      case True
      with Cons.prems show ?thesis by (intro exI [of _ "[]"] exI [of _ xs]) auto
    next
      case False
      with Cons obtain mid rest where "xs = mid @ b # rest" "\<forall>a \<in> set mid. \<not> P a" "P b" by auto
      with False show ?thesis by (intro exI [of _ "a # mid"] exI [of _ rest]) auto
    qed
  qed simp
  with that show ?thesis by blast
qed

lemma find_skip: "\<forall>a \<in> set xs. \<not> P a \<Longrightarrow> List.find P (xs @ ys) = List.find P ys"
  by (induction xs) auto

subsection \<open>The searches\<close>

text \<open>Everything up to a node below the key can be skipped.\<close>

lemma skip_smaller:
  assumes ok: "nodes_ok nodes mh ls" and split: "0 # ls = pre @ x # post" and x: "x = 0 \<or> nkey nodes x < k"
  shows "ls = tl (pre @ [x]) @ post" "\<forall>a \<in> set (tl (pre @ [x])). nkey nodes a < k"
proof -
  show ls: "ls = tl (pre @ [x]) @ post" using split by (cases pre) auto
  show "\<forall>a \<in> set (tl (pre @ [x])). nkey nodes a < k"
  proof (cases pre)
    case (Cons p pre')
    with split have ls': "ls = pre' @ x # post" by simp
    then have "x \<noteq> 0" using nodes_okD(5) [OF ok] by auto
    with x have "nkey nodes x < k" by simp
    moreover have "nkey nodes a \<le> nkey nodes x" if "a \<in> set pre'" for a
      using nodes_okD(9) [OF ok] that by (auto simp: ls' sorted_wrt_append)
    ultimately show ?thesis using Cons by (auto intro: order.strict_trans1)
  qed simp
qed

lemma find_rest:
  assumes "nodes_ok nodes mh ls" "0 # ls = pre @ x # post" "x = 0 \<or> nkey nodes x < k"
  shows "List.find (\<lambda>b. k \<le> nkey nodes b) ls = List.find (\<lambda>b. k \<le> nkey nodes b) post"
  using skip_smaller [OF assms] find_skip [of "tl (pre @ [x])" "\<lambda>b. k \<le> nkey nodes b" post] by fastforce

lemma bottom_level:
  assumes "nodes_ok nodes mh ls" "0 # ls = pre @ x # post"
  shows "List.find (\<lambda>b. 0 < height nodes b) post = (case post of [] \<Rightarrow> None | b # _ \<Rightarrow> Some b)"
proof (cases post)
  case (Cons b post')
  then have "b \<in> set ls" using assms(2) by (cases pre) auto
  with nodes_okD(7) [OF assms(1)] Cons show ?thesis by fastforce
qed simp

lemma find_ge_loop_ok:
  assumes ok: "nodes_ok nodes mh ls"
    and "0 # ls = pre @ x # post" "level < height nodes x" "x = 0 \<or> nkey nodes x < edge_key key"
    "\<forall>b. last_bigger = Some b \<longrightarrow> edge_key key < nkey nodes b"
  shows "\<exists>r. find_ge_loop nodes key x level last_bigger = Some r \<and>
    (r = List.find (\<lambda>b. edge_key key \<le> nkey nodes b) ls \<or> (\<exists>b \<in> set ls. r = Some b \<and> nkey nodes b = edge_key key))"
  using assms(2-)
proof (induction "level + length post" arbitrary: pre x post level last_bigger rule: less_induct)
  case less
  note nxt = Next_split [OF ok less.prems(1,2)] and rest = find_rest [OF ok less.prems(1,3)]
  have down: ?case if big: "\<forall>b. List.find (\<lambda>b. level < height nodes b) post = Some b \<longrightarrow> edge_key key < nkey nodes b"
      and step: "find_ge_loop nodes key x level last_bigger =
        (if level = 0 then Some (List.find (\<lambda>b. level < height nodes b) post)
         else find_ge_loop nodes key x (level - 1) (List.find (\<lambda>b. level < height nodes b) post))"
  proof (cases "level = 0")
    case True
    with step big bottom_level [OF ok less.prems(1)] rest show ?thesis
      by (cases post) (auto simp: less_imp_le)
  next
    case False
    with step less.hyps [of "level - 1" post pre x "List.find (\<lambda>b. level < height nodes b) post"] less.prems big
    show ?thesis by auto
  qed
  show ?case
  proof (cases "List.find (\<lambda>b. level < height nodes b) post")
    case None
    with nxt have "find_ge_loop nodes key x level last_bigger =
        (if level = 0 then Some None else find_ge_loop nodes key x (level - 1) None)"
      by (subst find_ge_loop.simps) simp
    with None show ?thesis by (intro down) auto
  next
    case (Some b)
    from Some obtain mid post' where post: "post = mid @ b # post'" "level < height nodes b"
      by (rule find_split) auto
    have b: "b \<in> set ls" using post less.prems(1) by (cases pre) auto
    consider "edge_key key < nkey nodes b" | "edge_key key = nkey nodes b" | "nkey nodes b < edge_key key"
      by (rule linorder_cases) auto
    then show ?thesis
    proof cases
      case 1
      with nxt Some have "find_ge_loop nodes key x level last_bigger =
          (if level = 0 then Some (Some b) else find_ge_loop nodes key x (level - 1) (Some b))"
        by (subst find_ge_loop.simps) (auto simp: nkey_def)
      with 1 Some show ?thesis by (intro down) auto
    next
      case 2
      with less.prems(4) have "last_bigger \<noteq> Some b" by auto
      with 2 nxt Some have "find_ge_loop nodes key x level last_bigger = Some (Some b)"
        by (subst find_ge_loop.simps) (auto simp: nkey_def)
      with 2 b show ?thesis by auto
    next
      case 3
      with less.prems(4) have "last_bigger \<noteq> Some b" by auto
      with 3 nxt Some have "find_ge_loop nodes key x level last_bigger = find_ge_loop nodes key b level last_bigger"
        by (subst find_ge_loop.simps) (auto simp: nkey_def)
      moreover have "0 # ls = (pre @ x # mid) @ b # post'" using less.prems(1) post by simp
      ultimately show ?thesis using less.hyps [of level post' "pre @ x # mid" b last_bigger] 3 post less.prems(4) by simp
    qed
  qed
qed

lemma FindGreaterOrEqual_ok:
  assumes "nodes_ok (sl_nodes sl) (sl_max_height sl) ls"
  shows "\<exists>r. FindGreaterOrEqual sl key = Some r \<and>
    (r = List.find (\<lambda>b. edge_key key \<le> nkey (sl_nodes sl) b) ls \<or>
     (\<exists>b \<in> set ls. r = Some b \<and> nkey (sl_nodes sl) b = edge_key key))"
  unfolding FindGreaterOrEqual_def
  by (rule find_ge_loop_ok [OF assms, of "[]"]) (use nodes_okD(1,2,4) [OF assms] in auto)

lemma Contains_ok:
  assumes ok: "nodes_ok (sl_nodes sl) (sl_max_height sl) ls"
  shows "Contains sl key = Some (edge_key key \<in> nkey (sl_nodes sl) ` set ls)"
proof -
  obtain r where r: "FindGreaterOrEqual sl key = Some r"
    "r = List.find (\<lambda>b. edge_key key \<le> nkey (sl_nodes sl) b) ls \<or>
     (\<exists>b \<in> set ls. r = Some b \<and> nkey (sl_nodes sl) b = edge_key key)"
    using FindGreaterOrEqual_ok [OF ok] by blast
  have "(case r of None \<Rightarrow> False | Some a \<Rightarrow> edge_key key = nkey (sl_nodes sl) a) \<longleftrightarrow>
      edge_key key \<in> nkey (sl_nodes sl) ` set ls" if "r = List.find (\<lambda>b. edge_key key \<le> nkey (sl_nodes sl) b) ls"
  proof (cases r)
    case None
    with that show ?thesis by (auto simp: find_None_iff2)
  next
    case (Some b)
    with that obtain mid rest where ls: "ls = mid @ b # rest" "\<forall>a \<in> set mid. \<not> edge_key key \<le> nkey (sl_nodes sl) a"
      "edge_key key \<le> nkey (sl_nodes sl) b" by (metis find_split)
    have "nkey (sl_nodes sl) b \<le> nkey (sl_nodes sl) a" if "a \<in> set rest" for a
      using nodes_okD(9) [OF ok] that by (auto simp: ls(1) sorted_wrt_append)
    with ls Some show ?thesis by force
  qed
  with r show ?thesis by (auto simp: Contains_def nkey_def split: option.splits)
qed

text \<open>The nodes below a key, with the head in front.\<close>

definition below :: "Node list \<Rightarrow> nat list \<Rightarrow> VertexId_t \<times> int \<Rightarrow> nat list" where
  "below nodes ls k = 0 # takeWhile (\<lambda>b. nkey nodes b < k) ls"

lemma below_split:
  assumes "nodes_ok nodes mh ls" "0 # ls = pre @ x # post" "x = 0 \<or> nkey nodes x < k"
  shows "below nodes ls k = pre @ x # takeWhile (\<lambda>b. nkey nodes b < k) post"
proof -
  have "takeWhile (\<lambda>b. nkey nodes b < k) (tl (pre @ [x]) @ post) =
      tl (pre @ [x]) @ takeWhile (\<lambda>b. nkey nodes b < k) post"
    by (rule takeWhile_append2) (use skip_smaller(2) [OF assms] in blast)
  then have "takeWhile (\<lambda>b. nkey nodes b < k) ls = tl (pre @ [x]) @ takeWhile (\<lambda>b. nkey nodes b < k) post"
    using skip_smaller(1) [OF assms] by argo
  moreover have "pre @ [x] = 0 # tl (pre @ [x])" using assms(2) by (cases pre) auto
  ultimately show ?thesis by (simp add: below_def)
qed

lemma level_pred_stop:
  assumes ok: "nodes_ok nodes mh ls" and split: "0 # ls = pre @ x # post" and x: "x = 0 \<or> nkey nodes x < k"
    and l: "level < height nodes x"
    and stop: "\<forall>b. List.find (\<lambda>b. level < height nodes b) post = Some b \<longrightarrow> \<not> nkey nodes b < k"
  shows "level_pred nodes (below nodes ls k) level = x"
proof -
  have "filter (\<lambda>b. level < height nodes b) (takeWhile (\<lambda>b. nkey nodes b < k) post) = []"
  proof (cases "List.find (\<lambda>b. level < height nodes b) post")
    case None
    then show ?thesis by (auto simp: find_None_iff filter_empty_conv dest: set_takeWhileD)
  next
    case (Some b)
    then obtain mid rest where post: "post = mid @ b # rest" "\<forall>a \<in> set mid. \<not> level < height nodes a"
      by (rule find_split) auto
    have "takeWhile (\<lambda>b. nkey nodes b < k) post = takeWhile (\<lambda>b. nkey nodes b < k) mid"
      using stop Some by (simp add: post takeWhile_tail)
    with post(2) show ?thesis by (auto simp: filter_empty_conv dest: set_takeWhileD)
  qed
  with l show ?thesis by (simp add: below_split [OF ok split x] level_pred_def)
qed

lemma find_lt_loop_ok:
  assumes ok: "nodes_ok nodes mh ls"
    and "0 # ls = pre @ x # post" "level < height nodes x" "x = 0 \<or> nkey nodes x < edge_key key"
    "\<forall>b. last_not_after = Some b \<longrightarrow> \<not> nkey nodes b < edge_key key" "level < length prev"
  shows "\<exists>prev'. find_lt_loop nodes key x level last_not_after prev =
      Some (level_pred nodes (below nodes ls (edge_key key)) 0, prev') \<and> length prev' = length prev \<and>
    (\<forall>l \<le> level. prev' ! l = level_pred nodes (below nodes ls (edge_key key)) l) \<and>
    (\<forall>l > level. prev' ! l = prev ! l)"
  using assms(2-)
proof (induction "level + length post" arbitrary: pre x post level last_not_after prev rule: less_induct)
  case less
  define nxt where "nxt = List.find (\<lambda>b. level < height nodes b) post"
  note next_eq = Next_split [OF ok less.prems(1,2), folded nxt_def]
  show ?case
  proof (cases "\<exists>b. nxt = Some b \<and> nkey nodes b < edge_key key")
    case True
    then obtain b where b: "nxt = Some b" "nkey nodes b < edge_key key" by blast
    from b(1) obtain mid post' where post: "post = mid @ b # post'" "level < height nodes b"
      unfolding nxt_def by (rule find_split) auto
    have "find_lt_loop nodes key x level last_not_after prev = find_lt_loop nodes key b level last_not_after prev"
      using next_eq b less.prems(4) by (subst find_lt_loop.simps) (auto simp: KeyIsAfterNode_def nkey_def)
    moreover have "0 # ls = (pre @ x # mid) @ b # post'" using less.prems(1) post by simp
    ultimately show ?thesis
      using less.hyps [of level post' "pre @ x # mid" b last_not_after prev] b post less.prems(4,5) by simp
  next
    case False
    then have stop: "\<forall>b. nxt = Some b \<longrightarrow> \<not> nkey nodes b < edge_key key" by blast
    have x: "level_pred nodes (below nodes ls (edge_key key)) level = x"
      by (rule level_pred_stop [OF ok less.prems(1,3,2) stop [unfolded nxt_def]])
    have step: "find_lt_loop nodes key x level last_not_after prev =
        (if level = 0 then Some (x, prev[level := x]) else find_lt_loop nodes key x (level - 1) nxt (prev[level := x]))"
      using next_eq stop by (subst find_lt_loop.simps) (auto simp: KeyIsAfterNode_def nkey_def split: option.splits)
    show ?thesis
    proof (cases "level = 0")
      case True
      with step x less.prems(5) show ?thesis by auto
    next
      case False
      then have "level - 1 + length post < level + length post" "level - 1 < height nodes x"
        "level - 1 < length (prev[level := x])" using less.prems(2,5) by auto
      from less.hyps [OF this(1) less.prems(1) this(2) less.prems(3) stop this(3)] obtain prev' where
        p: "find_lt_loop nodes key x (level - 1) nxt (prev[level := x]) =
            Some (level_pred nodes (below nodes ls (edge_key key)) 0, prev')" "length prev' = length prev"
          "\<forall>l \<le> level - 1. prev' ! l = level_pred nodes (below nodes ls (edge_key key)) l"
          "\<forall>l > level - 1. prev' ! l = prev[level := x] ! l"
        unfolding length_list_update by blast
      have "prev' ! l = level_pred nodes (below nodes ls (edge_key key)) l" if "l \<le> level" for l
        using p(3,4) x False that less.prems(5) by (cases "l = level") auto
      with p step False show ?thesis by auto
    qed
  qed
qed

lemma FindLessThan_ok:
  assumes ok: "nodes_ok (sl_nodes sl) (sl_max_height sl) ls" and "length prev = kMaxHeight"
  shows "\<exists>prev'. FindLessThan sl key prev = Some (last (below (sl_nodes sl) ls (edge_key key)), prev') \<and>
    length prev' = kMaxHeight \<and>
    (\<forall>l < sl_max_height sl. prev' ! l = level_pred (sl_nodes sl) (below (sl_nodes sl) ls (edge_key key)) l)"
proof -
  note d = nodes_okD [OF ok]
  have "filter (\<lambda>b. 0 < height (sl_nodes sl) b) (below (sl_nodes sl) ls k) = below (sl_nodes sl) ls k" for k
    using d(4,7) by (auto simp: below_def kMaxHeight_def filter_id_conv Suc_le_eq dest!: set_takeWhileD)
  then have "level_pred (sl_nodes sl) (below (sl_nodes sl) ls k) 0 = last (below (sl_nodes sl) ls k)" for k
    by (simp add: level_pred_def)
  moreover have "\<exists>prev'. FindLessThan sl key prev =
      Some (level_pred (sl_nodes sl) (below (sl_nodes sl) ls (edge_key key)) 0, prev') \<and> length prev' = length prev \<and>
    (\<forall>l \<le> sl_max_height sl - 1. prev' ! l = level_pred (sl_nodes sl) (below (sl_nodes sl) ls (edge_key key)) l) \<and>
    (\<forall>l > sl_max_height sl - 1. prev' ! l = prev ! l)"
    unfolding FindLessThan_def
    by (rule find_lt_loop_ok [OF ok, of "[]"]) (use d assms(2) in auto)
  moreover have "l \<le> sl_max_height sl - 1 \<longleftrightarrow> l < sl_max_height sl" for l using d(1) by linarith
  ultimately show ?thesis unfolding assms(2) by auto
qed

subsection \<open>Reading\<close>

definition first_of :: "nat list \<Rightarrow> nat option" where
  "first_of post = (case post of [] \<Rightarrow> None | b # _ \<Rightarrow> Some b)"

lemma first_of_Cons: "first_of (b # post) = Some b"
  by (simp add: first_of_def)

definition sl_edges :: "Node list \<Rightarrow> nat list \<Rightarrow> Edge list" where
  "sl_edges nodes ls = map (\<lambda>a. nd_key (nodes ! a)) ls"

definition edge_match :: "VertexId_t \<Rightarrow> bool \<Rightarrow> u8 \<Rightarrow> Edge \<Rightarrow> bool" where
  "edge_match dst is_out edge_type e \<longleftrightarrow> e_dst e = dst \<and> e_is_out e = is_out \<and> e_edge_type e = edge_type"

definition lookup_result :: "Edge option \<Rightarrow> Status \<times> Edge option" where
  "lookup_result r = (case r of None \<Rightarrow> (kNotFound, None)
     | Some e \<Rightarrow> if e_marker e then (kDelete, None) else (kOk, Some e))"

lemma Next_bottom:
  assumes "nodes_ok nodes mh ls" "0 # ls = pre @ x # post"
  shows "Next nodes x 0 = Some (first_of post)"
proof -
  have "0 < height nodes x"
    using nodes_okD(4,7) [OF assms(1)] assms(2) by (cases pre) (auto simp: kMaxHeight_def Suc_le_eq)
  from Next_split [OF assms this] bottom_level [OF assms] show ?thesis by (simp add: first_of_def)
qed

lemma iterate_from_ok:
  assumes "nodes_ok nodes mh ls" "0 # ls = pre @ x # post"
  shows "iterate_from nodes (first_of post) = Some (sl_edges nodes post)"
  using assms(2)
proof (induction post arbitrary: pre x)
  case Nil
  show ?case by (subst iterate_from.simps) (simp add: first_of_def sl_edges_def)
next
  case (Cons b post)
  then have split: "0 # ls = (pre @ [x]) @ b # post" by simp
  show ?case
    using Next_bottom [OF assms(1) split] Cons.IH [OF split]
    by (subst iterate_from.simps) (simp add: first_of_def sl_edges_def)
qed

lemma SL_iterate_ok:
  assumes "nodes_ok (sl_nodes sl) mh ls"
  shows "SL_iterate sl = Some (sl_edges (sl_nodes sl) ls)"
  using Next_bottom [OF assms, of "[]" 0 ls] iterate_from_ok [OF assms, of "[]" 0 ls] by (simp add: SL_iterate_def)

lemma get_scan_ok:
  assumes ok: "nodes_ok nodes mh ls" and "0 # ls = pre @ x # post" "\<forall>b \<in> set post. dst \<le> e_dst (nd_key (nodes ! b))"
  shows "get_scan nodes dst is_out edge_type (first_of post) =
    Some (lookup_result (List.find (edge_match dst is_out edge_type) (sl_edges nodes post)))"
  using assms(2,3)
proof (induction post arbitrary: pre x)
  case Nil
  show ?case by (subst get_scan.simps) (simp add: first_of_def sl_edges_def lookup_result_def)
next
  case (Cons b post)
  then have split: "0 # ls = (pre @ [x]) @ b # post" by simp
  define e where "e = nd_key (nodes ! b)"
  show ?case
  proof (cases "e_dst e = dst")
    case True
    then have "edge_match dst is_out edge_type e \<longleftrightarrow> e_is_out e = is_out \<and> e_edge_type e = edge_type"
      by (simp add: edge_match_def)
    with True Next_bottom [OF ok split] Cons.IH [OF split] Cons.prems(2) show ?thesis
      by (subst get_scan.simps) (simp add: first_of_Cons sl_edges_def lookup_result_def e_def Let_def)
  next
    case False
    with Cons.prems(2) have gt: "dst < e_dst e" by (auto simp: e_def)
    have "nkey nodes b \<le> nkey nodes a" if "a \<in> set post" for a
      using nodes_okD(9) [OF ok] that Cons.prems(1) by (cases pre) (auto simp: sorted_wrt_append)
    with gt have "e_dst (nd_key (nodes ! a)) \<noteq> dst" if "a \<in> set post" for a
      using that by (force simp: nkey_def edge_key_def e_def)
    then have "List.find (edge_match dst is_out edge_type) (sl_edges nodes (b # post)) = None"
      using False by (auto simp: find_None_iff sl_edges_def edge_match_def e_def)
    with False show ?thesis
      by (subst get_scan.simps) (simp add: first_of_def lookup_result_def e_def)
  qed
qed

definition seqs_ok :: "Edge list \<Rightarrow> bool" where
  "seqs_ok es \<longleftrightarrow> (\<forall>e \<in> set es. sint (e_seq e) < sint kMaxSequence)"

lemma find_first_of: "List.find P ls = first_of (dropWhile (\<lambda>b. \<not> P b) ls)"
  by (induction ls) (auto simp: first_of_def)

lemma FindGreaterOrEqual_dst:
  assumes ok: "nodes_ok (sl_nodes sl) (sl_max_height sl) ls" and seqs: "seqs_ok (sl_edges (sl_nodes sl) ls)"
  obtains pre x post where "0 # ls = pre @ x # post"
    "FindGreaterOrEqual sl (mk_Edge dst kMaxSequence) = Some (first_of post)"
    "\<forall>b \<in> set post. dst \<le> e_dst (nd_key (sl_nodes sl ! b))"
    "\<forall>b \<in> set (tl (pre @ [x])). e_dst (nd_key (sl_nodes sl ! b)) < dst"
proof -
  define key where "key = mk_Edge dst kMaxSequence"
  define P where "P b \<longleftrightarrow> edge_key key \<le> nkey (sl_nodes sl) b" for b
  define A where "A = takeWhile (\<lambda>b. \<not> P b) ls"
  define B where "B = dropWhile (\<lambda>b. \<not> P b) ls"
  have ls: "ls = A @ B" by (simp add: A_def B_def)
  have seq: "sint (e_seq (nd_key (sl_nodes sl ! b))) < sint kMaxSequence" if "b \<in> set ls" for b
    using seqs that by (auto simp: seqs_ok_def sl_edges_def)
  have "nkey (sl_nodes sl) b \<noteq> edge_key key" if "b \<in> set ls" for b
    using seq [OF that] by (auto simp: nkey_def edge_key_def key_def mk_Edge_def)
  with FindGreaterOrEqual_ok [OF ok, of key] have find: "FindGreaterOrEqual sl key = Some (first_of B)"
    by (auto simp: find_first_of B_def P_def)
  have small: "e_dst (nd_key (sl_nodes sl ! b)) < dst" if "b \<in> set A" for b
  proof -
    have "\<not> P b" "b \<in> set ls" using that by (auto simp: A_def dest: set_takeWhileD)
    with seq [of b] show ?thesis by (auto simp: P_def nkey_def edge_key_def key_def mk_Edge_def)
  qed
  have big: "dst \<le> e_dst (nd_key (sl_nodes sl ! b))" if "b \<in> set B" for b
  proof (cases B)
    case (Cons c B')
    have "P c" using Cons hd_dropWhile [of "\<lambda>b. \<not> P b" ls] by (auto simp: B_def)
    moreover have "nkey (sl_nodes sl) c \<le> nkey (sl_nodes sl) b"
      using nodes_okD(9) [OF ok] that Cons by (auto simp: ls sorted_wrt_append)
    ultimately have "edge_key key \<le> nkey (sl_nodes sl) b" by (auto simp: P_def)
    then show ?thesis by (auto simp: nkey_def edge_key_def key_def mk_Edge_def less_imp_le)
  qed (use that in simp)
  have "0 # ls = butlast (0 # A) @ last (0 # A) # B" by (simp add: ls)
  with find big small that [of "butlast (0 # A)" "last (0 # A)" B] show ?thesis
    by (simp add: key_def append_butlast_last_id del: butlast.simps last.simps)
qed

lemma SL_get_ok:
  assumes ok: "nodes_ok (sl_nodes sl) (sl_max_height sl) ls" and seqs: "seqs_ok (sl_edges (sl_nodes sl) ls)"
  shows "SL_get sl dst is_out edge_type =
    Some (lookup_result (List.find (edge_match dst is_out edge_type) (sl_edges (sl_nodes sl) ls)))"
proof -
  obtain pre x post where f: "0 # ls = pre @ x # post"
    "FindGreaterOrEqual sl (mk_Edge dst kMaxSequence) = Some (first_of post)"
    "\<forall>b \<in> set post. dst \<le> e_dst (nd_key (sl_nodes sl ! b))"
    "\<forall>b \<in> set (tl (pre @ [x])). e_dst (nd_key (sl_nodes sl ! b)) < dst"
    by (rule FindGreaterOrEqual_dst [OF assms])
  have "ls = tl (pre @ [x]) @ post" using f(1) by (cases pre) auto
  then have "sl_edges (sl_nodes sl) ls = sl_edges (sl_nodes sl) (tl (pre @ [x])) @ sl_edges (sl_nodes sl) post"
    by (simp add: sl_edges_def)
  moreover have "\<forall>e \<in> set (sl_edges (sl_nodes sl) (tl (pre @ [x]))). \<not> edge_match dst is_out edge_type e"
    using f(4) by (auto simp: sl_edges_def edge_match_def)
  ultimately have "List.find (edge_match dst is_out edge_type) (sl_edges (sl_nodes sl) ls) =
      List.find (edge_match dst is_out edge_type) (sl_edges (sl_nodes sl) post)"
    by (simp only: find_skip)
  with get_scan_ok [OF ok f(1,3)] f(2) show ?thesis by (simp add: SL_get_def)
qed

subsection \<open>Inserting\<close>

lemma RandomHeight_range: "1 \<le> RandomHeight rands" "RandomHeight rands \<le> kMaxHeight"
proof -
  have "1 \<le> h \<and> h \<le> kMaxHeight \<longrightarrow> 1 \<le> random_height_loop h rs \<and> random_height_loop h rs \<le> kMaxHeight" for h rs
    by (induction h rs rule: random_height_loop.induct) auto
  from this [of 1 rands] show "1 \<le> RandomHeight rands" "RandomHeight rands \<le> kMaxHeight"
    by (auto simp: RandomHeight_def kMaxHeight_def)
qed

text \<open>A store is read only through the nodes of the list.\<close>

lemma nodes_ok_append:
  assumes "nodes_ok nodes mh ls"
  shows "nodes_ok (nodes @ new) mh ls" "below (nodes @ new) ls k = below nodes ls k"
    "set pfx \<subseteq> insert 0 (set ls) \<Longrightarrow> level_pred (nodes @ new) pfx l = level_pred nodes pfx l"
proof -
  note d = nodes_okD [OF assms]
  have old: "(nodes @ new) ! a = nodes ! a" if "a \<in> insert 0 (set ls)" for a
    using d(3,6) that by (auto simp: nth_append)
  then have h: "height (nodes @ new) a = height nodes a" and n: "nkey (nodes @ new) a = nkey nodes a"
    if "a \<in> insert 0 (set ls)" for a using that by (auto simp: height_def nkey_def)
  show "below (nodes @ new) ls k = below nodes ls k"
    using n by (auto simp: below_def cong: takeWhile_cong)
  show "set pfx \<subseteq> insert 0 (set ls) \<Longrightarrow> level_pred (nodes @ new) pfx l = level_pred nodes pfx l"
    using h by (auto simp: level_pred_def intro!: arg_cong [where f = last] filter_cong)
  have "links_ok (nodes @ new) ls"
    unfolding links_ok_def
  proof (intro allI impI)
    fix pre a post l assume split: "0 # ls = pre @ a # post" and l: "l < height (nodes @ new) a"
    have "set post \<subseteq> set ls" "a \<in> insert 0 (set ls)" using split by (cases pre; auto)+
    then have "List.find (\<lambda>b. l < height (nodes @ new) b) post = List.find (\<lambda>b. l < height nodes b) post"
      "l < height nodes a" using h l by (auto intro!: find_cong)
    with d(10) split old [OF \<open>a \<in> _\<close>]
    show "nd_next ((nodes @ new) ! a) ! l = List.find (\<lambda>b. l < height (nodes @ new) b) post"
      by (auto simp: links_ok_def)
  qed
  moreover have "sorted_wrt (\<lambda>a b. nkey (nodes @ new) a \<le> nkey (nodes @ new) b) ls"
    using d(9) by (rule sorted_wrt_mono_rel [rotated]) (simp add: n)
  ultimately show "nodes_ok (nodes @ new) mh ls"
    using d h by (auto simp: nodes_ok_def intro: less_trans trans_less_add1)
qed

text \<open>The predecessor of every level, whichever way it is found.\<close>

lemma locate_prev_ok:
  assumes ok: "sl_ok sl ls"
  shows "\<exists>prev. locate_prev sl key = Some prev \<and> length prev = kMaxHeight \<and>
    (\<forall>l < sl_max_height sl. prev ! l = level_pred (sl_nodes sl) (below (sl_nodes sl) ls (edge_key key)) l)"
proof -
  let ?N = "sl_nodes sl" and ?c = "sl_prev sl ! 0"
  have nok: "nodes_ok ?N (sl_max_height sl) ls" and len: "length (sl_prev sl) = kMaxHeight"
    using ok by (auto simp: sl_ok_def)
  obtain pre post where split: "0 # ls = pre @ ?c # post" and
    inv: "\<forall>i < sl_max_height sl. (if i < sl_prev_height sl then ?c else sl_prev sl ! i) = level_pred ?N (pre @ [?c]) i"
    using ok by (auto simp: sl_ok_def)
  note nxt = Next_bottom [OF nok split]
  show ?thesis
  proof (cases "\<not> KeyIsAfterNode ?N key (first_of post) \<and> (?c = 0 \<or> KeyIsAfterNode ?N key (Some ?c))")
    case True
    have "takeWhile (\<lambda>b. nkey ?N b < edge_key key) post = []"
      using True by (cases post) (auto simp: KeyIsAfterNode_def first_of_def nkey_def)
    moreover have "?c = 0 \<or> nkey ?N ?c < edge_key key" using True by (auto simp: KeyIsAfterNode_def nkey_def)
    ultimately have "below ?N ls (edge_key key) = pre @ [?c]" using below_split [OF nok split] by simp
    moreover have "(if 1 \<le> l \<and> l < sl_prev_height sl then ?c else sl_prev sl ! l) =
        (if l < sl_prev_height sl then ?c else sl_prev sl ! l)" for l
      using ok by (cases l) (auto simp: sl_ok_def)
    ultimately show ?thesis using inv True nxt len nodes_okD(2) [OF nok]
      by (auto simp: locate_prev_def Let_def)
  next
    case False
    with nxt have "locate_prev sl key = map_option snd (FindLessThan sl key (sl_prev sl))"
      by (auto simp: locate_prev_def Let_def)
    with FindLessThan_ok [OF nok len, of key] show ?thesis by auto
  qed
qed

lemma SetNext_simps [simp]:
  "length (SetNext x n v nodes) = length nodes"
  "nd_key (SetNext x n v nodes ! a) = nd_key (nodes ! a)"
  "height (SetNext x n v nodes) a = height nodes a"
  by (cases "x < length nodes"; simp add: SetNext_def height_def nth_list_update list_update_beyond)+

lemma SetNext_next:
  "x < length nodes \<Longrightarrow> n < height nodes x \<Longrightarrow>
   nd_next (SetNext x n v nodes ! a) ! l = (if a = x \<and> l = n then v else nd_next (nodes ! a) ! l)"
  by (simp add: SetNext_def height_def nth_list_update)

lemma link_levels_ok:
  assumes "x < length nodes" "distinct is"
    and "\<forall>i \<in> set is. prev ! i < length nodes \<and> i < height nodes (prev ! i) \<and> prev ! i \<noteq> x \<and> i < height nodes x"
  shows "\<exists>nodes'. link_levels x prev is nodes = Some nodes' \<and> length nodes' = length nodes \<and>
    (\<forall>a. nd_key (nodes' ! a) = nd_key (nodes ! a) \<and> height nodes' a = height nodes a) \<and>
    (\<forall>a l. nd_next (nodes' ! a) ! l =
      (if l \<in> set is \<and> a = x then nd_next (nodes ! (prev ! l)) ! l
       else if l \<in> set is \<and> a = prev ! l then Some x else nd_next (nodes ! a) ! l))"
  using assms
proof (induction "is" arbitrary: nodes)
  case (Cons i "is")
  define nxt where "nxt = nd_next (nodes ! (prev ! i)) ! i"
  define nodes1 where "nodes1 = SetNext (prev ! i) i (Some x) (SetNext x i nxt nodes)"
  have Next: "Next nodes (prev ! i) i = Some nxt"
    using Cons.prems(3) by (simp add: Next_def nxt_def height_def)
  have next1: "nd_next (nodes1 ! a) ! l =
      (if a = x \<and> l = i then nxt else if a = prev ! i \<and> l = i then Some x else nd_next (nodes ! a) ! l)" for a l
    using Cons.prems(1,3) by (auto simp: nodes1_def SetNext_next)
  have keep: "length nodes1 = length nodes" "nd_key (nodes1 ! a) = nd_key (nodes ! a)" "height nodes1 a = height nodes a" for a
    by (simp_all add: nodes1_def)
  have "\<exists>nodes'. link_levels x prev is nodes1 = Some nodes' \<and> length nodes' = length nodes1 \<and>
    (\<forall>a. nd_key (nodes' ! a) = nd_key (nodes1 ! a) \<and> height nodes' a = height nodes1 a) \<and>
    (\<forall>a l. nd_next (nodes' ! a) ! l =
      (if l \<in> set is \<and> a = x then nd_next (nodes1 ! (prev ! l)) ! l
       else if l \<in> set is \<and> a = prev ! l then Some x else nd_next (nodes1 ! a) ! l))"
    using Cons.prems by (intro Cons.IH) (auto simp: keep)
  then obtain nodes' where n': "link_levels x prev is nodes1 = Some nodes'" "length nodes' = length nodes1"
    "\<And>a. nd_key (nodes' ! a) = nd_key (nodes1 ! a)" "\<And>a. height nodes' a = height nodes1 a"
    "\<And>a l. nd_next (nodes' ! a) ! l =
      (if l \<in> set is \<and> a = x then nd_next (nodes1 ! (prev ! l)) ! l
       else if l \<in> set is \<and> a = prev ! l then Some x else nd_next (nodes1 ! a) ! l)"
    by blast
  have "link_levels x prev (i # is) nodes = Some nodes'" using n'(1) Next by (simp add: nodes1_def)
  moreover have "nd_next (nodes' ! a) ! l =
      (if l \<in> set (i # is) \<and> a = x then nd_next (nodes ! (prev ! l)) ! l
       else if l \<in> set (i # is) \<and> a = prev ! l then Some x else nd_next (nodes ! a) ! l)" for a l
    using Cons.prems(2,3) by (auto simp: n'(5) next1 nxt_def)
  ultimately show ?case using n'(2-4) keep by (intro exI [of _ nodes']) simp
qed simp

text \<open>Splitting a list at its last element with a property.\<close>

lemma last_filter_split:
  assumes "\<exists>b \<in> set xs. P b"
  shows "\<exists>mid rest. xs = mid @ last (filter P xs) # rest \<and> (\<forall>b \<in> set rest. \<not> P b) \<and> P (last (filter P xs))"
  using assms
proof (induction xs rule: rev_induct)
  case (snoc b xs)
  show ?case
  proof (cases "P b")
    case True
    then show ?thesis by (intro exI [of _ xs] exI [of _ "[]"]) simp
  next
    case False
    with snoc obtain mid rest where "xs = mid @ last (filter P xs) # rest" "\<forall>b \<in> set rest. \<not> P b" "P (last (filter P xs))"
      by auto
    with False show ?thesis by (intro exI [of _ mid] exI [of _ "rest @ [b]"]) simp
  qed
qed simp

lemma split_unique:
  assumes "distinct (m @ a # r)" "m @ a # r = m' @ a # r'"
  shows "m = m'" "r = r'"
proof -
  have "a \<notin> set m" "a \<notin> set r" using assms(1) by auto
  from append_Cons_eq_iff [OF this, of m' r'] assms(2) show "m = m'" "r = r'" by auto
qed

lemma find_append: "List.find P (xs @ ys) = (case List.find P xs of None \<Rightarrow> List.find P ys | Some b \<Rightarrow> Some b)"
  by (induction xs) auto

text \<open>Linking a node behind the predecessor of each of its levels keeps the levels linked.\<close>

lemma links_ok_insert:
  assumes dist: "distinct (0 # A @ x # B)" and top: "h \<le> height nodes 0" and old: "links_ok nodes (A @ B)"
    and x: "height nodes x = h"
    and heights: "\<And>a. height nodes' a = height nodes a"
    and nexts: "\<And>a l. nd_next (nodes' ! a) ! l =
      (if l < h \<and> a = x then nd_next (nodes ! (level_pred nodes (0 # A) l)) ! l
       else if l < h \<and> a = level_pred nodes (0 # A) l then Some x else nd_next (nodes ! a) ! l)"
  shows "links_ok nodes' (A @ x # B)"
  unfolding links_ok_def heights
proof (intro allI impI)
  fix pre a post l assume split: "0 # A @ x # B = pre @ a # post" and l: "l < height nodes a"
  let ?hi = "\<lambda>b. l < height nodes b" and ?p = "level_pred nodes (0 # A) l"
  have pred: "\<exists>m r. 0 # A = m @ ?p # r \<and> (\<forall>b \<in> set r. \<not> ?hi b) \<and> ?hi ?p" if "l < h"
  proof -
    have "\<exists>b \<in> set (0 # A). ?hi b" using that top by auto
    from last_filter_split [OF this] show ?thesis unfolding level_pred_def .
  qed
  have links: "nd_next (nodes ! c) ! l = List.find ?hi r" if "0 # A @ B = m @ c # r" "?hi c" for m c r
    using old that unfolding links_ok_def by blast
  have "a \<in> set (0 # A @ x # B)" by (simp add: split)
  then consider (A) "a \<in> set (0 # A)" | (x) "a = x" | (B) "a \<in> set B" by auto
  then show "nd_next (nodes' ! a) ! l = List.find ?hi post"
  proof cases
    case A
    then obtain m r where mr: "0 # A = m @ a # r" by (meson split_list)
    have all: "0 # A @ x # B = m @ a # (r @ x # B)" "0 # A @ B = m @ a # (r @ B)"
      using arg_cong [OF mr, of "\<lambda>l. l @ x # B"] arg_cong [OF mr, of "\<lambda>l. l @ B"] by simp_all
    have "distinct (m @ a # (r @ x # B))" using dist unfolding all(1) .
    moreover have "m @ a # (r @ x # B) = pre @ a # post" using split unfolding all(1) .
    ultimately have post: "post = r @ x # B" by (rule split_unique(2) [symmetric])
    have dA: "distinct (m @ a # r)" using dist unfolding mr [symmetric] by auto
    have ax: "a \<noteq> x" using A dist by auto
    have old_next: "nd_next (nodes ! a) ! l = List.find ?hi (r @ B)"
      by (rule links [OF all(2) l])
    show ?thesis
    proof (cases "l < h")
      case True
      then obtain pm pr where p: "0 # A = pm @ ?p # pr" "\<forall>b \<in> set pr. \<not> ?hi b" "?hi ?p" using pred by blast
      show ?thesis
      proof (cases "a = ?p")
        case ap: True
        then have "m @ a # r = pm @ a # pr" using p(1) mr by simp
        then have "r = pr" by (rule split_unique(2) [OF dA])
        with True p(2) ap ax x show ?thesis by (simp add: nexts post find_skip)
      next
        case False
        have "?p \<in> set r"
        proof -
          have "a \<in> set (pm @ ?p # pr)" using A p(1) by simp
          then have "a \<in> set pm" using p(2) l False by auto
          then obtain p1 p2 where "pm = p1 @ a # p2" by (meson split_list)
          then have "m @ a # r = p1 @ a # p2 @ ?p # pr" using p(1) mr by simp
          then have "r = p2 @ ?p # pr" by (rule split_unique(2) [OF dA])
          then show ?thesis by simp
        qed
        with p(3) have "List.find ?hi r \<noteq> None" by (auto simp: find_None_iff)
        with True False ax old_next show ?thesis by (auto simp: nexts post find_append)
      qed
    next
      case False
      with ax old_next x show ?thesis by (simp add: nexts post find_append split: option.split)
    qed
  next
    case x': x
    have "post = B" using split_unique(2) [of "0 # A" x B pre post] split dist unfolding x' by auto
    moreover obtain pm pr where p: "0 # A = pm @ ?p # pr" "\<forall>b \<in> set pr. \<not> ?hi b" "?hi ?p" using pred l x x' by blast
    moreover have "nd_next (nodes ! ?p) ! l = List.find ?hi (pr @ B)"
      using arg_cong [OF p(1), of "\<lambda>l. l @ B"] by (intro links [OF _ p(3)]) simp
    ultimately show ?thesis using l x x' by (simp add: nexts find_skip)
  next
    case B
    then obtain m r where mr: "B = m @ a # r" by (meson split_list)
    have all: "0 # A @ x # B = (0 # A @ x # m) @ a # r" by (simp add: mr)
    have "distinct ((0 # A @ x # m) @ a # r)" using dist unfolding all .
    moreover have "(0 # A @ x # m) @ a # r = pre @ a # post" using split unfolding all .
    ultimately have "post = r" by (rule split_unique(2) [symmetric])
    moreover have "a \<noteq> x" using B dist by auto
    moreover have "a \<noteq> ?p" if lh: "l < h"
    proof -
      from pred [OF lh] obtain pm pr where "0 # A = pm @ ?p # pr" by blast
      then have "set (0 # A) = set (pm @ ?p # pr)" by (rule arg_cong)
      then have "?p \<in> set (0 # A)" by auto
      then show ?thesis using B dist by auto
    qed
    moreover have "nd_next (nodes ! a) ! l = List.find ?hi r"
      by (rule links [OF _ l, of "0 # A @ m"]) (simp add: mr)
    ultimately show ?thesis by (auto simp: nexts)
  qed
qed

lemma sinsert_split: "sinsert lt x xs = takeWhile (\<lambda>y. lt y x) xs @ x # dropWhile (\<lambda>y. lt y x) xs"
  by (induction xs) auto

definition edge_before :: "Edge \<Rightarrow> Edge \<Rightarrow> bool" where
  "edge_before a b \<longleftrightarrow> compare a b < 0"

lemma sinsert_sl_edges:
  "sinsert edge_before e (sl_edges nodes ls) =
     sl_edges nodes (takeWhile (\<lambda>b. nkey nodes b < edge_key e) ls) @ e #
     sl_edges nodes (dropWhile (\<lambda>b. nkey nodes b < edge_key e) ls)"
  by (simp add: sinsert_split sl_edges_def edge_before_def takeWhile_map dropWhile_map comp_def nkey_def)

lemma sorted_insert:
  assumes "sorted_wrt (\<lambda>a b. f a \<le> f b) ls" "f x = (k :: 'b :: linorder)"
  shows "sorted_wrt (\<lambda>a b. f a \<le> f b) (takeWhile (\<lambda>b. f b < k) ls @ x # dropWhile (\<lambda>b. f b < k) ls)"
proof -
  define A where "A = takeWhile (\<lambda>b. f b < k) ls"
  define B where "B = dropWhile (\<lambda>b. f b < k) ls"
  have ls: "ls = A @ B" by (simp add: A_def B_def)
  have A: "f a < k" if "a \<in> set A" for a using that by (auto simp: A_def dest: set_takeWhileD)
  have B: "k \<le> f b" if "b \<in> set B" for b
  proof (cases B)
    case (Cons c B')
    have "\<not> f c < k" using Cons hd_dropWhile [of "\<lambda>b. f b < k" ls] by (auto simp: B_def)
    moreover have "f c \<le> f b" using assms(1) that Cons by (auto simp: ls sorted_wrt_append)
    ultimately show ?thesis by simp
  qed (use that in simp)
  show ?thesis
    using assms A B unfolding A_def [symmetric] B_def [symmetric]
    by (auto simp: ls sorted_wrt_append less_imp_le intro: less_imp_le [OF less_le_trans])
qed

lemma level_pred_above:
  assumes "nodes_ok nodes mh ls" "mh \<le> l" "l < kMaxHeight"
  shows "level_pred nodes (below nodes ls k) l = 0"
proof -
  have "filter (\<lambda>b. l < height nodes b) (takeWhile (\<lambda>b. nkey nodes b < k) ls) = []"
    using nodes_okD(8) [OF assms(1)] assms(2) by (auto simp: filter_empty_conv dest!: set_takeWhileD) (meson leD le_trans)
  then show ?thesis using nodes_okD(4) [OF assms(1)] assms(3) by (simp add: level_pred_def below_def)
qed

lemma level_pred_props:
  assumes ok: "nodes_ok nodes mh ls" and l: "l < kMaxHeight"
  shows "level_pred nodes (below nodes ls k) l \<in> insert 0 (set ls)"
    "l < height nodes (level_pred nodes (below nodes ls k) l)"
proof -
  let ?F = "filter (\<lambda>b. l < height nodes b) (below nodes ls k)"
  have "0 \<in> set ?F" using nodes_okD(4) [OF ok] l by (simp add: below_def)
  then have "?F \<noteq> []" by (metis list.distinct(1) list.set_cases)
  then have "last ?F \<in> set ?F" by (rule last_in_set)
  then have "last ?F \<in> set (below nodes ls k)" "l < height nodes (last ?F)" unfolding set_filter by blast+
  moreover have "set (below nodes ls k) \<subseteq> insert 0 (set ls)" by (auto simp: below_def dest: set_takeWhileD)
  ultimately show "level_pred nodes (below nodes ls k) l \<in> insert 0 (set ls)"
    "l < height nodes (level_pred nodes (below nodes ls k) l)"
    unfolding level_pred_def by blast+
qed

text \<open>The store after a node has been allocated and linked.\<close>

lemma put_nodes_ok:
  assumes ok: "nodes_ok nodes mh ls" and h: "1 \<le> h" "h \<le> kMaxHeight"
    and new: "nodes1 = nodes @ [\<lparr>nd_key = e, nd_next = replicate h None\<rparr>]"
    and prev: "\<forall>l < h. prev ! l = level_pred nodes1 (below nodes1 ls (edge_key e)) l"
    and ls': "ls' = takeWhile (\<lambda>b. nkey nodes b < edge_key e) ls @ length nodes # dropWhile (\<lambda>b. nkey nodes b < edge_key e) ls"
  shows "\<exists>nodes'. link_levels (length nodes) prev [0 ..< h] nodes1 = Some nodes' \<and>
    nodes_ok nodes' (max mh h) ls' \<and> sl_edges nodes' ls' = sinsert edge_before e (sl_edges nodes ls) \<and>
    (\<forall>a. height nodes' a = height nodes1 a) \<and> nodes_ok nodes1 mh ls"
proof -
  let ?x = "length nodes" and ?k = "edge_key e"
  define A where "A = takeWhile (\<lambda>b. nkey nodes b < ?k) ls"
  define B where "B = dropWhile (\<lambda>b. nkey nodes b < ?k) ls"
  have ls: "ls = A @ B" by (simp add: A_def B_def)
  have ls'': "ls' = A @ ?x # B" by (simp add: ls' A_def B_def)
  note d = nodes_okD [OF ok]
  have ok1: "nodes_ok nodes1 mh ls" unfolding new by (rule nodes_ok_append(1) [OF ok])
  note d1 = nodes_okD [OF ok1]
  have below: "below nodes1 ls ?k = 0 # A" unfolding new nodes_ok_append(2) [OF ok] by (simp add: below_def A_def)
  have x: "height nodes1 ?x = h" "nd_key (nodes1 ! ?x) = e" "length nodes1 = Suc ?x"
    by (simp_all add: new height_def)
  have nx: "?x \<notin> insert 0 (set ls)" using d(3,6) by auto
  have old: "nd_key (nodes1 ! a) = nd_key (nodes ! a)" if "a \<in> set ls" for a
    using d(6) [OF that] by (simp add: new nth_append)
  have pre: "\<forall>i \<in> set [0 ..< h]. prev ! i < length nodes1 \<and> i < height nodes1 (prev ! i) \<and> prev ! i \<noteq> ?x \<and> i < height nodes1 ?x"
  proof
    fix i assume "i \<in> set [0 ..< h]"
    then have i: "i < h" "i < kMaxHeight" using h by auto
    have "prev ! i \<in> insert 0 (set ls)" "i < height nodes1 (prev ! i)"
      using level_pred_props [OF ok1 i(2), of ?k] prev i(1) by simp_all
    with nx i(1) x d1(6) show "prev ! i < length nodes1 \<and> i < height nodes1 (prev ! i) \<and> prev ! i \<noteq> ?x \<and> i < height nodes1 ?x"
      by auto
  qed
  obtain nodes' where n': "link_levels ?x prev [0 ..< h] nodes1 = Some nodes'" "length nodes' = length nodes1"
    "\<And>a. nd_key (nodes' ! a) = nd_key (nodes1 ! a)" "\<And>a. height nodes' a = height nodes1 a"
    "\<And>a l. nd_next (nodes' ! a) ! l =
      (if l \<in> set [0 ..< h] \<and> a = ?x then nd_next (nodes1 ! (prev ! l)) ! l
       else if l \<in> set [0 ..< h] \<and> a = prev ! l then Some ?x else nd_next (nodes1 ! a) ! l)"
    using link_levels_ok [OF _ distinct_upt pre] x(3) by auto
  have key: "nd_key (nodes' ! a) = nd_key (nodes ! a)" "nkey nodes' a = nkey nodes a" if "a \<in> set ls" for a
    using old [OF that] by (simp_all add: nkey_def n'(3))
  have keyx: "nkey nodes' ?x = ?k" "nd_key (nodes' ! ?x) = e" using x(2) by (simp_all add: nkey_def n'(3))
  have dist: "distinct (0 # A @ ?x # B)" using d(5) nx by (auto simp: ls)
  have "links_ok nodes' (A @ ?x # B)"
  proof (rule links_ok_insert [OF dist])
    show "h \<le> height nodes1 0" using d1(4) h by simp
    show "links_ok nodes1 (A @ B)" using d1(10) by (simp add: ls)
    fix a l show "nd_next (nodes' ! a) ! l =
      (if l < h \<and> a = ?x then nd_next (nodes1 ! (level_pred nodes1 (0 # A) l)) ! l
       else if l < h \<and> a = level_pred nodes1 (0 # A) l then Some ?x else nd_next (nodes1 ! a) ! l)"
      using prev below by (auto simp: n'(5))
  qed (simp_all add: x n'(4))
  moreover have "sorted_wrt (\<lambda>a b. nkey nodes' a \<le> nkey nodes' b) (A @ ?x # B)"
  proof -
    have "A = takeWhile (\<lambda>b. nkey nodes' b < ?k) ls" "B = dropWhile (\<lambda>b. nkey nodes' b < ?k) ls"
      unfolding A_def B_def by (auto intro!: takeWhile_cong dropWhile_cong simp: key)
    moreover have "sorted_wrt (\<lambda>a b. nkey nodes' a \<le> nkey nodes' b) ls"
      using d(9) by (rule sorted_wrt_mono_rel [rotated]) (simp add: key)
    ultimately show ?thesis using sorted_insert [where f = "nkey nodes'" and x = ?x, OF _ keyx(1)] by simp
  qed
  moreover have "height nodes' 0 = kMaxHeight" "nodes' \<noteq> []" using d1(4) n'(2,4) x(3) by auto
  moreover have "1 \<le> height nodes' a \<and> height nodes' a \<le> max mh h" if "a \<in> set (A @ ?x # B)" for a
    using that d1(7,8) h x n'(4) by (auto simp: ls le_max_iff_disj)
  moreover have "set (A @ ?x # B) \<subseteq> {..< length nodes'}" using d1(6) x(3) n'(2) by (auto simp: ls)
  ultimately have "nodes_ok nodes' (max mh h) ls'"
    using dist d(1,2) h unfolding nodes_ok_def ls'' by (simp add: le_max_iff_disj)
  moreover have "sl_edges nodes' ls' = sinsert edge_before e (sl_edges nodes ls)"
    unfolding sinsert_sl_edges A_def [symmetric] B_def [symmetric] using key(1) keyx(2)
    by (simp add: ls'' sl_edges_def ls)
  ultimately show ?thesis using n'(1,4) ok1 by blast
qed

lemma SL_put_edge_ok:
  assumes ok: "sl_ok sl ls"
  shows "\<exists>sl' ls'. SL_put_edge reserve_node rands e sl = Some sl' \<and> sl_ok sl' ls' \<and>
    sl_edges (sl_nodes sl') ls' = sinsert edge_before e (sl_edges (sl_nodes sl) ls)"
proof -
  define h where "h = (if sl_size sl < reserve_node then 1 else RandomHeight rands)"
  have h: "1 \<le> h" "h \<le> kMaxHeight" using RandomHeight_range by (auto simp: h_def kMaxHeight_def)
  let ?N = "sl_nodes sl" and ?x = "length (sl_nodes sl)" and ?mh = "sl_max_height sl" and ?k = "edge_key e"
  define N1 where "N1 = ?N @ [\<lparr>nd_key = e, nd_next = replicate h None\<rparr>]"
  define sl1 where "sl1 = sl\<lparr>sl_nodes := N1\<rparr>"
  have sl1 [simp]: "sl_nodes sl1 = N1" by (simp add: sl1_def)
  have nok: "nodes_ok ?N ?mh ls" using ok by (simp add: sl_ok_def)
  note app = nodes_ok_append [OF nok, where new = "[\<lparr>nd_key = e, nd_next = replicate h None\<rparr>]", folded N1_def]
  have "sl_ok sl1 ls"
  proof -
    obtain pre post where s: "0 # ls = pre @ sl_prev sl ! 0 # post" and
      inv: "\<forall>i < ?mh. (if i < sl_prev_height sl then sl_prev sl ! 0 else sl_prev sl ! i) =
        level_pred ?N (pre @ [sl_prev sl ! 0]) i" using ok by (auto simp: sl_ok_def)
    have "set (0 # ls) = set (pre @ sl_prev sl ! 0 # post)" by (simp only: s)
    then have "set (pre @ [sl_prev sl ! 0]) \<subseteq> insert 0 (set ls)" by auto
    with inv have "\<forall>i < ?mh. (if i < sl_prev_height sl then sl_prev sl ! 0 else sl_prev sl ! i) =
        level_pred N1 (pre @ [sl_prev sl ! 0]) i" by (simp only: app(3))
    with s have "\<exists>pre post. 0 # ls = pre @ sl_prev sl ! 0 # post \<and>
        (\<forall>i < ?mh. (if i < sl_prev_height sl then sl_prev sl ! 0 else sl_prev sl ! i) =
          level_pred N1 (pre @ [sl_prev sl ! 0]) i)" by blast
    moreover have "sl_size sl = length ls" "length (sl_prev sl) = kMaxHeight" "1 \<le> sl_prev_height sl"
      "sl_prev_height sl \<le> ?mh" using ok unfolding sl_ok_def by blast+
    moreover have same: "sl_prev sl1 = sl_prev sl" "sl_max_height sl1 = ?mh" "sl_prev_height sl1 = sl_prev_height sl"
      "sl_size sl1 = sl_size sl" by (simp_all add: sl1_def)
    ultimately show ?thesis using app(1) unfolding sl_ok_def sl1 same by blast
  qed
  then obtain prev0 where p0: "locate_prev sl1 e = Some prev0" "length prev0 = kMaxHeight"
    "\<forall>l < ?mh. prev0 ! l = level_pred N1 (below N1 ls ?k) l"
    using locate_prev_ok [of sl1 ls e] by (auto simp: sl1_def)
  define prev where "prev = map (\<lambda>i. if ?mh \<le> i \<and> i < h then 0 else prev0 ! i) [0 ..< length prev0]"
  have prev: "prev ! l = level_pred N1 (below N1 ls ?k) l" if "l < max ?mh h" for l
    using that p0(2,3) level_pred_above [OF app(1)] h nodes_okD(2) [OF nok] by (auto simp: prev_def)
  define ls' where "ls' = takeWhile (\<lambda>b. nkey ?N b < ?k) ls @ ?x # dropWhile (\<lambda>b. nkey ?N b < ?k) ls"
  have "\<forall>l < h. prev ! l = level_pred N1 (below N1 ls ?k) l" using prev by simp
  from put_nodes_ok [OF nok h N1_def this ls'_def] obtain nodes where
    n: "link_levels ?x prev [0 ..< h] N1 = Some nodes" "nodes_ok nodes (max ?mh h) ls'"
      "sl_edges nodes ls' = sinsert edge_before e (sl_edges ?N ls)" "\<And>a. height nodes a = height N1 a"
    by blast
  define sl' where "sl' = \<lparr>sl_nodes = nodes, sl_prev = prev[0 := ?x], sl_max_height = max ?mh h,
     sl_prev_height = h, sl_size = sl_size sl + 1, sl_property_size = sl_property_size sl + length (e_property e)\<rparr>"
  have run: "SL_put_edge reserve_node rands e sl = Some sl'"
    using p0(1) n(1) by (simp add: SL_put_edge_def Let_def h_def [symmetric] N1_def [symmetric] sl1_def [symmetric]
        prev_def [symmetric] sl'_def)
  have x0: "prev[0 := ?x] ! 0 = ?x" using p0(2) by (simp add: prev_def kMaxHeight_def)
  have hx: "height N1 ?x = h" by (simp add: N1_def height_def)
  have below: "below N1 ls ?k = 0 # takeWhile (\<lambda>b. nkey ?N b < ?k) ls" unfolding app(2) by (simp add: below_def)
  have lp: "level_pred nodes pfx i = level_pred N1 pfx i" for pfx i by (simp add: level_pred_def n(4))
  have inv: "i < h \<longrightarrow> ?x = level_pred nodes (below N1 ls ?k @ [?x]) i"
      "\<not> i < h \<longrightarrow> i < max ?mh h \<longrightarrow> prev ! i = level_pred nodes (below N1 ls ?k @ [?x]) i" for i
    using prev [of i] unfolding lp by (auto simp: level_pred_def hx)
  have split: "0 # ls' = below N1 ls ?k @ ?x # dropWhile (\<lambda>b. nkey ?N b < ?k) ls" by (simp add: below ls'_def)
  have "length ls' = Suc (length ls)"
    by (simp add: ls'_def) (metis length_append takeWhile_dropWhile_id)
  moreover have "sl_size sl = length ls" using ok by (simp add: sl_ok_def)
  ultimately have "sl_size sl' = length ls'" by (simp add: sl'_def)
  moreover have "length (prev[0 := ?x]) = kMaxHeight" using p0(2) by (simp add: prev_def)
  ultimately have "sl_ok sl' ls'"
    unfolding sl_ok_def using n(2) h split x0 inv
    by (simp add: sl'_def) (intro exI [of _ "below N1 ls ?k"] exI [of _ "dropWhile (\<lambda>b. nkey ?N b < ?k) ls"], simp)
  with run n(3) show ?thesis by (auto simp: sl'_def)
qed

lemma new_SkipList_ok: "sl_ok new_SkipList []"
  by (auto simp: sl_ok_def nodes_ok_def links_ok_def new_SkipList_def height_def kMaxHeight_def level_pred_def
      Cons_eq_append_conv less_Suc_eq intro!: exI [of _ "[]"])

subsection \<open>The last node\<close>

lemma find_last_loop_ok:
  assumes ok: "nodes_ok nodes mh ls" and "0 # ls = pre @ x # post" "level < height nodes x"
  shows "find_last_loop nodes x level = Some (last (0 # ls))"
  using assms(2-)
proof (induction "level + length post" arbitrary: pre x post level rule: less_induct)
  case less
  note nxt = Next_split [OF ok less.prems]
  show ?case
  proof (cases "List.find (\<lambda>b. level < height nodes b) post")
    case None
    show ?thesis
    proof (cases "level = 0")
      case True
      with None bottom_level [OF ok less.prems(1)] have "post = []" by (cases post) auto
      then have "last (0 # ls) = x" by (simp add: less.prems(1))
      with None True nxt show ?thesis by (subst find_last_loop.simps) simp
    next
      case False
      with None nxt have "find_last_loop nodes x level = find_last_loop nodes x (level - 1)"
        by (subst find_last_loop.simps) simp
      with False less.hyps [of "level - 1" post pre x] less.prems show ?thesis by simp
    qed
  next
    case (Some b)
    then obtain mid post' where post: "post = mid @ b # post'" "level < height nodes b" by (rule find_split) auto
    then have "0 # ls = (pre @ x # mid) @ b # post'" using less.prems(1) by simp
    moreover have "find_last_loop nodes x level = find_last_loop nodes b level"
      using nxt Some by (subst find_last_loop.simps) simp
    ultimately show ?thesis using less.hyps [of level post' "pre @ x # mid" b] post by simp
  qed
qed

lemma FindLast_ok:
  assumes "nodes_ok (sl_nodes sl) (sl_max_height sl) ls"
  shows "FindLast sl = Some (last (0 # ls))"
  unfolding FindLast_def
  by (rule find_last_loop_ok [OF assms, of "[]"]) (use nodes_okD(1,2,4) [OF assms] in auto)

subsection \<open>Lists built by insertions\<close>

text \<open>A run of insertions: for each edge the random numbers its insertion draws.\<close>

fun SL_puts :: "nat \<Rightarrow> (nat list \<times> Edge) list \<Rightarrow> SkipList \<Rightarrow> SkipList option" where
  "SL_puts reserve_node [] sl = Some sl"
| "SL_puts reserve_node ((rands, e) # ops) sl =
     (case SL_put_edge reserve_node rands e sl of None \<Rightarrow> None
      | Some sl' \<Rightarrow> SL_puts reserve_node ops sl')"

lemma SL_puts_ok:
  assumes "sl_ok sl ls"
  shows "\<exists>sl' ls'. SL_puts reserve_node ops sl = Some sl' \<and> sl_ok sl' ls' \<and>
    sl_edges (sl_nodes sl') ls' = fold (sinsert edge_before) (map snd ops) (sl_edges (sl_nodes sl) ls)"
  using assms
proof (induction reserve_node ops sl arbitrary: ls rule: SL_puts.induct)
  case (1 reserve_node sl)
  then show ?case by auto
next
  case (2 reserve_node rands e ops sl)
  obtain sl' ls' where p: "SL_put_edge reserve_node rands e sl = Some sl'" "sl_ok sl' ls'"
    "sl_edges (sl_nodes sl') ls' = sinsert edge_before e (sl_edges (sl_nodes sl) ls)"
    using SL_put_edge_ok [OF "2.prems"] by blast
  from "2.IH" [OF p(1,2)] p(1,3) show ?case by simp
qed

lemma new_SL_puts:
  obtains sl ls where "SL_puts reserve_node ops new_SkipList = Some sl" "sl_ok sl ls"
    "sl_edges (sl_nodes sl) ls = fold (sinsert edge_before) (map snd ops) []"
  using SL_puts_ok [OF new_SkipList_ok, of reserve_node ops] by (auto simp: sl_edges_def)

lemma set_fold_sinsert: "set (fold (sinsert lt) es acc) = set es \<union> set acc"
proof (induction es arbitrary: acc)
  case (Cons e es)
  have "set (sinsert lt e acc) = insert e (set acc)" by (induction acc) auto
  with Cons show ?case by auto
qed simp


text \<open>C27. The searches of a skip list end. On every list built by insertions the three search loops, whose
  steps follow stored pointers and have no bound of their own, return for every key: the search for the
  first key not below the argument, the search for the last key below it, and the walk to the end;
  and \<^verbatim>\<open>Contains\<close> answers exactly whether an edge with that destination and sequence was inserted.\<close>

theorem skip_list_searches_end:
  assumes "SL_puts reserve_node ops new_SkipList = Some sl"
  shows "FindGreaterOrEqual sl key \<noteq> None \<and> FindLessThan sl key (sl_prev sl) \<noteq> None \<and> FindLast sl \<noteq> None \<and>
    Contains sl key = Some (\<exists>e \<in> set (map snd ops). e_dst e = e_dst key \<and> e_seq e = e_seq key)"
proof -
  obtain ls where p: "sl_ok sl ls" "sl_edges (sl_nodes sl) ls = fold (sinsert edge_before) (map snd ops) []"
    using new_SL_puts [of reserve_node ops] assms by (metis option.inject)
  then have nok: "nodes_ok (sl_nodes sl) (sl_max_height sl) ls" and len: "length (sl_prev sl) = kMaxHeight"
    by (auto simp: sl_ok_def)
  have "set (sl_edges (sl_nodes sl) ls) = set (map snd ops)" unfolding p(2) by (simp add: set_fold_sinsert)
  then have "nkey (sl_nodes sl) ` set ls = edge_key ` set (map snd ops)"
    by (metis (no_types, lifting) image_cong image_image list.set_map nkey_def sl_edges_def)
  moreover have "edge_key key \<in> edge_key ` E \<longleftrightarrow> (\<exists>e \<in> E. e_dst e = e_dst key \<and> e_seq e = e_seq key)" for E
    unfolding image_iff edge_key_def by (auto 0 4 intro: bexI [rotated])
  ultimately have "Contains sl key = Some (\<exists>e \<in> set (map snd ops). e_dst e = e_dst key \<and> e_seq e = e_seq key)"
    using Contains_ok [OF nok] by simp
  then show ?thesis using FindGreaterOrEqual_ok [OF nok, of key] FindLessThan_ok [OF nok len, of key] FindLast_ok [OF nok]
    by auto
qed

text \<open>Three edges, the second with a tower of three levels.\<close>

definition sample_puts :: "(nat list \<times> Edge) list" where
  "sample_puts = [([], mk_Edge 5 1), ([0, 0, 2147483647], mk_Edge 3 2), ([], mk_Edge 5 3)]"

theorem skip_list_searches_end_witness:
  "\<exists>sl. SL_puts 0 sample_puts new_SkipList = Some sl \<and> Contains sl (mk_Edge 5 3) = Some True \<and>
     Contains sl (mk_Edge 3 1) = Some False"
proof -
  obtain sl where sl: "SL_puts 0 sample_puts new_SkipList = Some sl"
    using SL_puts_ok [OF new_SkipList_ok] by blast
  from skip_list_searches_end [OF this, of "mk_Edge 5 3"] skip_list_searches_end [OF this, of "mk_Edge 3 1"] sl
  show ?thesis by (simp add: sample_puts_def mk_Edge_def)
qed

end
