(* ===== verification/Neighbors.thy ===== *)
theory Neighbors
  imports SkipList "HOL-Library.Multiset"
begin

text \<open>
  The adjacency list of one source in a MemTable: \<^verbatim>\<open>NewEdgeSL\<close> of \<^verbatim>\<open>core/neighbors.h\<close>, an unsorted array for
  the first \<^verbatim>\<open>FLAGS_reserve_node\<close> edges and a skip list from then on. The used part of the array is a
  list, \<^verbatim>\<open>cnt_\<close> its length; \<open>reserve_node\<close> is the flag. An operation that does not return is \<open>None\<close>.
\<close>

section \<open>Definitions\<close>

record NewEdgeSL =
  n_full :: bool
  n_dst :: "Edge list"
  n_property_size :: nat
  n_list :: "SkipList option"

definition new_NewEdgeSL :: NewEdgeSL where
  "new_NewEdgeSL = \<lparr>n_full = False, n_dst = [], n_property_size = 0, n_list = None\<rparr>"

text \<open>The move into the skip list inserts the array's edges in order; the list holds fewer than
  \<^verbatim>\<open>FLAGS_reserve_node\<close> nodes then, so these insertions draw no random height.\<close>

definition NE_put_edge :: "nat \<Rightarrow> nat list \<Rightarrow> Edge \<Rightarrow> NewEdgeSL \<Rightarrow> NewEdgeSL option" where
  "NE_put_edge reserve_node rands e ne =
     (let ps = n_property_size ne + length (e_property e) in
      if \<not> n_full ne then
        (if length (n_dst ne) = reserve_node
         then map_option (\<lambda>sl. ne\<lparr>n_full := True, n_property_size := ps, n_list := Some sl\<rparr>)
                (SL_puts reserve_node (map (Pair []) (n_dst ne) @ [(rands, e)]) new_SkipList)
         else Some (ne\<lparr>n_dst := n_dst ne @ [e], n_property_size := ps\<rparr>))
      else case n_list ne of None \<Rightarrow> None
           | Some sl \<Rightarrow> map_option (\<lambda>sl'. ne\<lparr>n_property_size := ps, n_list := Some sl'\<rparr>)
                          (SL_put_edge reserve_node rands e sl))"

text \<open>The scans of the array: from the back for a direction and a type, from the back for any edge of the
  destination, and from the front in the overload that returns a sequence without a direction.\<close>

fun array_scan :: "Edge list \<Rightarrow> VertexId_t \<Rightarrow> bool \<Rightarrow> u8 \<Rightarrow> nat \<Rightarrow> Status \<times> Edge option" where
  "array_scan arr dst is_out edge_type 0 = (kNotFound, None)"
| "array_scan arr dst is_out edge_type (Suc i) =
     (if e_dst (arr ! i) = dst \<and> e_is_out (arr ! i) = is_out \<and> e_edge_type (arr ! i) = edge_type
      then if e_marker (arr ! i) then (kDelete, None) else (kOk, Some (arr ! i))
      else array_scan arr dst is_out edge_type i)"

fun array_scan_any :: "Edge list \<Rightarrow> VertexId_t \<Rightarrow> nat \<Rightarrow> Status \<times> Edge option" where
  "array_scan_any arr dst 0 = (kNotFound, None)"
| "array_scan_any arr dst (Suc i) =
     (if e_dst (arr ! i) = dst then if e_marker (arr ! i) then (kDelete, None) else (kOk, Some (arr ! i))
      else array_scan_any arr dst i)"

fun array_scan_front :: "Edge list \<Rightarrow> VertexId_t \<Rightarrow> Status \<times> Edge option" where
  "array_scan_front [] dst = (kNotFound, None)"
| "array_scan_front (a # arr) dst =
     (if e_dst a = dst then if e_marker a then (kDelete, None) else (kOk, Some a)
      else array_scan_front arr dst)"

definition NE_get :: "NewEdgeSL \<Rightarrow> VertexId_t \<Rightarrow> bool \<Rightarrow> u8 \<Rightarrow> (Status \<times> Edge option) option" where
  "NE_get ne dst is_out edge_type =
     (if \<not> n_full ne then Some (array_scan (n_dst ne) dst is_out edge_type (length (n_dst ne)))
      else case n_list ne of None \<Rightarrow> None | Some sl \<Rightarrow> SL_get sl dst is_out edge_type)"

definition get_property_any :: "NewEdgeSL \<Rightarrow> VertexId_t \<Rightarrow> (Status \<times> Edge option) option" where
  "get_property_any ne dst =
     (if \<not> n_full ne then Some (array_scan_any (n_dst ne) dst (length (n_dst ne)))
      else case n_list ne of None \<Rightarrow> None | Some sl \<Rightarrow> SL_get_any sl dst)"

definition get_seq_any :: "NewEdgeSL \<Rightarrow> VertexId_t \<Rightarrow> (Status \<times> Edge option) option" where
  "get_seq_any ne dst =
     (if \<not> n_full ne then Some (array_scan_front (n_dst ne) dst)
      else case n_list ne of None \<Rightarrow> None | Some sl \<Rightarrow> SL_get_any sl dst)"

text \<open>\<^verbatim>\<open>get_edges\<close> on the array: a tombstone hides the entries of its destination that follow it.\<close>

fun live_edges :: "VertexId_t \<Rightarrow> bool \<Rightarrow> Edge list \<Rightarrow> Edge list" where
  "live_edges saved_key skipping [] = []"
| "live_edges saved_key skipping (a # arr) =
     (if \<not> (skipping \<and> e_dst a = saved_key)
      then if \<not> e_marker a then a # live_edges saved_key skipping arr
           else live_edges (e_dst a) True arr
      else live_edges saved_key skipping arr)"

definition array_get_edges :: "NewEdgeSL \<Rightarrow> Edge list" where
  "array_get_edges ne = live_edges kInvalidVertexId False (n_dst ne)"

text \<open>\<^verbatim>\<open>update_edge\<close> on the array: the loop does not advance its index.\<close>

partial_function (option) update_loop :: "Edge list \<Rightarrow> Edge \<Rightarrow> nat \<Rightarrow> Edge list option" where
  [code]: "update_loop arr e i =
     (if i < length arr
      then if e_dst (arr ! i) = e_dst e
           then Some (arr[i := (arr ! i)\<lparr>e_marker := e_marker e, e_seq := e_seq e, e_property := e_property e\<rparr>])
           else update_loop arr e i
      else Some arr)"

definition array_update_edge :: "Edge \<Rightarrow> NewEdgeSL \<Rightarrow> NewEdgeSL option" where
  "array_update_edge e ne = map_option (\<lambda>arr. ne\<lparr>n_dst := arr\<rparr>) (update_loop (n_dst ne) e 0)"

text \<open>\<^verbatim>\<open>sort\<close>: the array only, in the order of the skip list.\<close>

definition sort_less :: "Edge \<Rightarrow> Edge \<Rightarrow> bool" where
  "sort_less lhs rhs =
     (if e_dst lhs \<noteq> e_dst rhs then e_dst lhs < e_dst rhs else sint (e_seq lhs) > sint (e_seq rhs))"

definition sort_edges :: "NewEdgeSL \<Rightarrow> NewEdgeSL" where
  "sort_edges ne = (if \<not> n_full ne then ne\<lparr>n_dst := stable_sort sort_less (n_dst ne)\<rparr> else ne)"

definition getEdgeNum :: "NewEdgeSL \<Rightarrow> nat" where
  "getEdgeNum ne = (if \<not> n_full ne then length (n_dst ne)
     else case n_list ne of None \<Rightarrow> 0 | Some sl \<Rightarrow> sl_size sl)"

text \<open>\<^verbatim>\<open>NewEdgeSL::MemEdgeIterator\<close> from the first edge to the last.\<close>

definition NE_iterate :: "NewEdgeSL \<Rightarrow> Edge list option" where
  "NE_iterate ne = (if \<not> n_full ne then Some (n_dst ne)
     else case n_list ne of None \<Rightarrow> None | Some sl \<Rightarrow> SL_iterate sl)"

definition reset_NewEdgeSL :: "NewEdgeSL \<Rightarrow> NewEdgeSL" where
  "reset_NewEdgeSL ne = ne\<lparr>n_full := False, n_dst := [], n_property_size := 0, n_list := None\<rparr>"

text \<open>A run of insertions, each with what it draws.\<close>

fun run_puts :: "('r \<Rightarrow> Edge \<Rightarrow> 's \<Rightarrow> 's option) \<Rightarrow> ('r \<times> Edge) list \<Rightarrow> 's \<Rightarrow> 's option" where
  "run_puts put [] s = Some s"
| "run_puts put ((r, e) # ops) s = (case put r e s of None \<Rightarrow> None | Some s' \<Rightarrow> run_puts put ops s')"

section \<open>Lemmas\<close>

subsection \<open>Stores that keep every version\<close>

definition increasing :: "Edge list \<Rightarrow> bool" where
  "increasing es \<longleftrightarrow> sorted_wrt (\<lambda>a b. sint (e_seq a) < sint (e_seq b)) es \<and> seqs_ok es"

lemma increasing_snoc:
  "increasing (es @ [e]) \<longleftrightarrow>
     increasing es \<and> (\<forall>a \<in> set es. sint (e_seq a) < sint (e_seq e)) \<and> sint (e_seq e) < sint kMaxSequence"
  by (auto simp: increasing_def sorted_wrt_append seqs_ok_def)

text \<open>The contract of a store of edge versions: an insertion returns and extends the log the store stands
  for, and a lookup answers with the last version of the log when the versions arrive in order.\<close>

locale edge_log =
  fixes put :: "'r \<Rightarrow> Edge \<Rightarrow> 's \<Rightarrow> 's option"
    and lookup :: "'s \<Rightarrow> VertexId_t \<Rightarrow> bool \<Rightarrow> u8 \<Rightarrow> (Status \<times> Edge option) option"
    and holds :: "'s \<Rightarrow> Edge list \<Rightarrow> bool"
  assumes put_holds: "holds s es \<Longrightarrow> \<exists>s'. put r e s = Some s' \<and> holds s' (es @ [e])"
    and lookup_newest: "holds s es \<Longrightarrow> increasing es \<Longrightarrow>
      lookup s dst is_out et = Some (lookup_result (List.find (edge_match dst is_out et) (rev es)))"
begin

lemma run_holds:
  assumes "holds s es"
  shows "\<exists>s'. run_puts put ops s = Some s' \<and> holds s' (es @ map snd ops)"
  using assms
proof (induction ops arbitrary: s es)
  case (Cons op ops)
  obtain r e where op: "op = (r, e)" by fastforce
  obtain s' where "put r e s = Some s'" "holds s' (es @ [e])" using put_holds [OF Cons.prems] by blast
  with Cons.IH [of s' "es @ [e]"] op show ?case by auto
qed auto

lemma lookup_after_run:
  assumes "holds s []" "increasing (map snd ops)"
  shows "\<exists>s'. run_puts put ops s = Some s' \<and> holds s' (map snd ops) \<and>
    lookup s' dst is_out et = Some (lookup_result (List.find (edge_match dst is_out et) (rev (map snd ops))))"
  using run_holds [OF assms(1), of ops] lookup_newest assms(2) by fastforce

end

subsection \<open>The skip list as such a store\<close>

lemma find_sinsert_newest:
  assumes "\<forall>a \<in> set acc. sint (e_seq a) < sint (e_seq e)"
  shows "List.find (edge_match dst is_out et) (sinsert edge_before e acc) =
    (if edge_match dst is_out et e then Some e else List.find (edge_match dst is_out et) acc)"
  using assms
proof (induction acc)
  case (Cons a acc)
  have "\<not> (edge_match dst is_out et a \<and> edge_match dst is_out et e)" if "edge_before a e"
    using that Cons.prems by (auto simp: edge_before_def edge_key_def edge_match_def)
  with Cons show ?case by auto
qed simp

lemma find_fold_sinsert:
  assumes "increasing es"
  shows "List.find (edge_match dst is_out et) (fold (sinsert edge_before) es []) =
    List.find (edge_match dst is_out et) (rev es)"
  using assms
proof (induction es rule: rev_induct)
  case (snoc e es)
  have "\<forall>a \<in> set (fold (sinsert edge_before) es []). sint (e_seq a) < sint (e_seq e)"
    using snoc.prems by (simp add: increasing_snoc set_fold_sinsert)
  from find_sinsert_newest [OF this] snoc show ?case by (simp add: increasing_snoc)
qed simp

definition sl_holds :: "SkipList \<Rightarrow> Edge list \<Rightarrow> bool" where
  "sl_holds sl es \<longleftrightarrow> (\<exists>ls. sl_ok sl ls \<and> sl_edges (sl_nodes sl) ls = fold (sinsert edge_before) es [])"

lemma sl_holds_put:
  assumes "sl_holds sl es"
  shows "\<exists>sl'. SL_put_edge reserve_node rands e sl = Some sl' \<and> sl_holds sl' (es @ [e])"
proof -
  obtain ls where "sl_ok sl ls" "sl_edges (sl_nodes sl) ls = fold (sinsert edge_before) es []"
    using assms by (auto simp: sl_holds_def)
  with SL_put_edge_ok [of sl ls reserve_node rands e] show ?thesis by (auto simp: sl_holds_def)
qed

lemma sl_holds_get:
  assumes "sl_holds sl es" "increasing es"
  shows "SL_get sl dst is_out et = Some (lookup_result (List.find (edge_match dst is_out et) (rev es)))"
proof -
  obtain ls where ls: "sl_ok sl ls" "sl_edges (sl_nodes sl) ls = fold (sinsert edge_before) es []"
    using assms(1) by (auto simp: sl_holds_def)
  have "seqs_ok (sl_edges (sl_nodes sl) ls)"
    using assms(2) by (simp add: ls(2) seqs_ok_def increasing_def set_fold_sinsert)
  moreover have "nodes_ok (sl_nodes sl) (sl_max_height sl) ls" using ls(1) by (simp add: sl_ok_def)
  ultimately show ?thesis using SL_get_ok find_fold_sinsert [OF assms(2)] ls(2) by simp
qed

interpretation skip_list_log: edge_log "SL_put_edge reserve_node" SL_get sl_holds for reserve_node
  by unfold_locales (auto simp: sl_holds_put sl_holds_get)

lemma sl_holds_new: "sl_holds new_SkipList []"
  using new_SkipList_ok by (auto simp: sl_holds_def sl_edges_def)

subsection \<open>The adjacency list as such a store\<close>

lemma SL_puts_run: "SL_puts reserve_node ops sl = run_puts (SL_put_edge reserve_node) ops sl"
  by (induction reserve_node ops sl rule: SL_puts.induct) (auto split: option.splits)

definition ne_holds :: "nat \<Rightarrow> NewEdgeSL \<Rightarrow> Edge list \<Rightarrow> bool" where
  "ne_holds reserve_node ne es \<longleftrightarrow>
     (if n_full ne then \<exists>sl. n_list ne = Some sl \<and> sl_holds sl es
      else n_dst ne = es \<and> length es \<le> reserve_node)"

lemma ne_holds_put:
  assumes "ne_holds reserve_node ne es"
  shows "\<exists>ne'. NE_put_edge reserve_node rands e ne = Some ne' \<and> ne_holds reserve_node ne' (es @ [e])"
proof (cases "n_full ne")
  case True
  then obtain sl where "n_list ne = Some sl" "sl_holds sl es" using assms by (auto simp: ne_holds_def)
  with True sl_holds_put [of sl es reserve_node rands e] show ?thesis
    by (auto simp: NE_put_edge_def ne_holds_def)
next
  case False
  with assms have es: "n_dst ne = es" "length es \<le> reserve_node" by (auto simp: ne_holds_def)
  show ?thesis
  proof (cases "length es = reserve_node")
    case True
    obtain sl where "SL_puts reserve_node (map (Pair []) es @ [(rands, e)]) new_SkipList = Some sl"
      "sl_holds sl (es @ [e])"
      using skip_list_log.run_holds [OF sl_holds_new, of reserve_node "map (Pair []) es @ [(rands, e)]"]
      by (auto simp: SL_puts_run comp_def)
    with True es False show ?thesis by (auto simp: NE_put_edge_def ne_holds_def)
  next
    case neq: False
    with es False show ?thesis by (auto simp: NE_put_edge_def ne_holds_def)
  qed
qed

lemma array_scan_back:
  "n \<le> length arr \<Longrightarrow> array_scan arr dst is_out et n =
     lookup_result (List.find (edge_match dst is_out et) (rev (take n arr)))"
  by (induction n) (auto simp: take_Suc_conv_app_nth lookup_result_def edge_match_def)

lemma ne_holds_get:
  assumes "ne_holds reserve_node ne es" "increasing es"
  shows "NE_get ne dst is_out et = Some (lookup_result (List.find (edge_match dst is_out et) (rev es)))"
  using assms sl_holds_get [OF _ assms(2)]
  by (auto simp: ne_holds_def NE_get_def array_scan_back split: if_splits)

interpretation adjacency_log: edge_log "NE_put_edge reserve_node" NE_get "ne_holds reserve_node" for reserve_node
  by unfold_locales (auto simp: ne_holds_put ne_holds_get)

lemma ne_holds_new: "ne_holds reserve_node new_NewEdgeSL []"
  by (simp add: ne_holds_def new_NewEdgeSL_def)

text \<open>C25. An adjacency list answers with the newest version. When the versions of a source's edges arrive
  with increasing sequence numbers, a lookup by destination, direction and type finds the last one
  inserted, or the deletion if that one is a tombstone, and nothing if none was inserted: in the
  array, in the skip list, and across the move from one to the other, for every array size.\<close>

theorem neighbors_get_newest:
  assumes "increasing (map snd ops)"
  shows "\<exists>ne. run_puts (NE_put_edge reserve_node) ops new_NewEdgeSL = Some ne \<and>
    NE_get ne dst is_out et = Some (lookup_result (List.find (edge_match dst is_out et) (rev (map snd ops))))"
  using adjacency_log.lookup_after_run [OF ne_holds_new assms] by blast

definition sample_versions :: "(nat list \<times> Edge) list" where
  "sample_versions = [([], mk_Edge 5 1), ([], (mk_Edge 5 2)\<lparr>e_property := ''b''\<rparr>), ([0], (mk_Edge 7 3)\<lparr>e_marker := True\<rparr>)]"

theorem neighbors_get_newest_witness:
  "increasing (map snd sample_versions) \<and>
   (\<exists>ne. run_puts (NE_put_edge 2) sample_versions new_NewEdgeSL = Some ne \<and>
      NE_get ne 5 True 0 = Some (kOk, Some ((mk_Edge 5 2)\<lparr>e_property := ''b''\<rparr>)))"
proof -
  have inc: "increasing (map snd sample_versions)"
    by (simp add: increasing_def seqs_ok_def sample_versions_def mk_Edge_def kMaxSequence_def)
  from neighbors_get_newest [OF inc, of 2 5 True 0] inc show ?thesis
    by (simp add: sample_versions_def mk_Edge_def edge_match_def lookup_result_def)
qed

subsection \<open>Sorting for a flush\<close>

lemma sort_less_key: "sort_less a b \<longleftrightarrow> edge_key a < edge_key b"
  by (auto simp: sort_less_def edge_key_def)

lemma increasing_keys:
  assumes "increasing es"
  shows "inj_on edge_key (set es)" "distinct es"
proof -
  have "a = b" if ab: "a \<in> set es" "b \<in> set es" "edge_key a = edge_key b" for a b
  proof -
    obtain i where i: "i < length es" "es ! i = a" using ab(1) by (auto simp: in_set_conv_nth)
    obtain j where j: "j < length es" "es ! j = b" using ab(2) by (auto simp: in_set_conv_nth)
    have mono: "sint (e_seq (es ! k)) < sint (e_seq (es ! l))" if "k < l" "l < length es" for k l
    proof -
      have "sorted_wrt (\<lambda>a b. sint (e_seq a) < sint (e_seq b)) es" using assms by (simp add: increasing_def)
      from sorted_wrt_nth_less [OF this that] show ?thesis .
    qed
    have "sint (e_seq a) = sint (e_seq b)" using ab(3) by (simp add: edge_key_def)
    with mono [of i j] mono [of j i] i j show ?thesis by (cases i j rule: linorder_cases) auto
  qed
  then show "inj_on edge_key (set es)" by (auto simp: inj_on_def)
  show "distinct es"
    using assms unfolding increasing_def by (induction es) (auto simp: seqs_ok_def)
qed

lemma fold_sinsert_sort:
  assumes "inj_on edge_key (set es)"
  shows "fold (sinsert edge_before) es [] = sort_key edge_key es"
proof -
  have "fold (sinsert edge_before) es [] = stable_sort edge_before (rev es)"
    by (simp add: stable_sort_def foldr_conv_fold)
  also have "\<dots> = sort_key edge_key (rev es)" by (rule stable_sort_sort_key) (simp add: edge_before_def)
  also have "\<dots> = sort_key edge_key es" using assms by (intro sort_key_inj_key_eq) (simp_all add: sorted_sort_key)
  finally show ?thesis .
qed

lemma sorted_iterate:
  assumes "ne_holds reserve_node ne es" "inj_on edge_key (set es)"
  shows "NE_iterate (sort_edges ne) = Some (sort_key edge_key es)" "ne_holds reserve_node ne es \<Longrightarrow> getEdgeNum ne = length es"
proof -
  have sort: "stable_sort sort_less es = sort_key edge_key es" by (rule stable_sort_sort_key) (rule sort_less_key)
  show "NE_iterate (sort_edges ne) = Some (sort_key edge_key es)"
  proof (cases "n_full ne")
    case True
    then obtain sl ls where "n_list ne = Some sl" "sl_ok sl ls" "sl_edges (sl_nodes sl) ls = fold (sinsert edge_before) es []"
      using assms(1) by (auto simp: ne_holds_def sl_holds_def)
    with True fold_sinsert_sort [OF assms(2)] SL_iterate_ok [of sl "sl_max_height sl" ls] show ?thesis
      by (simp add: NE_iterate_def sort_edges_def sl_ok_def)
  next
    case False
    with assms(1) sort show ?thesis by (simp add: NE_iterate_def sort_edges_def ne_holds_def)
  qed
  show "getEdgeNum ne = length es"
  proof (cases "n_full ne")
    case True
    then obtain sl ls where sl: "n_list ne = Some sl" "sl_ok sl ls" "sl_edges (sl_nodes sl) ls = fold (sinsert edge_before) es []"
      using assms(1) by (auto simp: ne_holds_def sl_holds_def)
    have "length ls = length es" using arg_cong [OF sl(3), of length] by (simp add: sl_edges_def fold_sinsert_sort [OF assms(2)])
    with True sl show ?thesis by (simp add: getEdgeNum_def sl_ok_def)
  qed (use assms(1) in \<open>simp add: getEdgeNum_def ne_holds_def\<close>)
qed

text \<open>In a sorted array the versions of an edge stand newest first, and the scan starts at the back.\<close>

lemma find_sort_newest:
  assumes "increasing es"
  shows "List.find (edge_match dst is_out et) (sort_key edge_key es) = List.find (edge_match dst is_out et) (rev es)"
  using find_fold_sinsert [OF assms] fold_sinsert_sort [OF increasing_keys(1) [OF assms]] by simp

lemma find_sort_oldest:
  assumes "increasing es"
  shows "List.find (edge_match dst is_out et) (rev (sort_key edge_key es)) = List.find (edge_match dst is_out et) es"
  using assms
proof (induction es rule: rev_induct)
  case (snoc e es)
  have eq: "sort_key edge_key (es @ [e]) = sinsert edge_before e (sort_key edge_key es)"
    using fold_sinsert_sort [OF increasing_keys(1) [OF snoc.prems]]
      fold_sinsert_sort [of es] increasing_keys(1) [of es] snoc.prems by (simp add: increasing_snoc)
  have inc: "increasing es" "\<forall>a \<in> set es. sint (e_seq a) < sint (e_seq e)" using snoc.prems by (auto simp: increasing_snoc)
  have "List.find (edge_match dst is_out et) (rev (sinsert edge_before e acc)) =
      (case List.find (edge_match dst is_out et) (rev acc) of
         None \<Rightarrow> if edge_match dst is_out et e then Some e else None | Some a \<Rightarrow> Some a)"
    if "\<forall>a \<in> set acc. sint (e_seq a) < sint (e_seq e)" for acc
    using that
  proof (induction acc)
    case (Cons a acc)
    have "\<not> (edge_match dst is_out et a \<and> edge_match dst is_out et e)" if "edge_before a e"
      using that Cons.prems by (auto simp: edge_before_def edge_key_def edge_match_def)
    with Cons show ?case by (auto simp: find_append split: option.splits)
  qed simp
  with eq snoc.IH [OF inc(1)] inc(2) show ?case by (simp add: find_append split: option.split)
qed simp

text \<open>C28. Sorting an adjacency array makes it answer with the oldest version. A flush sorts the array of every
  source in place while the table is still among those readers look into, and the lookup goes on
  scanning from the back. As long as a source has no more edges than the array holds, a lookup
  between the sort and the publication of the new version returns the first version of the
  edge instead of the last: an overwritten value, or an edge deleted since.\<close>

theorem sorted_array_answers_oldest:
  assumes "increasing (map snd ops)" "length ops \<le> reserve_node"
  shows "\<exists>ne. run_puts (NE_put_edge reserve_node) ops new_NewEdgeSL = Some ne \<and>
    NE_get (sort_edges ne) dst is_out et = Some (lookup_result (List.find (edge_match dst is_out et) (map snd ops)))"
proof -
  obtain ne where ne: "run_puts (NE_put_edge reserve_node) ops new_NewEdgeSL = Some ne" "ne_holds reserve_node ne (map snd ops)"
    using adjacency_log.run_holds [OF ne_holds_new, of reserve_node ops] by auto
  have small: "\<not> n_full ne'" if "run_puts (NE_put_edge reserve_node) ops' ne = Some ne'" "\<not> n_full ne"
    "length (n_dst ne) + length ops' \<le> reserve_node" for ops' ne ne'
    using that
  proof (induction ops' arbitrary: ne)
    case (Cons op ops')
    then show ?case by (cases op) (auto simp: NE_put_edge_def)
  qed simp
  have "\<not> n_full ne" by (rule small [OF ne(1)]) (use assms(2) in \<open>simp_all add: new_NewEdgeSL_def\<close>)
  moreover have "stable_sort sort_less (map snd ops) = sort_key edge_key (map snd ops)"
    by (rule stable_sort_sort_key) (rule sort_less_key)
  ultimately have "NE_get (sort_edges ne) dst is_out et =
      Some (lookup_result (List.find (edge_match dst is_out et) (rev (sort_key edge_key (map snd ops)))))"
    using ne(2) array_scan_back [of _ "sort_key edge_key (map snd ops)"]
    by (simp add: NE_get_def sort_edges_def ne_holds_def)
  with ne(1) find_sort_oldest [OF assms(1)] show ?thesis by auto
qed

theorem sorted_array_answers_oldest_witness:
  "\<exists>ne. run_puts (NE_put_edge 2) (take 2 sample_versions) new_NewEdgeSL = Some ne \<and>
     NE_get (sort_edges ne) 5 True 0 = Some (kOk, Some (mk_Edge 5 1))"
proof -
  have "increasing (map snd (take 2 sample_versions))"
    by (simp add: increasing_def seqs_ok_def sample_versions_def mk_Edge_def kMaxSequence_def)
  from sorted_array_answers_oldest [OF this, of 2 5 True 0] show ?thesis
    by (simp add: sample_versions_def mk_Edge_def edge_match_def lookup_result_def)
qed

subsection \<open>The in-place update\<close>

text \<open>\<^verbatim>\<open>update_edge\<close> on the array never returns unless the first edge is the one to update or the
  array is empty.\<close>

lemma update_loop_stuck:
  assumes "arr \<noteq> []" "e_dst (arr ! 0) \<noteq> e_dst e"
  shows "update_loop arr e 0 = None"
proof (rule ccontr)
  assume "update_loop arr e 0 \<noteq> None"
  then obtain r where r: "update_loop arr e 0 = Some r" by auto
  have "\<not> (0 = (0 :: nat) \<and> arr = arr \<and> e = e)"
    by (rule update_loop.raw_induct [where P = "\<lambda>arr' e' i y. \<not> (i = 0 \<and> arr' = arr \<and> e' = e)", OF _ r])
      (use assms in \<open>auto split: if_splits\<close>)
  then show False by simp
qed

end
