(* ===== verification/MemTable.thy ===== *)
theory MemTable
  imports Neighbors SstSearch
begin

text \<open>
  The MemTable (\<^verbatim>\<open>core/MemTable.h\<close>, \<^verbatim>\<open>src/MemTable.cpp\<close>): insertion and lookup over the per-source adjacency
  lists, the bookkeeping around them, and the flush into a table file, its column files and the
  cached index. A flush is a plan that cuts the sources into chunks, one list of memory writes per
  chunk, an interleaving of these lists (the chunks are written by threads), and the end flags and
  header written afterwards. What ends the process in the source is a \<open>flush_error\<close>.
\<close>

section \<open>Definitions\<close>

subsection \<open>The table in memory\<close>

record MemTable =
  mt_vertex_adjs :: "VertexId_t \<Rightarrow> NewEdgeSL option"
  mt_listLength :: nat
  mt_max_edge_num :: nat
  mt_src_vertex_num :: nat
  mt_remain_capacity :: int
  mt_newest_edge :: SequenceNumber_t
  mt_fid :: FileId_t
  mt_start_time :: SequenceNumber_t
  mt_refs :: int
  mt_islive :: bool
  mt_isflash :: bool

definition new_MemTable :: "nat \<Rightarrow> MemTable" where
  "new_MemTable max_edge_num =
     \<lparr>mt_vertex_adjs = (\<lambda>v. None), mt_listLength = 0, mt_max_edge_num = max_edge_num, mt_src_vertex_num = 0,
      mt_remain_capacity = int max_edge_num, mt_newest_edge = 0, mt_fid = 0, mt_start_time = 0, mt_refs = 0,
      mt_islive = False, mt_isflash = False\<rparr>"

text \<open>\<^verbatim>\<open>write_max\<close> on an atomic: the loop ends with the larger value stored.\<close>

definition write_max :: "SequenceNumber_t \<Rightarrow> SequenceNumber_t \<Rightarrow> SequenceNumber_t" where
  "write_max current val = (if sint current < sint val then val else current)"

text \<open>\<^verbatim>\<open>put_edge\<close>: a source's first edge takes element \<open>elem\<close> of the arena, which holds one element more than
  the table has edges; a larger \<open>elem\<close> ends the process.\<close>

definition MT_put_edge ::
  "nat \<Rightarrow> nat list \<Rightarrow> VertexId_t \<Rightarrow> Edge \<Rightarrow> nat \<Rightarrow> MemTable \<Rightarrow> MemTable option" where
  "MT_put_edge reserve_node rands src e elem mt =
     (let mt1 = mt\<lparr>mt_newest_edge := write_max (mt_newest_edge mt) (e_seq e)\<rparr> in
      case mt_vertex_adjs mt src of
        None \<Rightarrow>
          if elem \<ge> mt_max_edge_num mt + 1 then None
          else map_option (\<lambda>ne. mt1\<lparr>mt_vertex_adjs := (mt_vertex_adjs mt)(src := Some ne),
                                   mt_src_vertex_num := mt_src_vertex_num mt + 1,
                                   mt_listLength := mt_listLength mt + 1\<rparr>)
                 (NE_put_edge reserve_node rands e new_NewEdgeSL)
      | Some ne0 \<Rightarrow>
          map_option (\<lambda>ne. mt1\<lparr>mt_vertex_adjs := (mt_vertex_adjs mt)(src := Some ne),
                              mt_listLength := mt_listLength mt + 1\<rparr>)
            (NE_put_edge reserve_node rands e ne0))"

definition MT_get :: "MemTable \<Rightarrow> VertexId_t \<Rightarrow> VertexId_t \<Rightarrow> bool \<Rightarrow> u8 \<Rightarrow> (Status \<times> Edge option) option" where
  "MT_get mt src dst is_out edge_type =
     (case mt_vertex_adjs mt src of None \<Rightarrow> Some (kNotFound, None) | Some ne \<Rightarrow> NE_get ne dst is_out edge_type)"

text \<open>The overloads that return the table's file id with the sequence; \<open>None\<close> leaves the argument alone.\<close>

definition MT_get_seq_any :: "MemTable \<Rightarrow> VertexId_t \<Rightarrow> VertexId_t \<Rightarrow> (Status \<times> FileId_t option \<times> SequenceNumber_t option) option" where
  "MT_get_seq_any mt src dst =
     (case mt_vertex_adjs mt src of None \<Rightarrow> Some (kNotFound, None, None)
      | Some ne \<Rightarrow> map_option (\<lambda>(st, e). (st, Some (mt_fid mt), map_option e_seq e)) (get_seq_any ne dst))"

definition MT_get_seq ::
  "MemTable \<Rightarrow> VertexId_t \<Rightarrow> VertexId_t \<Rightarrow> bool \<Rightarrow> u8 \<Rightarrow> (Status \<times> FileId_t option \<times> SequenceNumber_t option) option" where
  "MT_get_seq mt src dst is_out edge_type =
     (case mt_vertex_adjs mt src of None \<Rightarrow> Some (kNotFound, None, None)
      | Some ne \<Rightarrow> map_option (\<lambda>(st, e). (st, Some (mt_fid mt), map_option e_seq e)) (NE_get ne dst is_out edge_type))"

definition MT_Ref :: "MemTable \<Rightarrow> MemTable" where "MT_Ref mt = mt\<lparr>mt_refs := mt_refs mt + 1\<rparr>"
definition MT_Unref :: "MemTable \<Rightarrow> MemTable" where "MT_Unref mt = mt\<lparr>mt_refs := mt_refs mt - 1\<rparr>"

definition clear_vertex_adj :: "VertexId_t \<Rightarrow> MemTable \<Rightarrow> MemTable" where
  "clear_vertex_adj vertex_id mt =
     mt\<lparr>mt_src_vertex_num := 0,
        mt_vertex_adjs := (\<lambda>v. if v < vertex_id then None else mt_vertex_adjs mt v)\<rparr>"

definition MT_reset :: "VertexId_t \<Rightarrow> MemTable \<Rightarrow> MemTable" where
  "MT_reset vertex_id mt =
     (clear_vertex_adj vertex_id mt)\<lparr>mt_listLength := 0, mt_remain_capacity := int (mt_max_edge_num mt),
        mt_newest_edge := 0, mt_islive := False, mt_isflash := False\<rparr>"

text \<open>The part of \<^verbatim>\<open>LSMStore::put_edge\<close> that fills the active table: reserve a slot, number the edge,
  insert it. A payload that spells the tombstone is a deletion. \<open>None\<close> is a table with no slot
  left, where the thread waits for the next one.\<close>

definition insert_memtable ::
  "nat \<Rightarrow> nat list \<Rightarrow> VertexId_t \<Rightarrow> VertexId_t \<Rightarrow> string \<Rightarrow> bool \<Rightarrow> u8 \<Rightarrow> SequenceNumber_t \<Rightarrow> MemTable \<Rightarrow>
   MemTable option" where
  "insert_memtable reserve_node rands src dst s is_out edge_type explicit_seq mt =
     (let marker = (s = ''~DELETED~'');
          remain_capacity = mt_remain_capacity mt;
          mt1 = mt\<lparr>mt_remain_capacity := remain_capacity - 1\<rparr>
      in if remain_capacity \<le> 0 then None
         else let elem = nat (int (mt_max_edge_num mt) - remain_capacity);
                  seq = (if sint explicit_seq \<ge> 0 then explicit_seq else mt_start_time mt + word_of_nat elem)
              in MT_put_edge reserve_node rands src
                   \<lparr>e_dst = dst, e_seq = seq, e_marker = marker, e_property = s, e_is_out = is_out, e_edge_type = edge_type\<rparr>
                   elem mt1)"

subsection \<open>The plan of a flush\<close>

datatype flush_error =
  StillWriting | SourceCountMismatch | EdgeCountMismatch | BodyOverflow | BrokenList | OutsideBuffer

record chunk_plan =
  cp_i :: nat
  cp_edge_num :: nat
  cp_edge_num_sum :: nat
  cp_property_size_sum :: nat
  cp_src_ids :: "nat list"
  cp_edge_offset :: "u32 list"
  cp_index_offset :: "u32 list"
  cp_property_offsets :: "u32 list"
  cp_vertex_set :: "VertexId_t list"

definition new_plan :: chunk_plan where
  "new_plan = \<lparr>cp_i = 0, cp_edge_num = 0, cp_edge_num_sum = 0, cp_property_size_sum = 0, cp_src_ids = [0],
     cp_edge_offset = [0], cp_index_offset = [0], cp_property_offsets = [0], cp_vertex_set = []\<rparr>"

definition cut_chunk :: "chunk_plan \<Rightarrow> chunk_plan" where
  "cut_chunk p =
     (let s = cp_edge_num_sum p + cp_edge_num p in
      p\<lparr>cp_edge_num_sum := s, cp_src_ids := cp_src_ids p @ [cp_i p],
        cp_edge_offset := cp_edge_offset p @ [word_of_nat (s * 16)],
        cp_index_offset := cp_index_offset p @ [word_of_nat (cp_i p * 12)],
        cp_property_offsets := cp_property_offsets p @ [word_of_nat (cp_property_size_sum p)],
        cp_edge_num := 0\<rparr>)"

fun plan_sources ::
  "nat \<Rightarrow> nat \<Rightarrow> nat \<Rightarrow> (VertexId_t \<Rightarrow> NewEdgeSL option) \<Rightarrow> VertexId_t list \<Rightarrow> chunk_plan \<Rightarrow> chunk_plan" where
  "plan_sources chunk_size src_vertex_num slot0 adjs [] p = p"
| "plan_sources chunk_size src_vertex_num slot0 adjs (v # vs) p =
     (case adjs v of
        None \<Rightarrow> plan_sources chunk_size src_vertex_num slot0 adjs vs p
      | Some ne \<Rightarrow>
          let adj_num = getEdgeNum ne;
              p1 = (if cp_edge_num p + adj_num > chunk_size then cut_chunk p else p);
              p2 = p1\<lparr>cp_edge_num := cp_edge_num p1 + adj_num,
                      cp_property_size_sum := cp_property_size_sum p1 + adj_num * slot0,
                      cp_vertex_set := cp_vertex_set p1 @ [v], cp_i := cp_i p1 + 1\<rparr>
          in if cp_i p2 \<ge> src_vertex_num then p2
             else plan_sources chunk_size src_vertex_num slot0 adjs vs p2)"

definition finish_plan :: "chunk_plan \<Rightarrow> chunk_plan" where
  "finish_plan p =
     p\<lparr>cp_edge_num_sum := cp_edge_num_sum p + cp_edge_num p, cp_src_ids := cp_src_ids p @ [cp_i p],
       cp_property_offsets := cp_property_offsets p @ [word_of_nat (cp_property_size_sum p)]\<rparr>"

definition flush_plan :: "layout_env \<Rightarrow> MemTable \<Rightarrow> nat \<Rightarrow> nat \<Rightarrow> flush_error + (nat \<times> chunk_plan)" where
  "flush_plan env mt vertex_num subcompactions =
     (if mt_remain_capacity mt \<le> 0 \<and> mt_listLength mt \<noteq> mt_max_edge_num mt then Inl StillWriting
      else
        let edge_total = (if mt_remain_capacity mt > 0
                     then nat (int (mt_max_edge_num mt) - mt_remain_capacity mt) else mt_max_edge_num mt);
            p = finish_plan (plan_sources (edge_total div subcompactions) (mt_src_vertex_num mt)
                  (unat (GetSubPropertyFixedLength env 0)) (mt_vertex_adjs mt)
                  (map word_of_nat [0 ..< vertex_num]) new_plan)
        in if \<not> (cp_i p = mt_src_vertex_num mt \<and> cp_i p > 0) then Inl SourceCountMismatch
           else if cp_edge_num_sum p \<noteq> edge_total then Inl EdgeCountMismatch
           else Inr (edge_total, p))"

subsection \<open>The writes of a chunk\<close>

datatype flush_op =
    WriteEdgeFile nat bytes
  | WriteSlot nat nat string
  | ZeroSlot nat nat
  | SetIndex nat Index
  | SortAdj VertexId_t

text \<open>The columns of one edge: the segments of the payload, then zeroed slots for the columns it lacks.\<close>

fun slot_ops :: "nat \<Rightarrow> nat \<Rightarrow> nat \<Rightarrow> string \<Rightarrow> string \<Rightarrow> flush_op list" where
  "slot_ops property_num ordinal sub segment [] =
     (if sub < property_num
      then WriteSlot sub ordinal segment # map (\<lambda>j. ZeroSlot j ordinal) [sub + 1 ..< property_num]
      else [])"
| "slot_ops property_num ordinal sub segment (c # cs) =
     (if sub < property_num
      then if c = CHR ''|'' then WriteSlot sub ordinal segment # slot_ops property_num ordinal (sub + 1) [] cs
           else slot_ops property_num ordinal sub (segment @ [c]) cs
      else [])"

text \<open>The edges of one source. \<open>body\<close> is the write pointer, \<open>off\<close> the same position as the 32-bit offset
  the index records, \<open>poff\<close> the offset in the first column.\<close>

fun body_ops ::
  "nat \<Rightarrow> u32 \<Rightarrow> nat \<Rightarrow> Edge list \<Rightarrow> nat \<times> u32 \<times> u32 \<Rightarrow> (flush_op list \<times> nat \<times> u32 \<times> u32) option" where
  "body_ops property_num slot0 edge_total [] (body, off, poff) = Some ([], body, off, poff)"
| "body_ops property_num slot0 edge_total (e # es) (body, off, poff) =
     (let off' = off + 16 in
      if unat off' > 16 * edge_total then None
      else let image = EdgeBody_image (mk_EdgeBody (e_dst e) (e_seq e) poff (e_marker e) (e_is_out e) (e_edge_type e));
               ordinal = (body + 16) div 16 - 1
           in case body_ops property_num slot0 edge_total es (body + 16, off', poff + slot0) of
                None \<Rightarrow> None
              | Some (ops, rest) \<Rightarrow>
                  Some (WriteEdgeFile body image # slot_ops property_num ordinal 0 [] (e_property e) @ ops, rest))"

fun source_ops ::
  "layout_env \<Rightarrow> nat \<Rightarrow> (VertexId_t \<Rightarrow> NewEdgeSL option) \<Rightarrow> VertexId_t list \<Rightarrow> nat list \<Rightarrow> nat \<Rightarrow> nat \<times> u32 \<times> u32 \<Rightarrow>
   flush_op list option" where
  "source_ops env edge_total adjs vertex_set [] index pos = Some []"
| "source_ops env edge_total adjs vertex_set (v # vs) index pos =
     (let vid = vertex_set ! v in
      case adjs vid of
        None \<Rightarrow> None
      | Some ne \<Rightarrow>
          (case NE_iterate (sort_edges ne) of
             None \<Rightarrow> None
           | Some es \<Rightarrow>
               (case body_ops (nat (GetActiveSubPropertyNum env)) (GetSubPropertyFixedLength env 0) edge_total es pos of
                  None \<Rightarrow> None
                | Some (ops, pos') \<Rightarrow>
                    (case source_ops env edge_total adjs vertex_set vs (index + 12) pos' of
                       None \<Rightarrow> None
                     | Some ops' \<Rightarrow>
                         Some ([SortAdj vid, WriteEdgeFile index (le_bytes 8 vid),
                                WriteEdgeFile (index + 8) (le_bytes 4 (fst (snd pos))),
                                SetIndex v \<lparr>ix_key = vid, ix_offset = fst (snd pos)\<rparr>] @ ops @ ops')))))"

definition build_sstable ::
  "layout_env \<Rightarrow> (VertexId_t \<Rightarrow> NewEdgeSL option) \<Rightarrow> nat \<Rightarrow> chunk_plan \<Rightarrow> nat \<Rightarrow> flush_op list option" where
  "build_sstable env adjs edge_total p chunk_id =
     source_ops env edge_total adjs (cp_vertex_set p)
       [cp_src_ids p ! chunk_id ..< cp_src_ids p ! (chunk_id + 1)]
       (16 * (edge_total + 1) + unat (cp_index_offset p ! chunk_id))
       (unat (cp_edge_offset p ! chunk_id), cp_edge_offset p ! chunk_id, cp_property_offsets p ! chunk_id)"

text \<open>With more than one subcompaction every chunk is built, by a thread of its own; otherwise only the first.\<close>

definition chunk_ids :: "nat \<Rightarrow> chunk_plan \<Rightarrow> nat list" where
  "chunk_ids subcompactions p = (if subcompactions > 1 then [0 ..< length (cp_src_ids p) - 1] else [0])"

subsection \<open>Running the writes\<close>

record flush_state =
  fs_efile :: bytes
  fs_pfiles :: "bytes list"
  fs_indexes :: "Index list"
  fs_adjs :: "VertexId_t \<Rightarrow> NewEdgeSL option"

definition run_op :: "layout_env \<Rightarrow> flush_op \<Rightarrow> flush_state \<Rightarrow> flush_state option" where
  "run_op env op fs =
     (case op of
        WriteEdgeFile off bs \<Rightarrow> map_option (\<lambda>f. fs\<lparr>fs_efile := f\<rparr>) (store_at off bs (fs_efile fs))
      | WriteSlot col ordinal seg \<Rightarrow>
          map_option (\<lambda>f. fs\<lparr>fs_pfiles := (fs_pfiles fs)[col := f]\<rparr>)
            (WritePaddedSubPropertySlot env (fs_pfiles fs ! col)
               (ordinal * unat (GetSubPropertyFixedLength env (int col))) seg (int col))
      | ZeroSlot col ordinal \<Rightarrow>
          let len = unat (GetSubPropertyFixedLength env (int col)) in
          map_option (\<lambda>f. fs\<lparr>fs_pfiles := (fs_pfiles fs)[col := f]\<rparr>)
            (store_at (ordinal * len) (replicate len 0) (fs_pfiles fs ! col))
      | SetIndex v ix \<Rightarrow>
          if v < length (fs_indexes fs) then Some (fs\<lparr>fs_indexes := (fs_indexes fs)[v := ix]\<rparr>) else None
      | SortAdj vid \<Rightarrow> Some (fs\<lparr>fs_adjs := (fs_adjs fs)(vid := map_option sort_edges (fs_adjs fs vid))\<rparr>))"

fun run_ops :: "layout_env \<Rightarrow> flush_op list \<Rightarrow> flush_state \<Rightarrow> flush_state option" where
  "run_ops env [] fs = Some fs"
| "run_ops env (op # ops) fs = (case run_op env op fs of None \<Rightarrow> None | Some fs' \<Rightarrow> run_ops env ops fs')"

text \<open>The interleavings of the threads' writes.\<close>

inductive interleaves :: "'a list list \<Rightarrow> 'a list \<Rightarrow> bool" where
  inter_nil: "\<forall>l \<in> set ls. l = [] \<Longrightarrow> interleaves ls []"
| inter_step: "i < length ls \<Longrightarrow> ls ! i = x # xs \<Longrightarrow> interleaves (ls[i := xs]) s \<Longrightarrow> interleaves ls (x # s)"

subsection \<open>The finished table\<close>

record Header =
  hdr_timeStamp :: u64
  hdr_size :: u64
  hdr_index_size :: u64
  hdr_minKey :: u64
  hdr_maxKey :: u64

definition Header_image :: "Header \<Rightarrow> bytes" where
  "Header_image h = le_bytes 8 (hdr_timeStamp h) @ le_bytes 8 (hdr_size h) @ le_bytes 8 (hdr_index_size h) @
     le_bytes 8 (hdr_minKey h) @ le_bytes 8 (hdr_maxKey h)"

definition HEADER_SIZE :: nat where "HEADER_SIZE = 40"

record flushed_table =
  ft_header :: Header
  ft_indexes :: "Index list"
  ft_efile :: bytes
  ft_pfiles :: "bytes list"
  ft_newest_edge :: SequenceNumber_t
  ft_seq :: SequenceNumber_t

definition flush_header :: "MemTable \<Rightarrow> nat \<Rightarrow> chunk_plan \<Rightarrow> Header" where
  "flush_header mt edge_total p =
     \<lparr>hdr_timeStamp = ucast (mt_fid mt), hdr_size = word_of_nat (edge_total + 1),
      hdr_index_size = word_of_nat (mt_src_vertex_num mt + 1), hdr_minKey = cp_vertex_set p ! 0,
      hdr_maxKey = cp_vertex_set p ! (cp_i p - 1)\<rparr>"

text \<open>The end flags and the header.\<close>

definition tail_ops :: "MemTable \<Rightarrow> nat \<Rightarrow> chunk_plan \<Rightarrow> flush_op list" where
  "tail_ops mt edge_total p =
     (let m = mt_src_vertex_num mt; index_cur = 16 * (edge_total + 1) + 12 * m in
      [WriteEdgeFile index_cur (le_bytes 8 kInvalidVertexId),
       WriteEdgeFile (index_cur + 8) (le_bytes 4 (word_of_nat (16 * edge_total) :: u32)),
       WriteEdgeFile (16 * edge_total)
         (EdgeBody_image (mk_EdgeBody kInvalidVertexId kInvalidVertexId (last (cp_property_offsets p)) False True 0)),
       WriteEdgeFile (16 * (edge_total + 1) + 12 * (m + 1)) (Header_image (flush_header mt edge_total p))])"

text \<open>\<^verbatim>\<open>save2eSSTable_split_property\<close> up to the publication. \<open>garbage\<close> gives the contents of the buffers
  \<^verbatim>\<open>new char[]\<close> returns, \<open>sched\<close> the order in which the threads' writes happen; the files hold the
  buffers.\<close>

definition flush_buffers :: "layout_env \<Rightarrow> (nat \<Rightarrow> nat \<Rightarrow> byte) \<Rightarrow> MemTable \<Rightarrow> nat \<Rightarrow> flush_state" where
  "flush_buffers env garbage mt edge_total =
     \<lparr>fs_efile = map (garbage 0) [0 ..< HEADER_SIZE + 16 * (edge_total + 1) + 12 * (mt_src_vertex_num mt + 1)],
      fs_pfiles = map (\<lambda>p. map (garbage (Suc p)) [0 ..< edge_total * unat (GetSubPropertyFixedLength env (int p))])
                    [0 ..< nat (GetActiveSubPropertyNum env)],
      fs_indexes = replicate (mt_src_vertex_num mt) \<lparr>ix_key = 0, ix_offset = 0\<rparr>,
      fs_adjs = mt_vertex_adjs mt\<rparr>"

definition save2eSSTable_split_property ::
  "layout_env \<Rightarrow> (nat \<Rightarrow> nat \<Rightarrow> byte) \<Rightarrow> (flush_op list list \<Rightarrow> flush_op list) \<Rightarrow> nat \<Rightarrow> nat \<Rightarrow> MemTable \<Rightarrow>
   flush_error + (flushed_table \<times> MemTable)" where
  "save2eSSTable_split_property env garbage sched subcompactions vertex_num mt =
     (case flush_plan env mt vertex_num subcompactions of
        Inl err \<Rightarrow> Inl err
      | Inr (edge_total, p) \<Rightarrow>
          let chunks = map (build_sstable env (mt_vertex_adjs mt) edge_total p) (chunk_ids subcompactions p) in
          if None \<in> set chunks then Inl BodyOverflow
          else (case run_ops env (sched (map the chunks) @ tail_ops mt edge_total p) (flush_buffers env garbage mt edge_total) of
                 None \<Rightarrow> Inl OutsideBuffer
               | Some fs \<Rightarrow>
                   Inr (\<lparr>ft_header = flush_header mt edge_total p,
                         ft_indexes = fs_indexes fs @ [\<lparr>ix_key = kInvalidVertexId, ix_offset = word_of_nat (16 * edge_total)\<rparr>],
                         ft_efile = fs_efile fs, ft_pfiles = fs_pfiles fs,
                         ft_newest_edge = mt_newest_edge mt, ft_seq = mt_start_time mt\<rparr>,
                        mt\<lparr>mt_vertex_adjs := fs_adjs fs\<rparr>)))"

text \<open>What \<^verbatim>\<open>SSTDataManager::put_data\<close> maps: the bodies, without index and header, and the column files.\<close>

definition mapped_table :: "flushed_table \<Rightarrow> SstTable" where
  "mapped_table ft =
     \<lparr>s_time_stamp = hdr_timeStamp (ft_header ft), s_size = hdr_size (ft_header ft),
      s_min_key = hdr_minKey (ft_header ft), s_max_key = hdr_maxKey (ft_header ft),
      s_indexes = ft_indexes ft, s_edge_data = take (16 * unat (hdr_size (ft_header ft))) (ft_efile ft),
      s_property_data = ft_pfiles ft, s_newest_edge = ft_newest_edge ft\<rparr>"

text \<open>Reading a table back: the header at the end of the file, then the index behind the bodies.\<close>

definition read_Header :: "bytes \<Rightarrow> Header" where
  "read_Header f =
     (let h = drop (length f - HEADER_SIZE) f in
      \<lparr>hdr_timeStamp = le_word (slice 0 8 h), hdr_size = le_word (slice 8 8 h), hdr_index_size = le_word (slice 16 8 h),
       hdr_minKey = le_word (slice 24 8 h), hdr_maxKey = le_word (slice 32 8 h)\<rparr>)"

definition read_Index :: "bytes \<Rightarrow> nat \<Rightarrow> Index" where
  "read_Index buf i = \<lparr>ix_key = le_word (slice (12 * i) 8 buf), ix_offset = le_word (slice (12 * i + 8) 4 buf)\<rparr>"

definition load_SSTableCache :: "bytes \<Rightarrow> Header \<times> Index list" where
  "load_SSTableCache f =
     (let header = read_Header f; n = unat (hdr_index_size header);
          buf = take (n * 12) (drop (16 * unat (hdr_size header)) f)
      in (header, map (read_Index buf) [0 ..< n]))"

subsection \<open>One column of a payload\<close>

fun extract_loop :: "int \<Rightarrow> int \<Rightarrow> string \<Rightarrow> string \<Rightarrow> string" where
  "extract_loop property_id current segment [] = (if current = property_id then segment else [])"
| "extract_loop property_id current segment (c # cs) =
     (if c = CHR ''|''
      then if current = property_id then segment else extract_loop property_id (current + 1) [] cs
      else extract_loop property_id current (segment @ [c]) cs)"

definition ExtractSubProperty :: "string \<Rightarrow> int \<Rightarrow> string" where
  "ExtractSubProperty payload property_id =
     (if property_id < 0 then payload else extract_loop property_id 0 [] payload)"

end
