(* ===== verification/MemFlush.thy ===== *)
theory MemFlush
  imports MemTable DeltaMerge
begin

text \<open>
  What a MemTable holds after a run of insertions, and what its flush writes: the layout of the table
  file and of the column files, the same for every number of chunks and every interleaving of the
  threads that write them; that the file reads back to the same header and index; and that a
  lookup in the flushed table answers as the MemTable did.
\<close>

section \<open>A filled table\<close>

text \<open>The insertions a table received, as sources with edges, and the part of one source.\<close>

definition log_of :: "(VertexId_t \<times> Edge) list \<Rightarrow> VertexId_t \<Rightarrow> Edge list" where
  "log_of es v = map snd (filter (\<lambda>x. fst x = v) es)"

definition adj_holds :: "nat \<Rightarrow> NewEdgeSL option \<Rightarrow> Edge list \<Rightarrow> bool" where
  "adj_holds reserve_node a es =
     (case a of None \<Rightarrow> es = [] | Some ne \<Rightarrow> es \<noteq> [] \<and> ne_holds reserve_node ne es)"

lemma adj_holds_simps [simp]:
  "adj_holds reserve_node None es \<longleftrightarrow> es = []"
  "adj_holds reserve_node (Some ne) es \<longleftrightarrow> es \<noteq> [] \<and> ne_holds reserve_node ne es"
  by (simp_all add: adj_holds_def)

definition mt_holds :: "nat \<Rightarrow> MemTable \<Rightarrow> (VertexId_t \<times> Edge) list \<Rightarrow> bool" where
  "mt_holds reserve_node mt es \<longleftrightarrow>
     (\<forall>v. adj_holds reserve_node (mt_vertex_adjs mt v) (log_of es v)) \<and>
     mt_listLength mt = length es \<and> mt_src_vertex_num mt = card (fst ` set es) \<and>
     mt_remain_capacity mt = int (mt_max_edge_num mt) - int (length es)"

lemma log_of_snoc: "log_of (es @ [(v, e)]) w = (if w = v then log_of es w @ [e] else log_of es w)"
  by (simp add: log_of_def)

lemma log_of_Nil_iff: "log_of es v = [] \<longleftrightarrow> v \<notin> fst ` set es"
  by (auto simp: log_of_def filter_empty_conv)

lemma mt_holds_new: "mt_holds reserve_node (new_MemTable n) []"
  by (simp add: mt_holds_def new_MemTable_def log_of_def)

text \<open>What an insertion stores is the edge itself when its sequence is given and its marker says whether
  the payload spells a deletion.\<close>

definition storable :: "Edge \<Rightarrow> bool" where
  "storable e \<longleftrightarrow> 0 \<le> sint (e_seq e) \<and> e_marker e = (e_property e = ''~DELETED~'')"

definition insert_edge :: "nat \<Rightarrow> nat list \<Rightarrow> VertexId_t \<Rightarrow> Edge \<Rightarrow> MemTable \<Rightarrow> MemTable option" where
  "insert_edge reserve_node rands v e mt =
     insert_memtable reserve_node rands v (e_dst e) (e_property e) (e_is_out e) (e_edge_type e) (e_seq e) mt"

lemma insert_edge_holds:
  assumes holds: "mt_holds reserve_node mt es" and "storable e" and room: "length es < mt_max_edge_num mt"
  shows "\<exists>mt'. insert_edge reserve_node rands v e mt = Some mt' \<and> mt_holds reserve_node mt' (es @ [(v, e)]) \<and>
    mt_max_edge_num mt' = mt_max_edge_num mt"
proof -
  define mt1 where "mt1 = mt\<lparr>mt_remain_capacity := mt_remain_capacity mt - 1\<rparr>"
  have "nat (int (mt_max_edge_num mt) - mt_remain_capacity mt) = length es" using holds by (simp add: mt_holds_def)
  then have "insert_edge reserve_node rands v e mt = MT_put_edge reserve_node rands v
      \<lparr>e_dst = e_dst e, e_seq = e_seq e, e_marker = (e_property e = ''~DELETED~''), e_property = e_property e,
       e_is_out = e_is_out e, e_edge_type = e_edge_type e\<rparr> (length es) mt1"
    using holds room assms(2)
    by (simp add: insert_edge_def insert_memtable_def Let_def mt_holds_def storable_def mt1_def)
  also have "\<lparr>e_dst = e_dst e, e_seq = e_seq e, e_marker = (e_property e = ''~DELETED~''), e_property = e_property e,
      e_is_out = e_is_out e, e_edge_type = e_edge_type e\<rparr> = e"
    using assms(2) by (intro Edge_string.equality) (simp_all add: storable_def)
  finally have run: "insert_edge reserve_node rands v e mt = MT_put_edge reserve_node rands v e (length es) mt1" .
  show ?thesis
  proof (cases "mt_vertex_adjs mt v")
    case None
    then have empty: "log_of es v = []" using holds by (metis adj_holds_simps(1) mt_holds_def)
    obtain ne where ne: "NE_put_edge reserve_node rands e new_NewEdgeSL = Some ne" "ne_holds reserve_node ne [e]"
      using ne_holds_put [OF ne_holds_new, of reserve_node rands e] by auto
    have "v \<notin> fst ` set es" using empty by (simp add: log_of_Nil_iff)
    then have "card (fst ` set (es @ [(v, e)])) = Suc (card (fst ` set es))" by simp
    with None ne holds empty room show ?thesis
      by (auto simp: run MT_put_edge_def mt1_def mt_holds_def log_of_snoc Let_def)
  next
    case (Some ne0)
    then have h: "log_of es v \<noteq> []" "ne_holds reserve_node ne0 (log_of es v)"
      using holds by (metis adj_holds_simps(2) mt_holds_def)+
    obtain ne where ne: "NE_put_edge reserve_node rands e ne0 = Some ne" "ne_holds reserve_node ne (log_of es v @ [e])"
      using ne_holds_put [OF h(2), of rands e] by auto
    have "v \<in> fst ` set es" using h(1) by (simp add: log_of_Nil_iff)
    then have "fst ` set (es @ [(v, e)]) = fst ` set es" by auto
    with Some ne holds h show ?thesis
      by (auto simp: run MT_put_edge_def mt1_def mt_holds_def log_of_snoc Let_def)
  qed
qed

lemma mt_holds_get:
  assumes "mt_holds reserve_node mt es" "increasing (log_of es src)"
  shows "MT_get mt src dst is_out et =
    Some (lookup_result (List.find (edge_match dst is_out et) (rev (log_of es src))))"
proof -
  have "adj_holds reserve_node (mt_vertex_adjs mt src) (log_of es src)" using assms(1) by (simp add: mt_holds_def)
  then show ?thesis using ne_holds_get [OF _ assms(2), of reserve_node]
    by (cases "mt_vertex_adjs mt src") (auto simp: MT_get_def lookup_result_def)
qed

text \<open>A table filled from empty.\<close>

fun fill :: "nat \<Rightarrow> (nat list \<times> VertexId_t \<times> Edge) list \<Rightarrow> MemTable \<Rightarrow> MemTable option" where
  "fill reserve_node [] mt = Some mt"
| "fill reserve_node ((rands, v, e) # ops) mt =
     (case insert_edge reserve_node rands v e mt of None \<Rightarrow> None | Some mt' \<Rightarrow> fill reserve_node ops mt')"

lemma fill_holds:
  assumes "mt_holds reserve_node mt es" "\<forall>x \<in> set ops. storable (snd (snd x))" "length es + length ops \<le> mt_max_edge_num mt"
  shows "\<exists>mt'. fill reserve_node ops mt = Some mt' \<and> mt_holds reserve_node mt' (es @ map snd ops) \<and>
    mt_max_edge_num mt' = mt_max_edge_num mt"
  using assms
proof (induction reserve_node ops mt arbitrary: es rule: fill.induct)
  case (1 reserve_node mt)
  then show ?case by auto
next
  case (2 reserve_node rands v e ops mt)
  have "storable e" "length es < mt_max_edge_num mt" using "2.prems" by auto
  from insert_edge_holds [OF "2.prems"(1) this] obtain mt' where mt': "insert_edge reserve_node rands v e mt = Some mt'"
    "mt_holds reserve_node mt' (es @ [(v, e)])" "mt_max_edge_num mt' = mt_max_edge_num mt" by blast
  from "2.IH" [OF mt'(1,2)] "2.prems"(2,3) mt'(1,3) show ?case by simp
qed

section \<open>Writes that agree with a target\<close>

text \<open>The buffers of a flush as cells. A write agrees with a target when it lies inside the buffers and
  stores what the target has there; such writes may be run in any order.\<close>

datatype cell = ECell nat | PCell nat nat | ICell nat | ACell VertexId_t

definition same_cell :: "cell \<Rightarrow> flush_state \<Rightarrow> flush_state \<Rightarrow> bool" where
  "same_cell c a b =
     (case c of ECell k \<Rightarrow> fs_efile a ! k = fs_efile b ! k
      | PCell p k \<Rightarrow> fs_pfiles a ! p ! k = fs_pfiles b ! p ! k
      | ICell v \<Rightarrow> fs_indexes a ! v = fs_indexes b ! v
      | ACell v \<Rightarrow> fs_adjs a v = fs_adjs b v)"

lemma same_cell_simps [simp]:
  "same_cell (ECell k) a b \<longleftrightarrow> fs_efile a ! k = fs_efile b ! k"
  "same_cell (PCell p k) a b \<longleftrightarrow> fs_pfiles a ! p ! k = fs_pfiles b ! p ! k"
  "same_cell (ICell v) a b \<longleftrightarrow> fs_indexes a ! v = fs_indexes b ! v"
  "same_cell (ACell w) a b \<longleftrightarrow> fs_adjs a w = fs_adjs b w"
  by (simp_all add: same_cell_def)

definition slot_image :: "nat \<Rightarrow> string \<Rightarrow> bytes" where
  "slot_image len seg = bytes_of (take len seg) @ replicate (len - length seg) 0"

lemma length_slot_image [simp]: "length (slot_image len seg) = len"
  by (simp add: slot_image_def min_def)

abbreviation col_len :: "layout_env \<Rightarrow> nat \<Rightarrow> nat" where
  "col_len env p \<equiv> unat (GetSubPropertyFixedLength env (int p))"

definition op_cells :: "layout_env \<Rightarrow> flush_op \<Rightarrow> cell set" where
  "op_cells env op =
     (case op of WriteEdgeFile off bs \<Rightarrow> ECell ` {off ..< off + length bs}
      | WriteSlot p k seg \<Rightarrow> PCell p ` {k * col_len env p ..< k * col_len env p + col_len env p}
      | ZeroSlot p k \<Rightarrow> PCell p ` {k * col_len env p ..< k * col_len env p + col_len env p}
      | SetIndex v ix \<Rightarrow> {ICell v}
      | SortAdj v \<Rightarrow> {ACell v})"

definition agrees :: "layout_env \<Rightarrow> flush_state \<Rightarrow> flush_op \<Rightarrow> bool" where
  "agrees env T op =
     (case op of WriteEdgeFile off bs \<Rightarrow> off + length bs \<le> length (fs_efile T) \<and> slice off (length bs) (fs_efile T) = bs
      | WriteSlot p k seg \<Rightarrow> p < length (fs_pfiles T) \<and> k * col_len env p + col_len env p \<le> length (fs_pfiles T ! p) \<and>
          slice (k * col_len env p) (col_len env p) (fs_pfiles T ! p) = slot_image (col_len env p) seg
      | ZeroSlot p k \<Rightarrow> p < length (fs_pfiles T) \<and> k * col_len env p + col_len env p \<le> length (fs_pfiles T ! p) \<and>
          slice (k * col_len env p) (col_len env p) (fs_pfiles T ! p) = replicate (col_len env p) 0
      | SetIndex v ix \<Rightarrow> v < length (fs_indexes T) \<and> fs_indexes T ! v = ix
      | SortAdj v \<Rightarrow> True)"

text \<open>A state on its way to the target: buffers of the target's sizes, lists unsorted or sorted.\<close>

definition towards :: "flush_state \<Rightarrow> flush_state \<Rightarrow> bool" where
  "towards T fs \<longleftrightarrow>
     length (fs_efile fs) = length (fs_efile T) \<and> map length (fs_pfiles fs) = map length (fs_pfiles T) \<and>
     length (fs_indexes fs) = length (fs_indexes T) \<and>
     (\<forall>v. map_option sort_edges (fs_adjs fs v) = fs_adjs T v \<and> map_option sort_edges (fs_adjs T v) = fs_adjs T v)"

lemma store_at_agrees:
  assumes "off + length bs \<le> length m" "slice off (length bs) m = bs" "length mem = length m"
  shows "\<exists>mem'. store_at off bs mem = Some mem' \<and> length mem' = length m \<and>
    (\<forall>k < length m. mem' ! k = (if off \<le> k \<and> k < off + length bs then m ! k else mem ! k))"
proof -
  have "bs ! i = m ! (off + i)" if "i < length bs" for i
    using assms(1) that arg_cong [OF assms(2), of "\<lambda>l. l ! i"] by (simp add: slice_def)
  then have "(take off mem @ bs @ drop (off + length bs) mem) ! k =
      (if off \<le> k \<and> k < off + length bs then m ! k else mem ! k)" if "k < length m" for k
    using assms(1,3) that by (auto simp: nth_append)
  then show ?thesis using assms(1,3) by (simp add: store_at_def)
qed

lemma WritePadded_store:
  "slot_begin + unat (GetSubPropertyFixedLength env i) \<le> length mem \<Longrightarrow>
   WritePaddedSubPropertySlot env mem slot_begin src i =
     store_at slot_begin (slot_image (unat (GetSubPropertyFixedLength env i)) src) mem"
  using length_slot_image [of "unat (GetSubPropertyFixedLength env i)" src]
  by (simp add: WritePadded_image store_at_def slot_image_def del: length_slot_image)

lemma towards_pfile:
  assumes "towards T fs" "p < length (fs_pfiles T)"
  shows "p < length (fs_pfiles fs)" "length (fs_pfiles fs ! p) = length (fs_pfiles T ! p)"
  using assms unfolding towards_def by (metis length_map nth_map)+

lemma run_op_pfile:
  assumes tw: "towards T fs" and p: "p < length (fs_pfiles T)"
    and bs: "off + length bs \<le> length (fs_pfiles T ! p)" "slice off (length bs) (fs_pfiles T ! p) = bs"
  shows "\<exists>f. store_at off bs (fs_pfiles fs ! p) = Some f \<and> towards T (fs\<lparr>fs_pfiles := (fs_pfiles fs)[p := f]\<rparr>) \<and>
    (\<forall>c. same_cell c fs T \<longrightarrow> same_cell c (fs\<lparr>fs_pfiles := (fs_pfiles fs)[p := f]\<rparr>) T) \<and>
    (\<forall>k. off \<le> k \<and> k < off + length bs \<longrightarrow> f ! k = fs_pfiles T ! p ! k)"
proof -
  note t = towards_pfile [OF tw p]
  obtain f where f: "store_at off bs (fs_pfiles fs ! p) = Some f" "length f = length (fs_pfiles T ! p)"
    "\<forall>k < length (fs_pfiles T ! p). f ! k = (if off \<le> k \<and> k < off + length bs then fs_pfiles T ! p ! k else fs_pfiles fs ! p ! k)"
    using store_at_agrees [OF bs t(2)] by blast
  have "map length ((fs_pfiles fs)[p := f]) = map length (fs_pfiles T)"
    using tw f(2) p by (simp add: towards_def map_update) (metis list_update_id nth_map)
  then have "towards T (fs\<lparr>fs_pfiles := (fs_pfiles fs)[p := f]\<rparr>)" using tw by (simp add: towards_def)
  moreover have "f ! k = fs_pfiles T ! p ! k" if "fs_pfiles fs ! p ! k = fs_pfiles T ! p ! k" for k
  proof (cases "k < length (fs_pfiles T ! p)")
    case True
    then show ?thesis using f(3) that by simp
  next
    case False
    then have "f ! k = fs_pfiles fs ! p ! k" 
      using f(1,2) t bs by (auto simp: store_at_def nth_append split: if_splits)
    with that show ?thesis by simp
  qed
  then have "same_cell c (fs\<lparr>fs_pfiles := (fs_pfiles fs)[p := f]\<rparr>) T" if "same_cell c fs T" for c
    using that t by (cases c) (auto simp: nth_list_update)
  ultimately show ?thesis using f bs(1) by auto
qed

lemma run_op_agrees:
  assumes tw: "towards T fs" and ag: "agrees env T op"
  shows "\<exists>fs'. run_op env op fs = Some fs' \<and> towards T fs' \<and>
    (\<forall>c. same_cell c fs T \<or> c \<in> op_cells env op \<longrightarrow> same_cell c fs' T)"
proof (cases op)
  case (WriteEdgeFile off bs)
  have len: "length (fs_efile fs) = length (fs_efile T)" using tw by (simp add: towards_def)
  obtain f where f: "store_at off bs (fs_efile fs) = Some f" "length f = length (fs_efile T)"
    "\<forall>k < length (fs_efile T). f ! k = (if off \<le> k \<and> k < off + length bs then fs_efile T ! k else fs_efile fs ! k)"
    using store_at_agrees [of off bs "fs_efile T" "fs_efile fs"] ag len by (auto simp: WriteEdgeFile agrees_def)
  have "f ! k = fs_efile T ! k" if "fs_efile fs ! k = fs_efile T ! k \<or> off \<le> k \<and> k < off + length bs" for k
  proof (cases "k < length (fs_efile T)")
    case True
    then show ?thesis using f(3) that by auto
  next
    case False
    then have "f ! k = fs_efile fs ! k" using f(1,2) len by (auto simp: store_at_def nth_append split: if_splits)
    with that False ag show ?thesis by (auto simp: WriteEdgeFile agrees_def)
  qed
  then have "same_cell c (fs\<lparr>fs_efile := f\<rparr>) T" if "same_cell c fs T \<or> c \<in> op_cells env op" for c
    using that by (cases c) (auto simp: WriteEdgeFile op_cells_def)
  with f(1,2) tw show ?thesis by (auto simp: WriteEdgeFile run_op_def towards_def)
next
  case (WriteSlot p k seg)
  let ?o = "k * col_len env p"
  have a: "p < length (fs_pfiles T)" "?o + length (slot_image (col_len env p) seg) \<le> length (fs_pfiles T ! p)"
    "slice ?o (length (slot_image (col_len env p) seg)) (fs_pfiles T ! p) = slot_image (col_len env p) seg"
    using ag by (simp_all add: WriteSlot agrees_def)
  have "WritePaddedSubPropertySlot env (fs_pfiles fs ! p) ?o seg (int p) =
      store_at ?o (slot_image (col_len env p) seg) (fs_pfiles fs ! p)"
    using a(2) towards_pfile [OF tw a(1)] by (intro WritePadded_store) simp
  with run_op_pfile [OF tw a] towards_pfile [OF tw a(1)] show ?thesis
    by (auto simp: WriteSlot run_op_def op_cells_def)
next
  case (ZeroSlot p k)
  let ?o = "k * col_len env p"
  have a: "p < length (fs_pfiles T)" "?o + length (replicate (col_len env p) (0 :: byte)) \<le> length (fs_pfiles T ! p)"
    "slice ?o (length (replicate (col_len env p) (0 :: byte))) (fs_pfiles T ! p) = replicate (col_len env p) 0"
    using ag by (simp_all add: ZeroSlot agrees_def)
  from run_op_pfile [OF tw a] towards_pfile [OF tw a(1)] show ?thesis
    by (auto simp: ZeroSlot run_op_def op_cells_def Let_def)
next
  case (SetIndex v ix)
  have v: "v < length (fs_indexes fs)" "v < length (fs_indexes T)" "fs_indexes T ! v = ix"
    using tw ag by (auto simp: SetIndex agrees_def towards_def)
  have "same_cell c (fs\<lparr>fs_indexes := (fs_indexes fs)[v := ix]\<rparr>) T" if "same_cell c fs T \<or> c \<in> op_cells env op" for c
    using that v by (cases c) (auto simp: SetIndex op_cells_def nth_list_update)
  with v tw show ?thesis by (auto simp: SetIndex run_op_def towards_def)
next
  case (SortAdj v)
  define fs' where "fs' = fs\<lparr>fs_adjs := (fs_adjs fs)(v := map_option sort_edges (fs_adjs fs v))\<rparr>"
  have sorts: "map_option sort_edges (fs_adjs fs w) = fs_adjs T w" "map_option sort_edges (fs_adjs T w) = fs_adjs T w" for w
    using tw by (auto simp: towards_def)
  have "towards T fs'" using tw sorts by (simp add: fs'_def towards_def)
  moreover have "same_cell c fs' T" if "same_cell c fs T \<or> c \<in> op_cells env op" for c
    using that sorts by (cases c) (auto simp: SortAdj op_cells_def fs'_def)
  ultimately show ?thesis by (auto simp: SortAdj run_op_def fs'_def)
qed

lemma run_ops_agrees:
  assumes "towards T fs" "\<forall>op \<in> set ops. agrees env T op"
  shows "\<exists>fs'. run_ops env ops fs = Some fs' \<and> towards T fs' \<and>
    (\<forall>c. same_cell c fs T \<or> (\<exists>op \<in> set ops. c \<in> op_cells env op) \<longrightarrow> same_cell c fs' T)"
  using assms
proof (induction ops arbitrary: fs)
  case (Cons op ops)
  obtain fs1 where 1: "run_op env op fs = Some fs1" "towards T fs1"
    "\<forall>c. same_cell c fs T \<or> c \<in> op_cells env op \<longrightarrow> same_cell c fs1 T"
    using run_op_agrees [OF Cons.prems(1), of env op] Cons.prems(2) by auto
  obtain fs' where 2: "run_ops env ops fs1 = Some fs'" "towards T fs'"
    "\<forall>c. same_cell c fs1 T \<or> (\<exists>op \<in> set ops. c \<in> op_cells env op) \<longrightarrow> same_cell c fs' T"
    using Cons.IH [OF 1(2)] Cons.prems(2) by auto
  show ?case by (intro exI [of _ fs']) (use 1 2 in auto)
qed auto

lemma towards_all_cells:
  assumes tw: "towards T fs"
    and "\<And>k. k < length (fs_efile T) \<Longrightarrow> same_cell (ECell k) fs T"
    "\<And>p k. p < length (fs_pfiles T) \<Longrightarrow> k < length (fs_pfiles T ! p) \<Longrightarrow> same_cell (PCell p k) fs T"
    "\<And>v. v < length (fs_indexes T) \<Longrightarrow> same_cell (ICell v) fs T" "\<And>v. same_cell (ACell v) fs T"
  shows "fs = T"
proof (rule flush_state.equality)
  show "fs_efile fs = fs_efile T" using assms(2) tw by (intro nth_equalityI) (auto simp: towards_def)
  show "fs_pfiles fs = fs_pfiles T"
  proof (rule nth_equalityI)
    show len: "length (fs_pfiles fs) = length (fs_pfiles T)" using tw unfolding towards_def by (metis length_map)
    fix p assume "p < length (fs_pfiles fs)"
    then show "fs_pfiles fs ! p = fs_pfiles T ! p"
      using assms(3) towards_pfile(2) [OF tw] len by (intro nth_equalityI) auto
  qed
  show "fs_indexes fs = fs_indexes T" using assms(4) tw by (intro nth_equalityI) (auto simp: towards_def)
  show "fs_adjs fs = fs_adjs T" using assms(5) by (intro ext) simp
qed simp

text \<open>Every interleaving consists of the same writes.\<close>

lemma interleaves_set: "interleaves ls s \<Longrightarrow> set s = (\<Union>l \<in> set ls. set l)"
proof (induction rule: interleaves.induct)
  case (inter_nil ls)
  then show ?case by auto
next
  case (inter_step i ls x xs s)
  have "(\<Union>l \<in> set ls. set l) = (\<Union>j < length ls. set (ls ! j))" by (auto simp: set_conv_nth)
  also have "\<dots> = insert x (\<Union>j < length ls. set (ls[i := xs] ! j))"
    using inter_step.hyps(1,2) by (force simp: nth_list_update split: if_splits)
  also have "(\<Union>j < length ls. set (ls[i := xs] ! j)) = (\<Union>l \<in> set (ls[i := xs]). set l)"
    by (auto simp: set_conv_nth)
  finally show ?case using inter_step.IH by simp
qed

section \<open>The writes of a flush\<close>

lemma unat_small_u32: "n < 2 ^ 32 \<Longrightarrow> unat (word_of_nat n :: u32) = n"
  by (simp add: unat_of_nat)

text \<open>The edges of the sources \<open>vs\<close> in a row, and the position of a source's first edge.\<close>

definition flat :: "(VertexId_t \<Rightarrow> Edge list) \<Rightarrow> VertexId_t list \<Rightarrow> Edge list" where
  "flat E vs = concat (map E vs)"

definition start_of :: "(VertexId_t \<Rightarrow> Edge list) \<Rightarrow> VertexId_t list \<Rightarrow> nat \<Rightarrow> nat" where
  "start_of E vs i = length (flat E (take i vs))"

lemma start_of_0 [simp]: "start_of E vs 0 = 0"
  by (simp add: start_of_def flat_def)

lemma start_of_Suc: "i < length vs \<Longrightarrow> start_of E vs (Suc i) = start_of E vs i + length (E (vs ! i))"
  by (simp add: start_of_def flat_def take_Suc_conv_app_nth)

lemma start_of_all: "length vs \<le> i \<Longrightarrow> start_of E vs i = length (flat E vs)"
  by (simp add: start_of_def)

lemma start_of_mono: "i \<le> j \<Longrightarrow> start_of E vs i \<le> start_of E vs j"
proof -
  assume "i \<le> j"
  then have "take j vs = take i vs @ drop i (take j vs)" by (metis append_take_drop_id min.absorb1 take_take)
  then show ?thesis unfolding start_of_def flat_def by (metis concat_append le_add1 length_append map_append)
qed

lemma flat_nth:
  assumes "i < length vs" "k < length (E (vs ! i))"
  shows "flat E vs ! (start_of E vs i + k) = E (vs ! i) ! k" "start_of E vs i + k < length (flat E vs)"
proof -
  have "vs = take i vs @ vs ! i # drop (Suc i) vs" using assms(1) by (rule id_take_nth_drop)
  then have "flat E vs = flat E (take i vs) @ E (vs ! i) @ flat E (drop (Suc i) vs)"
    unfolding flat_def by (metis concat.simps(2) concat_append list.simps(9) map_append)
  then show "flat E vs ! (start_of E vs i + k) = E (vs ! i) ! k" "start_of E vs i + k < length (flat E vs)"
    using assms(2) by (simp_all add: start_of_def nth_append)
qed

lemma flat_position:
  assumes "k < length (flat E vs)"
  obtains i where "i < length vs" "start_of E vs i \<le> k" "k < start_of E vs (Suc i)"
proof -
  define i where "i = (LEAST j. k < start_of E vs j)"
  have ex: "k < start_of E vs (length vs)" using assms by (simp add: start_of_all)
  then have "k < start_of E vs i" "i \<le> length vs" unfolding i_def by (auto intro: LeastI Least_le)
  moreover from this obtain j where j: "i = Suc j" by (cases i) auto
  moreover have "\<not> k < start_of E vs j" using j not_less_Least [of j "\<lambda>j. k < start_of E vs j"] by (simp add: i_def)
  ultimately show ?thesis by (intro that [of j]) auto
qed

definition body_of :: "nat \<Rightarrow> nat \<Rightarrow> Edge \<Rightarrow> EdgeBody_t_Dym" where
  "body_of slot0 k e = mk_EdgeBody (e_dst e) (e_seq e) (word_of_nat (k * slot0)) (e_marker e) (e_is_out e) (e_edge_type e)"

definition edge_ops :: "nat \<Rightarrow> nat \<Rightarrow> nat \<Rightarrow> Edge \<Rightarrow> flush_op set" where
  "edge_ops property_num slot0 k e =
     insert (WriteEdgeFile (16 * k) (EdgeBody_image (body_of slot0 k e))) (set (slot_ops property_num k 0 [] (e_property e)))"

lemma body_ops_set:
  assumes "k + length es \<le> edge_total" "16 * edge_total < 2 ^ 32"
  shows "\<exists>ops. body_ops property_num slot0 edge_total es (16 * k, word_of_nat (16 * k), word_of_nat (k * unat slot0)) =
      Some (ops, 16 * (k + length es), word_of_nat (16 * (k + length es)), word_of_nat ((k + length es) * unat slot0)) \<and>
    set ops = (\<Union>i < length es. edge_ops property_num (unat slot0) (k + i) (es ! i))"
  using assms(1)
proof (induction es arbitrary: k)
  case (Cons e es)
  have off: "word_of_nat (16 * k) + 16 = (word_of_nat (16 * Suc k) :: u32)"
    "word_of_nat (k * unat slot0) + slot0 = (word_of_nat (Suc k * unat slot0) :: u32)"
    by (simp_all add: algebra_simps)
  have bound: "unat (word_of_nat (16 * Suc k) :: u32) \<le> 16 * edge_total"
    using Cons.prems assms(2) by (subst unat_small_u32) auto
  have ord: "(16 * k + 16) div 16 - 1 = k" by simp
  obtain ops where ops: "body_ops property_num slot0 edge_total es (16 * Suc k, word_of_nat (16 * Suc k), word_of_nat (Suc k * unat slot0)) =
      Some (ops, 16 * (Suc k + length es), word_of_nat (16 * (Suc k + length es)), word_of_nat ((Suc k + length es) * unat slot0))"
    "set ops = (\<Union>i < length es. edge_ops property_num (unat slot0) (Suc k + i) (es ! i))"
    using Cons.IH [of "Suc k"] Cons.prems by auto
  have run: "body_ops property_num slot0 edge_total (e # es) (16 * k, word_of_nat (16 * k), word_of_nat (k * unat slot0)) =
      Some (WriteEdgeFile (16 * k) (EdgeBody_image (body_of (unat slot0) k e)) # slot_ops property_num k 0 [] (e_property e) @ ops,
        16 * (Suc k + length es), word_of_nat (16 * (Suc k + length es)), word_of_nat ((Suc k + length es) * unat slot0))"
    using ops(1) bound unfolding body_ops.simps Let_def off ord by (simp add: body_of_def add.commute)
  have "(\<Union>i < length (e # es). edge_ops property_num (unat slot0) (k + i) ((e # es) ! i)) =
      edge_ops property_num (unat slot0) k e \<union> (\<Union>i < length es. edge_ops property_num (unat slot0) (Suc k + i) (es ! i))"
    by (simp add: lessThan_Suc_eq_insert_0 image_image del: One_nat_def)
  then show ?case using run ops(2) by (intro exI conjI) (auto simp: edge_ops_def)
qed simp

text \<open>The writes for the source at position \<open>i\<close>.\<close>

definition source_op_set :: "layout_env \<Rightarrow> (VertexId_t \<Rightarrow> Edge list) \<Rightarrow> VertexId_t list \<Rightarrow> nat \<Rightarrow> flush_op set" where
  "source_op_set env E vs i =
     (let index = 16 * (length (flat E vs) + 1) + 12 * i; off = word_of_nat (16 * start_of E vs i) in
      {SortAdj (vs ! i), WriteEdgeFile index (le_bytes 8 (vs ! i)), WriteEdgeFile (index + 8) (le_bytes 4 (off :: u32)),
       SetIndex i \<lparr>ix_key = vs ! i, ix_offset = off\<rparr>} \<union>
      (\<Union>k \<in> {start_of E vs i ..< start_of E vs (Suc i)}.
         edge_ops (nat (GetActiveSubPropertyNum env)) (col_len env 0) k (flat E vs ! k)))"

definition adjs_hold :: "(VertexId_t \<Rightarrow> NewEdgeSL option) \<Rightarrow> (VertexId_t \<Rightarrow> Edge list) \<Rightarrow> VertexId_t list \<Rightarrow> bool" where
  "adjs_hold adjs E vs \<longleftrightarrow>
     (\<forall>v \<in> set vs. \<exists>ne. adjs v = Some ne \<and> NE_iterate (sort_edges ne) = Some (E v) \<and> getEdgeNum ne = length (E v))"

lemma source_ops_set:
  assumes adjs: "adjs_hold adjs E vs" and edge_total: "edge_total = length (flat E vs)" "16 * edge_total < 2 ^ 32"
    and "a \<le> b" "b \<le> length vs" "take (length vs) vset = vs"
  shows "\<exists>ops. source_ops env edge_total adjs vset [a ..< b] (16 * (edge_total + 1) + 12 * a)
      (16 * start_of E vs a, word_of_nat (16 * start_of E vs a), word_of_nat (start_of E vs a * col_len env 0)) = Some ops \<and>
    set ops = (\<Union>i \<in> {a ..< b}. source_op_set env E vs i)"
  using assms(4,5)
proof (induction "b - a" arbitrary: a)
  case (Suc n)
  then have a: "a < b" "a < length vs" by simp_all
  define pn where "pn = nat (GetActiveSubPropertyNum env)"
  define slot0 where "slot0 = GetSubPropertyFixedLength env 0"
  have slot0: "col_len env 0 = unat slot0" by (simp add: slot0_def)
  let ?s = "start_of E vs"
  have upt: "[a ..< b] = a # [Suc a ..< b]" using a(1) by (rule upt_conv_Cons)
  have v: "vset ! a = vs ! a" using assms(6) a(2) by (metis nth_take)
  obtain ne where ne: "adjs (vs ! a) = Some ne" "NE_iterate (sort_edges ne) = Some (E (vs ! a))"
    using adjs nth_mem [OF a(2)] unfolding adjs_hold_def by blast
  have next_start: "?s (Suc a) = ?s a + length (E (vs ! a))" by (rule start_of_Suc [OF a(2)])
  have "?s (Suc a) \<le> edge_total" using start_of_mono [of "Suc a" "length vs" E vs] a(2) by (simp add: start_of_all edge_total(1))
  then obtain ops1 where ops1:
    "body_ops pn slot0 edge_total (E (vs ! a)) (16 * ?s a, word_of_nat (16 * ?s a), word_of_nat (?s a * unat slot0)) =
      Some (ops1, 16 * ?s (Suc a), word_of_nat (16 * ?s (Suc a)), word_of_nat (?s (Suc a) * unat slot0))"
    "set ops1 = (\<Union>i < length (E (vs ! a)). edge_ops pn (unat slot0) (?s a + i) (E (vs ! a) ! i))"
    using body_ops_set [of "?s a" "E (vs ! a)" edge_total pn slot0] edge_total(2) unfolding next_start by blast
  have "n = b - Suc a" "Suc a \<le> b" using Suc.hyps(2) a by simp_all
  from Suc.hyps(1) [OF this Suc.prems(2)] obtain ops2 where ops2:
    "source_ops env edge_total adjs vset [Suc a ..< b] (16 * (edge_total + 1) + 12 * Suc a)
      (16 * ?s (Suc a), word_of_nat (16 * ?s (Suc a)), word_of_nat (?s (Suc a) * unat slot0)) = Some ops2"
    "set ops2 = (\<Union>i \<in> {Suc a ..< b}. source_op_set env E vs i)" unfolding slot0 by blast
  have step: "16 * (edge_total + 1) + 12 * a + 12 = 16 * (edge_total + 1) + 12 * Suc a" by simp
  have run: "source_ops env edge_total adjs vset [a ..< b] (16 * (edge_total + 1) + 12 * a)
      (16 * ?s a, word_of_nat (16 * ?s a), word_of_nat (?s a * col_len env 0)) =
    Some ([SortAdj (vs ! a), WriteEdgeFile (16 * (edge_total + 1) + 12 * a) (le_bytes 8 (vs ! a)),
      WriteEdgeFile (16 * (edge_total + 1) + 12 * a + 8) (le_bytes 4 (word_of_nat (16 * ?s a) :: u32)),
      SetIndex a \<lparr>ix_key = vs ! a, ix_offset = word_of_nat (16 * ?s a)\<rparr>] @ ops1 @ ops2)"
    unfolding upt source_ops.simps Let_def v ne option.case pn_def [symmetric] slot0_def [symmetric] slot0 ops1(1)
      prod.case step ops2(1) by simp
  have "set ops1 = (\<Union>k \<in> {?s a ..< ?s (Suc a)}. edge_ops pn (col_len env 0) k (flat E vs ! k))"
  proof -
    have "(\<Union>i < length (E (vs ! a)). edge_ops pn (unat slot0) (?s a + i) (E (vs ! a) ! i)) =
        (\<Union>i < length (E (vs ! a)). edge_ops pn (unat slot0) (?s a + i) (flat E vs ! (?s a + i)))"
      by (intro SUP_cong) (simp_all add: flat_nth [OF a(2)])
    also have "\<dots> = (\<Union>k \<in> (+) (?s a) ` {..< length (E (vs ! a))}. edge_ops pn (unat slot0) k (flat E vs ! k))"
      by (simp add: image_image)
    also have "(+) (?s a) ` {..< length (E (vs ! a))} = {?s a ..< ?s (Suc a)}"
      by (simp add: next_start lessThan_atLeast0 add.commute)
    finally show ?thesis unfolding ops1(2) slot0 .
  qed
  then have "set ([SortAdj (vs ! a), WriteEdgeFile (16 * (edge_total + 1) + 12 * a) (le_bytes 8 (vs ! a)),
      WriteEdgeFile (16 * (edge_total + 1) + 12 * a + 8) (le_bytes 4 (word_of_nat (16 * ?s a) :: u32)),
      SetIndex a \<lparr>ix_key = vs ! a, ix_offset = word_of_nat (16 * ?s a)\<rparr>] @ ops1 @ ops2) =
    source_op_set env E vs a \<union> (\<Union>i \<in> {Suc a ..< b}. source_op_set env E vs i)"
    by (simp add: ops2(2) source_op_set_def Let_def pn_def edge_total(1) Un_assoc)
  moreover have "{a ..< b} = insert a {Suc a ..< b}" using a by auto
  ultimately show ?case using run by simp
qed simp

section \<open>The plan of a flush\<close>

definition plan_ok :: "(VertexId_t \<Rightarrow> Edge list) \<Rightarrow> VertexId_t list \<Rightarrow> nat \<Rightarrow> chunk_plan \<Rightarrow> bool" where
  "plan_ok E vs slot0 p \<longleftrightarrow>
     cp_i p \<le> length vs \<and> cp_vertex_set p = take (cp_i p) vs \<and>
     cp_edge_num_sum p + cp_edge_num p = start_of E vs (cp_i p) \<and>
     cp_property_size_sum p = start_of E vs (cp_i p) * slot0 \<and>
     cp_src_ids p \<noteq> [] \<and> hd (cp_src_ids p) = 0 \<and> sorted (cp_src_ids p @ [cp_i p]) \<and>
     cp_edge_offset p = map (\<lambda>i. word_of_nat (start_of E vs i * 16)) (cp_src_ids p) \<and>
     cp_index_offset p = map (\<lambda>i. word_of_nat (i * 12)) (cp_src_ids p) \<and>
     cp_property_offsets p = map (\<lambda>i. word_of_nat (start_of E vs i * slot0)) (cp_src_ids p)"

lemma new_plan_ok: "plan_ok E vs slot0 new_plan"
  by (simp add: plan_ok_def new_plan_def)

lemma cut_chunk_ok:
  assumes "plan_ok E vs slot0 p"
  shows "plan_ok E vs slot0 (cut_chunk p)" "cp_i (cut_chunk p) = cp_i p"
  using assms by (auto simp: plan_ok_def cut_chunk_def Let_def sorted_append)

lemma add_source_ok:
  assumes "plan_ok E vs slot0 p" "cp_i p < length vs" "n = length (E (vs ! cp_i p))"
  shows "plan_ok E vs slot0 (p\<lparr>cp_edge_num := cp_edge_num p + n, cp_property_size_sum := cp_property_size_sum p + n * slot0,
    cp_vertex_set := cp_vertex_set p @ [vs ! cp_i p], cp_i := cp_i p + 1\<rparr>)"
  using assms by (auto simp: plan_ok_def start_of_Suc take_Suc_conv_app_nth sorted_append add_mult_distrib)

lemma plan_sources_ok:
  assumes adjs: "adjs_hold adjs E vs" "filter (\<lambda>v. adjs v \<noteq> None) ids = drop (cp_i p) vs" and "cp_i p < length vs" "plan_ok E vs slot0 p"
  shows "plan_ok E vs slot0 (plan_sources chunk_size (length vs) slot0 adjs ids p) \<and>
    cp_i (plan_sources chunk_size (length vs) slot0 adjs ids p) = length vs \<and>
    (length (flat E vs) \<le> chunk_size \<longrightarrow>
       cp_src_ids (plan_sources chunk_size (length vs) slot0 adjs ids p) = cp_src_ids p)"
  using assms(2-)
proof (induction ids arbitrary: p)
  case (Cons v ids)
  show ?case
  proof (cases "adjs v")
    case None
    with Cons show ?thesis by simp
  next
    case (Some ne)
    have drop: "drop (cp_i p) vs = vs ! cp_i p # drop (Suc (cp_i p)) vs" using Cons.prems(2) by (rule Cons_nth_drop_Suc [symmetric])
    then have v: "v = vs ! cp_i p" "filter (\<lambda>v. adjs v \<noteq> None) ids = drop (Suc (cp_i p)) vs"
      using Cons.prems(1) Some by auto
    have "v \<in> set vs" using v(1) Cons.prems(2) by simp
    then have n: "getEdgeNum ne = length (E (vs ! cp_i p))" using adjs(1) Some v(1) by (auto simp: adjs_hold_def)
    define p1 where "p1 = (if cp_edge_num p + getEdgeNum ne > chunk_size then cut_chunk p else p)"
    define p2 where "p2 = p1\<lparr>cp_edge_num := cp_edge_num p1 + getEdgeNum ne,
        cp_property_size_sum := cp_property_size_sum p1 + getEdgeNum ne * slot0,
        cp_vertex_set := cp_vertex_set p1 @ [v], cp_i := cp_i p1 + 1\<rparr>"
    have p1: "plan_ok E vs slot0 p1" "cp_i p1 = cp_i p" using cut_chunk_ok [OF Cons.prems(3)] Cons.prems(3) by (auto simp: p1_def)
    then have p2: "plan_ok E vs slot0 p2" "cp_i p2 = Suc (cp_i p)"
      using add_source_ok [OF p1(1), of "getEdgeNum ne"] n Cons.prems(2) v(1) by (simp_all add: p2_def)
    have same: "cp_src_ids p2 = cp_src_ids p" if "length (flat E vs) \<le> chunk_size"
    proof -
      have "cp_edge_num p + getEdgeNum ne \<le> start_of E vs (Suc (cp_i p))"
        using Cons.prems(2,3) n by (auto simp: plan_ok_def start_of_Suc)
      also have "\<dots> \<le> length (flat E vs)" using start_of_mono [of "Suc (cp_i p)" "length vs" E vs] Cons.prems(2)
        by (simp add: start_of_all)
      finally show ?thesis using that by (simp add: p2_def p1_def)
    qed
    have step: "plan_sources chunk_size (length vs) slot0 adjs (v # ids) p =
        (if cp_i p2 \<ge> length vs then p2 else plan_sources chunk_size (length vs) slot0 adjs ids p2)"
      unfolding plan_sources.simps Some option.case Let_def p1_def [symmetric] p2_def [symmetric] ..
    show ?thesis
    proof (cases "cp_i p2 \<ge> length vs")
      case True
      then have "cp_i p2 = length vs" using p2(2) Cons.prems(2) by simp
      with True p2 same show ?thesis unfolding step by simp
    next
      case False
      then have "filter (\<lambda>v. adjs v \<noteq> None) ids = drop (cp_i p2) vs" "cp_i p2 < length vs" using v(2) p2(2) by simp_all
      from Cons.IH [OF this p2(1)] False same show ?thesis unfolding step by simp
    qed
  qed
qed simp

text \<open>A finished plan: chunk \<open>c\<close> holds the sources from its entry in the list of first sources to the next.\<close>

definition plan_done :: "(VertexId_t \<Rightarrow> Edge list) \<Rightarrow> VertexId_t list \<Rightarrow> nat \<Rightarrow> chunk_plan \<Rightarrow> nat list \<Rightarrow> bool" where
  "plan_done E vs slot0 p S \<longleftrightarrow>
     cp_i p = length vs \<and> cp_vertex_set p = vs \<and> cp_edge_num_sum p = length (flat E vs) \<and>
     S \<noteq> [] \<and> hd S = 0 \<and> sorted (S @ [length vs]) \<and> cp_src_ids p = S @ [length vs] \<and>
     cp_edge_offset p = map (\<lambda>i. word_of_nat (start_of E vs i * 16)) S \<and>
     cp_index_offset p = map (\<lambda>i. word_of_nat (i * 12)) S \<and>
     cp_property_offsets p = map (\<lambda>i. word_of_nat (start_of E vs i * slot0)) (S @ [length vs])"

lemma plan_done:
  assumes "adjs_hold adjs E vs" "filter (\<lambda>v. adjs v \<noteq> None) ids = vs" "vs \<noteq> []"
    and p: "p = finish_plan (plan_sources chunk_size (length vs) slot0 adjs ids new_plan)"
  obtains S where "plan_done E vs slot0 p S" "length (flat E vs) \<le> chunk_size \<longrightarrow> S = [0]"
proof -
  define q where "q = plan_sources chunk_size (length vs) slot0 adjs ids new_plan"
  have i: "cp_i new_plan = 0" "cp_src_ids new_plan = [0]" by (simp_all add: new_plan_def)
  have q: "plan_ok E vs slot0 q" "cp_i q = length vs" "length (flat E vs) \<le> chunk_size \<longrightarrow> cp_src_ids q = [0]"
    using plan_sources_ok [OF assms(1) _ _ new_plan_ok, of ids slot0 chunk_size] assms(2,3) by (simp_all add: i q_def)
  have "plan_done E vs slot0 p (cp_src_ids q)"
    using q(1,2) by (simp add: plan_done_def p q_def [symmetric] finish_plan_def plan_ok_def start_of_all)
  with q(3) show ?thesis by (intro that) auto
qed

lemma sorted_chunks_cover:
  assumes "sorted (S @ [m :: nat])" "S \<noteq> []" "hd S = 0"
  shows "(\<Union>c < length S. {(S @ [m]) ! c ..< (S @ [m]) ! Suc c}) = {0 ..< m}"
proof
  have le: "(S @ [m]) ! Suc c \<le> m" if "c < length S" for c
    using sorted_nth_mono [OF assms(1), of "Suc c" "length S"] that by (simp add: nth_append)
  then show "(\<Union>c < length S. {(S @ [m]) ! c ..< (S @ [m]) ! Suc c}) \<subseteq> {0 ..< m}"
    by (fastforce dest: order.strict_trans2)
  show "{0 ..< m} \<subseteq> (\<Union>c < length S. {(S @ [m]) ! c ..< (S @ [m]) ! Suc c})"
  proof
    fix i assume i: "i \<in> {0 ..< m}"
    define j where "j = (LEAST j. i < (S @ [m]) ! j)"
    have ex: "i < (S @ [m]) ! length S" using i by simp
    have j: "i < (S @ [m]) ! j" unfolding j_def by (rule LeastI [of "\<lambda>j. i < (S @ [m]) ! j", OF ex])
    have j': "j \<le> length S" unfolding j_def by (rule Least_le [of "\<lambda>j. i < (S @ [m]) ! j", OF ex])
    have "(S @ [m]) ! 0 = 0" using assms(2,3) by (simp add: nth_append hd_conv_nth)
    with j obtain c where c: "j = Suc c" by (cases j) auto
    have "\<not> i < (S @ [m]) ! c" using c not_less_Least [of c "\<lambda>j. i < (S @ [m]) ! j"] by (simp add: j_def)
    with c j j' show "i \<in> (\<Union>c < length S. {(S @ [m]) ! c ..< (S @ [m]) ! Suc c})" by (intro UN_I [of c]) auto
  qed
qed

text \<open>All chunks together, for one thread and for several.\<close>

lemma chunks_set:
  assumes adjs: "adjs_hold adjs E vs" and plan: "plan_done E vs (col_len env 0) p S"
    and small: "16 * length (flat E vs) < 2 ^ 32" "12 * length vs < 2 ^ 32"
    and one: "subcompactions \<le> 1 \<Longrightarrow> S = [0]"
  shows "\<exists>ls. map (build_sstable env adjs (length (flat E vs)) p) (chunk_ids subcompactions p) = map Some ls \<and>
    (\<Union>l \<in> set ls. set l) = (\<Union>i < length vs. source_op_set env E vs i)"
proof -
  let ?t = "length (flat E vs)" and ?m = "length vs" and ?S = "S @ [length vs]"
  have pd: "cp_vertex_set p = vs" "cp_src_ids p = ?S" "S \<noteq> []" "hd S = 0" "sorted ?S"
    "cp_edge_offset p = map (\<lambda>i. word_of_nat (start_of E vs i * 16)) S" "cp_index_offset p = map (\<lambda>i. word_of_nat (i * 12)) S"
    "cp_property_offsets p = map (\<lambda>i. word_of_nat (start_of E vs i * col_len env 0)) ?S"
    using plan by (auto simp: plan_done_def)
  have ids: "chunk_ids subcompactions p = [0 ..< length S]"
    using one by (cases "subcompactions > 1") (auto simp: chunk_ids_def pd(2))
  have chunk: "\<exists>ops. build_sstable env adjs ?t p c = Some ops \<and>
      set ops = (\<Union>i \<in> {?S ! c ..< ?S ! Suc c}. source_op_set env E vs i)" if c: "c < length S" for c
  proof -
    have a: "?S ! c \<le> ?S ! Suc c" "?S ! Suc c \<le> ?m"
      using sorted_nth_mono [OF pd(5), of c "Suc c"] sorted_nth_mono [OF pd(5), of "Suc c" "length S"] c by (auto simp: nth_append)
    then have "start_of E vs (?S ! c) \<le> ?t" using start_of_mono [of "?S ! c" ?m E vs] by (simp add: start_of_all)
    then have small': "16 * start_of E vs (?S ! c) < 2 ^ 32" "12 * ?S ! c < 2 ^ 32" using small a by linarith+
    have w: "cp_edge_offset p ! c = word_of_nat (16 * start_of E vs (?S ! c))" "cp_index_offset p ! c = word_of_nat (12 * ?S ! c)"
      "cp_property_offsets p ! c = word_of_nat (start_of E vs (?S ! c) * col_len env 0)"
      using c unfolding pd(6-8) by (simp_all add: nth_append mult.commute)
    have u: "unat (cp_edge_offset p ! c) = 16 * start_of E vs (?S ! c)" "unat (cp_index_offset p ! c) = 12 * ?S ! c"
      unfolding w by (rule unat_small_u32 [OF small'(1)], rule unat_small_u32 [OF small'(2)])
    from source_ops_set [OF adjs refl small(1) a, of vs env] show ?thesis
      unfolding build_sstable_def u unfolding w pd(1,2) by simp
  qed
  define ls where "ls = map (\<lambda>c. the (build_sstable env adjs ?t p c)) [0 ..< length S]"
  have "build_sstable env adjs ?t p c = Some (the (build_sstable env adjs ?t p c))" if "c < length S" for c
    using chunk [OF that] by auto
  then have 1: "map (build_sstable env adjs ?t p) [0 ..< length S] = map Some ls" by (simp add: ls_def)
  have "(\<Union>l \<in> set ls. set l) = (\<Union>c < length S. set (the (build_sstable env adjs ?t p c)))"
    by (simp add: ls_def atLeast0LessThan)
  also have "\<dots> = (\<Union>c < length S. \<Union>i \<in> {?S ! c ..< ?S ! Suc c}. source_op_set env E vs i)"
    using chunk by (intro SUP_cong) fastforce+
  also have "\<dots> = (\<Union>i \<in> (\<Union>c < length S. {?S ! c ..< ?S ! Suc c}). source_op_set env E vs i)" by blast
  also have "\<dots> = (\<Union>i < ?m. source_op_set env E vs i)"
    unfolding sorted_chunks_cover [OF pd(5,3,4)] by (simp add: atLeast0LessThan)
  finally show ?thesis using 1 ids by auto
qed

section \<open>The finished buffers\<close>

definition ix_image :: "Index \<Rightarrow> bytes" where
  "ix_image ix = le_bytes 8 (ix_key ix) @ le_bytes 4 (ix_offset ix)"

definition end_body :: "nat \<Rightarrow> nat \<Rightarrow> EdgeBody_t_Dym" where
  "end_body slot0 n = mk_EdgeBody kInvalidVertexId kInvalidVertexId (word_of_nat (n * slot0)) False True 0"

definition bodies_of :: "nat \<Rightarrow> Edge list \<Rightarrow> EdgeBody_t_Dym list" where
  "bodies_of slot0 es = map (\<lambda>k. body_of slot0 k (es ! k)) [0 ..< length es] @ [end_body slot0 (length es)]"

definition indexes_of :: "(VertexId_t \<Rightarrow> Edge list) \<Rightarrow> VertexId_t list \<Rightarrow> Index list" where
  "indexes_of E vs = map (\<lambda>i. \<lparr>ix_key = vs ! i, ix_offset = word_of_nat (16 * start_of E vs i)\<rparr>) [0 ..< length vs]"

definition end_index :: "nat \<Rightarrow> Index" where
  "end_index n = \<lparr>ix_key = kInvalidVertexId, ix_offset = word_of_nat (16 * n)\<rparr>"

definition column_of :: "nat \<Rightarrow> nat \<Rightarrow> Edge list \<Rightarrow> bytes" where
  "column_of len p es = concat (map (\<lambda>e. slot_image len (ExtractSubProperty (e_property e) (int p))) es)"

definition target ::
  "layout_env \<Rightarrow> (VertexId_t \<Rightarrow> NewEdgeSL option) \<Rightarrow> (VertexId_t \<Rightarrow> Edge list) \<Rightarrow> VertexId_t list \<Rightarrow> Header \<Rightarrow> flush_state" where
  "target env adjs E vs h =
     \<lparr>fs_efile = concat (map EdgeBody_image (bodies_of (col_len env 0) (flat E vs))) @
        concat (map ix_image (indexes_of E vs @ [end_index (length (flat E vs))])) @ Header_image h,
      fs_pfiles = map (\<lambda>p. column_of (col_len env p) p (flat E vs)) [0 ..< nat (GetActiveSubPropertyNum env)],
      fs_indexes = indexes_of E vs, fs_adjs = (\<lambda>v. map_option sort_edges (adjs v))\<rparr>"

lemma image_lengths [simp]:
  "length (EdgeBody_image b) = 16" "length (ix_image ix) = 12" "length (Header_image h) = 40"
  "length (bodies_of slot0 es) = Suc (length es)" "length (indexes_of E vs) = length vs"
  by (simp_all add: EdgeBody_image_def ix_image_def Header_image_def bodies_of_def indexes_of_def)

lemma length_concat_const: "(\<And>x. x \<in> set xs \<Longrightarrow> length (f x) = n) \<Longrightarrow> length (concat (map f xs)) = length xs * n"
  by (induction xs) auto

lemma column_of_slice:
  assumes "k < length es"
  shows "slice (k * len) len (column_of len p es) = slot_image len (ExtractSubProperty (e_property (es ! k)) (int p))"
    "k * len + len \<le> length (column_of len p es)"
proof -
  show "slice (k * len) len (column_of len p es) = slot_image len (ExtractSubProperty (e_property (es ! k)) (int p))"
    using slice_concat [of es "\<lambda>e. slot_image len (ExtractSubProperty (e_property e) (int p))" len k "[]"] assms
    by (simp add: column_of_def)
  have "length (column_of len p es) = length es * len" unfolding column_of_def by (rule length_concat_const) simp
  then show "k * len + len \<le> length (column_of len p es)" using assms by (metis slots_disjoint)
qed

lemma target_efile:
  fixes env adjs E vs h
  defines "T \<equiv> fs_efile (target env adjs E vs h)" and "n \<equiv> length (flat E vs)" and "m \<equiv> length vs"
  shows "length T = 16 * (n + 1) + 12 * (m + 1) + 40"
    "k < n + 1 \<Longrightarrow> slice (16 * k) 16 T = EdgeBody_image (bodies_of (col_len env 0) (flat E vs) ! k)"
    "i < m + 1 \<Longrightarrow> slice (16 * (n + 1) + 12 * i) 12 T = ix_image ((indexes_of E vs @ [end_index n]) ! i)"
    "slice (16 * (n + 1) + 12 * (m + 1)) 40 T = Header_image h"
proof -
  define A where "A = concat (map EdgeBody_image (bodies_of (col_len env 0) (flat E vs)))"
  define B where "B = concat (map ix_image (indexes_of E vs @ [end_index n]))"
  have T: "T = A @ B @ Header_image h" by (simp add: T_def target_def A_def B_def n_def)
  have A: "length A = 16 * (n + 1)" unfolding A_def by (subst length_concat_const [where n = 16]) (auto simp: n_def)
  have B: "length B = 12 * (m + 1)" unfolding B_def by (subst length_concat_const [where n = 12]) (auto simp: m_def)
  show "length T = 16 * (n + 1) + 12 * (m + 1) + 40" by (simp add: T A B)
  show "k < n + 1 \<Longrightarrow> slice (16 * k) 16 T = EdgeBody_image (bodies_of (col_len env 0) (flat E vs) ! k)"
    unfolding T A_def using slice_concat [of "bodies_of (col_len env 0) (flat E vs)" EdgeBody_image 16 k]
    by (simp add: n_def mult.commute)
  show "i < m + 1 \<Longrightarrow> slice (16 * (n + 1) + 12 * i) 12 T = ix_image ((indexes_of E vs @ [end_index n]) ! i)"
    unfolding T using slice_concat [of "indexes_of E vs @ [end_index n]" ix_image 12 i "Header_image h"] A
    by (simp add: slice_skip m_def B_def mult.commute)
  show "slice (16 * (n + 1) + 12 * (m + 1)) 40 T = Header_image h"
    unfolding T using A B by (simp add: slice_skip slice_all)
qed

text \<open>The slot writes of an edge: one per column, each with the column's part of the payload.\<close>

definition slot_op :: "nat \<Rightarrow> nat \<Rightarrow> string \<Rightarrow> flush_op \<Rightarrow> bool" where
  "slot_op p k seg op \<longleftrightarrow> op = WriteSlot p k seg \<or> op = ZeroSlot p k \<and> seg = []"

lemma extract_loop_past: "current > property_id \<Longrightarrow> extract_loop property_id current seg cs = []"
  by (induction property_id current seg cs rule: extract_loop.induct) auto

lemma slot_ops_sound:
  "op \<in> set (slot_ops property_num k sub seg cs) \<Longrightarrow>
   \<exists>p. sub \<le> p \<and> p < property_num \<and> slot_op p k (extract_loop (int p) (int sub) seg cs) op"
proof (induction property_num k sub seg cs rule: slot_ops.induct)
  case (1 property_num k sub seg)
  then show ?case by (auto simp: slot_op_def split: if_splits)
next
  case (2 property_num k sub seg c cs)
  show ?case
  proof (cases "c = CHR ''|''")
    case True
    consider "op = WriteSlot sub k seg" "sub < property_num" | "op \<in> set (slot_ops property_num k (sub + 1) [] cs)" "sub < property_num"
      using "2.prems" True by (auto split: if_splits)
    then show ?thesis
    proof cases
      case 1
      then show ?thesis using True by (intro exI [of _ sub]) (simp add: slot_op_def)
    next
      case 2
      then obtain p where "sub + 1 \<le> p" "p < property_num" "slot_op p k (extract_loop (int p) (int (sub + 1)) [] cs) op"
        using "2.IH"(1) [OF 2(2) True] by blast
      then show ?thesis using True by (intro exI [of _ p]) (simp add: add.commute)
    qed
  next
    case False
    then have "op \<in> set (slot_ops property_num k sub (seg @ [c]) cs)" "sub < property_num" using "2.prems" by (auto split: if_splits)
    with "2.IH"(2) False show ?thesis by simp
  qed
qed

lemma slot_ops_complete:
  "sub \<le> p \<Longrightarrow> p < property_num \<Longrightarrow>
   \<exists>op \<in> set (slot_ops property_num k sub seg cs). slot_op p k (extract_loop (int p) (int sub) seg cs) op"
proof (induction property_num k sub seg cs rule: slot_ops.induct)
  case (1 property_num k sub seg)
  then show ?case by (cases "p = sub") (auto simp: slot_op_def)
next
  case (2 property_num k sub seg c cs)
  have sub: "sub < property_num" using "2.prems" by simp
  show ?case
  proof (cases "c = CHR ''|''")
    case True
    show ?thesis
    proof (cases "p = sub")
      case True
      then show ?thesis using \<open>c = _\<close> sub by (simp add: slot_op_def)
    next
      case False
      then have "\<exists>op \<in> set (slot_ops property_num k (sub + 1) [] cs). slot_op p k (extract_loop (int p) (int (sub + 1)) [] cs) op"
        using "2.IH"(1) [OF sub True] "2.prems" by simp
      then show ?thesis using True False sub by (auto simp: add.commute)
    qed
  next
    case False
    with "2.IH"(2) [OF sub False] "2.prems" sub show ?thesis by simp
  qed
qed

lemma edge_slot_ops:
  "op \<in> set (slot_ops property_num k 0 [] payload) \<Longrightarrow>
     \<exists>p < property_num. slot_op p k (ExtractSubProperty payload (int p)) op"
  "p < property_num \<Longrightarrow> \<exists>op \<in> set (slot_ops property_num k 0 [] payload). slot_op p k (ExtractSubProperty payload (int p)) op"
  using slot_ops_sound [of op property_num k 0 "[]" payload] slot_ops_complete [of 0 p property_num k "[]" payload]
  by (auto simp: ExtractSubProperty_def)

lemma slot_op_agrees:
  assumes op: "slot_op p k (ExtractSubProperty (e_property (flat E vs ! k)) (int p)) op"
    and "p < nat (GetActiveSubPropertyNum env)" "k < length (flat E vs)"
  shows "agrees env (target env adjs E vs h) op" "op_cells env op = PCell p ` {k * col_len env p ..< k * col_len env p + col_len env p}"
proof -
  have f: "fs_pfiles (target env adjs E vs h) ! p = column_of (col_len env p) p (flat E vs)"
    "p < length (fs_pfiles (target env adjs E vs h))" using assms(2) by (simp_all add: target_def)
  show "agrees env (target env adjs E vs h) op"
    using op column_of_slice [OF assms(3), of "col_len env p" p] f
    by (auto simp: slot_op_def agrees_def slot_image_def bytes_of_def)
  show "op_cells env op = PCell p ` {k * col_len env p ..< k * col_len env p + col_len env p}"
    using op by (auto simp: slot_op_def op_cells_def)
qed

lemma edge_ops_agree:
  assumes "op \<in> edge_ops (nat (GetActiveSubPropertyNum env)) (col_len env 0) k (flat E vs ! k)" "k < length (flat E vs)"
  shows "agrees env (target env adjs E vs h) op"
proof -
  have "bodies_of (col_len env 0) (flat E vs) ! k = body_of (col_len env 0) k (flat E vs ! k)"
    using assms(2) by (simp add: bodies_of_def nth_append)
  then have "agrees env (target env adjs E vs h) (WriteEdgeFile (16 * k) (EdgeBody_image (body_of (col_len env 0) k (flat E vs ! k))))"
    using target_efile(2) [of k E vs env adjs h] target_efile(1) [of env adjs E vs h] assms(2) by (simp add: agrees_def)
  moreover have "agrees env (target env adjs E vs h) op"
    if slot: "op \<in> set (slot_ops (nat (GetActiveSubPropertyNum env)) k 0 [] (e_property (flat E vs ! k)))"
    using edge_slot_ops(1) [OF slot] slot_op_agrees(1) [OF _ _ assms(2)] by blast
  ultimately show ?thesis using assms(1) by (auto simp: edge_ops_def)
qed

lemma index_parts:
  assumes "slice off 12 T = ix_image ix"
  shows "slice off 8 T = le_bytes 8 (ix_key ix)" "slice (off + 8) 4 T = le_bytes 4 (ix_offset ix)"
proof -
  show "slice off 8 T = le_bytes 8 (ix_key ix)"
    using slice_slice [of 0 8 12 off T] unfolding assms by (simp add: ix_image_def layout)
  show "slice (off + 8) 4 T = le_bytes 4 (ix_offset ix)"
    using slice_slice [of 8 4 12 off T] unfolding assms by (simp add: ix_image_def layout)
qed

lemma source_ops_agree:
  assumes "op \<in> source_op_set env E vs i" "i < length vs"
  shows "agrees env (target env adjs E vs h) op"
proof -
  let ?T = "target env adjs E vs h" and ?n = "length (flat E vs)"
  have ix: "(indexes_of E vs @ [end_index ?n]) ! i = \<lparr>ix_key = vs ! i, ix_offset = word_of_nat (16 * start_of E vs i)\<rparr>"
    using assms(2) by (simp add: indexes_of_def nth_append)
  have parts: "slice (16 * (?n + 1) + 12 * i) 8 (fs_efile ?T) = le_bytes 8 (vs ! i)"
    "slice (16 * (?n + 1) + 12 * i + 8) 4 (fs_efile ?T) = le_bytes 4 (word_of_nat (16 * start_of E vs i) :: u32)"
    using index_parts [OF target_efile(3) [of i vs E env adjs h]] target_efile(1) [of env adjs E vs h] assms(2) unfolding ix by simp_all
  have "k < ?n" if "k < start_of E vs (Suc i)" for k
    using that start_of_mono [of "Suc i" "length vs" E vs] assms(2) by (simp add: start_of_all)
  then have edges: "agrees env ?T op" if "k \<in> {start_of E vs i ..< start_of E vs (Suc i)}"
      "op \<in> edge_ops (nat (GetActiveSubPropertyNum env)) (col_len env 0) k (flat E vs ! k)" for k
    using edge_ops_agree [OF that(2)] that(1) by simp
  have "agrees env ?T (SetIndex i \<lparr>ix_key = vs ! i, ix_offset = word_of_nat (16 * start_of E vs i)\<rparr>)"
    using assms(2) by (simp add: agrees_def target_def indexes_of_def)
  moreover have "agrees env ?T (WriteEdgeFile (16 * (?n + 1) + 12 * i) (le_bytes 8 (vs ! i)))"
    "agrees env ?T (WriteEdgeFile (16 * (?n + 1) + 12 * i + 8) (le_bytes 4 (word_of_nat (16 * start_of E vs i) :: u32)))"
    using parts target_efile(1) [of env adjs E vs h] assms(2) by (simp_all add: agrees_def)
  moreover have "agrees env ?T (SortAdj (vs ! i))" by (simp add: agrees_def)
  ultimately show ?thesis using assms(1) edges unfolding source_op_set_def Let_def by blast
qed

lemma tail_ops_agree:
  assumes plan: "plan_done E vs (col_len env 0) p S" and m: "mt_src_vertex_num mt = length vs"
    and op: "op \<in> set (tail_ops mt (length (flat E vs)) p)"
  shows "agrees env (target env adjs E vs (flush_header mt (length (flat E vs)) p)) op"
proof -
  let ?n = "length (flat E vs)" and ?m = "length vs" and ?h = "flush_header mt (length (flat E vs)) p"
  let ?T = "target env adjs E vs ?h"
  have len: "length (fs_efile ?T) = 16 * (?n + 1) + 12 * (?m + 1) + 40" by (rule target_efile)
  have last: "last (cp_property_offsets p) = word_of_nat (?n * col_len env 0)"
    using plan by (simp add: plan_done_def start_of_all)
  have "(indexes_of E vs @ [end_index ?n]) ! ?m = end_index ?n" by (simp add: nth_append)
  then have "slice (16 * (?n + 1) + 12 * ?m) 12 (fs_efile ?T) = ix_image (end_index ?n)"
    using target_efile(3) [of ?m vs E env adjs ?h] by simp
  from index_parts [OF this] len
  have ix: "slice (16 * (?n + 1) + 12 * ?m) 8 (fs_efile ?T) = le_bytes 8 kInvalidVertexId"
    "slice (16 * (?n + 1) + 12 * ?m + 8) 4 (fs_efile ?T) = le_bytes 4 (word_of_nat (16 * ?n) :: u32)"
    by (simp_all add: end_index_def)
  have "bodies_of (col_len env 0) (flat E vs) ! ?n = end_body (col_len env 0) ?n" by (simp add: bodies_of_def nth_append)
  then have body: "slice (16 * ?n) 16 (fs_efile ?T) = EdgeBody_image (end_body (col_len env 0) ?n)"
    using target_efile(2) [of ?n E vs env adjs ?h] by simp
  have header: "slice (16 * (?n + 1) + 12 * (?m + 1)) 40 (fs_efile ?T) = Header_image ?h" by (rule target_efile)
  have "set (tail_ops mt ?n p) = {WriteEdgeFile (16 * (?n + 1) + 12 * ?m) (le_bytes 8 kInvalidVertexId),
      WriteEdgeFile (16 * (?n + 1) + 12 * ?m + 8) (le_bytes 4 (word_of_nat (16 * ?n) :: u32)),
      WriteEdgeFile (16 * ?n) (EdgeBody_image (end_body (col_len env 0) ?n)),
      WriteEdgeFile (16 * (?n + 1) + 12 * (?m + 1)) (Header_image ?h)}"
    unfolding tail_ops_def Let_def m last end_body_def by simp
  then consider "op = WriteEdgeFile (16 * (?n + 1) + 12 * ?m) (le_bytes 8 kInvalidVertexId)"
    | "op = WriteEdgeFile (16 * (?n + 1) + 12 * ?m + 8) (le_bytes 4 (word_of_nat (16 * ?n) :: u32))"
    | "op = WriteEdgeFile (16 * ?n) (EdgeBody_image (end_body (col_len env 0) ?n))"
    | "op = WriteEdgeFile (16 * (?n + 1) + 12 * (?m + 1)) (Header_image ?h)" using op by blast
  then show ?thesis
  proof cases
    case 1
    with ix(1) len show ?thesis by (simp add: agrees_def)
  next
    case 2
    with ix(2) len show ?thesis by (simp add: agrees_def)
  next
    case 3
    with body len show ?thesis by (simp add: agrees_def)
  next
    case 4
    with header len show ?thesis by (simp add: agrees_def)
  qed
qed

text \<open>The writes reach every cell of the target.\<close>

definition reached :: "layout_env \<Rightarrow> flush_op set \<Rightarrow> cell \<Rightarrow> bool" where
  "reached env ops c \<longleftrightarrow> (\<exists>op \<in> ops. c \<in> op_cells env op)"

lemma reached_edge_file:
  "WriteEdgeFile off bs \<in> ops \<Longrightarrow> off \<le> k \<Longrightarrow> k < off + length bs \<Longrightarrow> reached env ops (ECell k)"
  by (force simp: reached_def op_cells_def)

lemma edge_ops_reach:
  assumes "edge_ops (nat (GetActiveSubPropertyNum env)) (col_len env 0) k (flat E vs ! k) \<subseteq> ops" "k < length (flat E vs)"
  shows "\<And>b. 16 * k \<le> b \<Longrightarrow> b < 16 * k + 16 \<Longrightarrow> reached env ops (ECell b)"
    "\<And>b p. p < nat (GetActiveSubPropertyNum env) \<Longrightarrow> k * col_len env p \<le> b \<Longrightarrow> b < k * col_len env p + col_len env p \<Longrightarrow>
       reached env ops (PCell p b)"
proof -
  fix b assume "16 * k \<le> b" "b < 16 * k + 16"
  moreover have "WriteEdgeFile (16 * k) (EdgeBody_image (body_of (col_len env 0) k (flat E vs ! k))) \<in> ops"
    using assms(1) by (simp add: edge_ops_def)
  ultimately show "reached env ops (ECell b)" by (intro reached_edge_file) auto
next
  fix b p assume p: "p < nat (GetActiveSubPropertyNum env)" and b: "k * col_len env p \<le> b" "b < k * col_len env p + col_len env p"
  obtain op where op: "op \<in> set (slot_ops (nat (GetActiveSubPropertyNum env)) k 0 [] (e_property (flat E vs ! k)))"
    "slot_op p k (ExtractSubProperty (e_property (flat E vs ! k)) (int p)) op" using edge_slot_ops(2) [OF p] by blast
  have "op \<in> ops" using op(1) assms(1) by (auto simp: edge_ops_def)
  moreover have "PCell p b \<in> op_cells env op" using slot_op_agrees(2) [OF op(2) p assms(2)] b by simp
  ultimately show "reached env ops (PCell p b)" by (auto simp: reached_def)
qed

lemma source_ops_reach:
  assumes "source_op_set env E vs i \<subseteq> ops" "i < length vs"
  shows "reached env ops (ICell i)" "reached env ops (ACell (vs ! i))"
    "\<And>b. 16 * (length (flat E vs) + 1) + 12 * i \<le> b \<Longrightarrow> b < 16 * (length (flat E vs) + 1) + 12 * i + 12 \<Longrightarrow>
       reached env ops (ECell b)"
proof -
  let ?x = "16 * (length (flat E vs) + 1) + 12 * i" and ?o = "word_of_nat (16 * start_of E vs i) :: u32"
  have ops: "SortAdj (vs ! i) \<in> ops" "SetIndex i \<lparr>ix_key = vs ! i, ix_offset = ?o\<rparr> \<in> ops"
    "WriteEdgeFile ?x (le_bytes 8 (vs ! i)) \<in> ops" "WriteEdgeFile (?x + 8) (le_bytes 4 ?o) \<in> ops"
    using assms(1) by (simp_all add: source_op_set_def Let_def)
  show "reached env ops (ICell i)" "reached env ops (ACell (vs ! i))"
    using ops(1,2) by (force simp: reached_def op_cells_def)+
  show "reached env ops (ECell b)" if "?x \<le> b" "b < ?x + 12" for b
    using that reached_edge_file [OF ops(3), of b] reached_edge_file [OF ops(4), of b] by (cases "b < ?x + 8") auto
qed

lemma file_region:
  fixes b n m :: nat
  shows "b div 16 < n \<or> 16 * n \<le> b \<and> b < 16 * n + 16 \<or>
    (\<exists>i < m. 16 * (n + 1) + 12 * i \<le> b \<and> b < 16 * (n + 1) + 12 * i + 12) \<or>
    16 * (n + 1) + 12 * m \<le> b \<and> b < 16 * (n + 1) + 12 * m + 8 \<or>
    16 * (n + 1) + 12 * m + 8 \<le> b \<and> b < 16 * (n + 1) + 12 * m + 12 \<or> 16 * (n + 1) + 12 * (m + 1) \<le> b"
proof (cases "16 * (n + 1) \<le> b \<and> b < 16 * (n + 1) + 12 * m")
  case True
  define i where "i = (b - 16 * (n + 1)) div 12"
  have "i < m" "16 * (n + 1) + 12 * i \<le> b" "b < 16 * (n + 1) + 12 * i + 12" using True unfolding i_def by linarith+
  then show ?thesis by blast
next
  case False
  moreover have "b div 16 < n \<or> 16 * n \<le> b" by linarith
  ultimately show ?thesis by (simp add: algebra_simps) linarith
qed

lemma flush_reaches:
  assumes ops: "ops = (\<Union>i < length vs. source_op_set env E vs i) \<union> set (tail_ops mt (length (flat E vs)) p)"
    and m: "mt_src_vertex_num mt = length vs"
  shows "b < 16 * (length (flat E vs) + 1) + 12 * (length vs + 1) + 40 \<Longrightarrow> reached env ops (ECell b)"
    "q < nat (GetActiveSubPropertyNum env) \<Longrightarrow> b < length (flat E vs) * col_len env q \<Longrightarrow> reached env ops (PCell q b)"
    "i < length vs \<Longrightarrow> reached env ops (ICell i)" "v \<in> set vs \<Longrightarrow> reached env ops (ACell v)"
proof -
  let ?n = "length (flat E vs)" and ?m = "length vs"
  have src: "source_op_set env E vs i \<subseteq> ops" if "i < ?m" for i using that ops by blast
  have edge: "edge_ops (nat (GetActiveSubPropertyNum env)) (col_len env 0) k (flat E vs ! k) \<subseteq> ops" if k: "k < ?n" for k
  proof -
    from flat_position [OF k] obtain i where i: "i < ?m" "start_of E vs i \<le> k" "k < start_of E vs (Suc i)" .
    then have "edge_ops (nat (GetActiveSubPropertyNum env)) (col_len env 0) k (flat E vs ! k) \<subseteq> source_op_set env E vs i"
      unfolding source_op_set_def Let_def by fastforce
    with src [OF i(1)] show ?thesis by blast
  qed
  have tail: "set (tail_ops mt ?n p) \<subseteq> ops" using ops by blast
  show "reached env ops (ICell i)" if "i < ?m" using source_ops_reach(1) [OF src [OF that] that] .
  show "reached env ops (ACell v)" if "v \<in> set vs"
    using that source_ops_reach(2) [OF src] by (auto simp: in_set_conv_nth)
  show "reached env ops (PCell q b)" if "q < nat (GetActiveSubPropertyNum env)" "b < ?n * col_len env q"
  proof -
    have l: "0 < col_len env q" using that(2) by (cases "col_len env q") auto
    have "b div col_len env q < ?n" using that(2) by (simp add: less_mult_imp_div_less)
    moreover have "b div col_len env q * col_len env q \<le> b" "b < b div col_len env q * col_len env q + col_len env q"
      using l by (simp_all add: dividend_less_div_times add.commute)
    ultimately show ?thesis using edge_ops_reach(2) [OF edge _ that(1)] by blast
  qed
  show "reached env ops (ECell b)" if b: "b < 16 * (?n + 1) + 12 * (?m + 1) + 40"
  proof -
    let ?x = "16 * (?n + 1) + 12 * ?m"
    have t: "WriteEdgeFile ?x (le_bytes 8 kInvalidVertexId) \<in> ops"
      "WriteEdgeFile (?x + 8) (le_bytes 4 (word_of_nat (16 * ?n) :: u32)) \<in> ops"
      "WriteEdgeFile (16 * ?n) (EdgeBody_image (mk_EdgeBody kInvalidVertexId kInvalidVertexId (last (cp_property_offsets p)) False True 0)) \<in> ops"
      "WriteEdgeFile (16 * (?n + 1) + 12 * (?m + 1)) (Header_image (flush_header mt ?n p)) \<in> ops"
      using tail by (simp_all add: tail_ops_def Let_def m)
    consider "b div 16 < ?n" | "16 * ?n \<le> b" "b < 16 * ?n + 16"
      | i where "i < ?m" "16 * (?n + 1) + 12 * i \<le> b" "b < 16 * (?n + 1) + 12 * i + 12"
      | "16 * (?n + 1) + 12 * ?m \<le> b" "b < 16 * (?n + 1) + 12 * ?m + 8"
      | "16 * (?n + 1) + 12 * ?m + 8 \<le> b" "b < 16 * (?n + 1) + 12 * ?m + 12"
      | "16 * (?n + 1) + 12 * (?m + 1) \<le> b"
      using file_region [of b ?n ?m] by blast
    then show ?thesis
    proof cases
      case 1
      have "16 * (b div 16) \<le> b" "b < 16 * (b div 16) + 16" by linarith+
      then show ?thesis using edge_ops_reach(1) [OF edge [OF 1] 1] by blast
    next
      case (3 i)
      then show ?thesis using source_ops_reach(3) [OF src] by blast
    next
      case 2
      then show ?thesis using reached_edge_file [OF t(3)] by simp
    next
      case 4
      then show ?thesis using reached_edge_file [OF t(1)] by simp
    next
      case 5
      then show ?thesis using reached_edge_file [OF t(2)] by simp
    next
      case 6
      then show ?thesis using reached_edge_file [OF t(4)] b by simp
    qed
  qed
qed

section \<open>What a flush returns\<close>

text \<open>The sources of a table in the order of the vertex slots, and their edges as the flush writes them.\<close>

definition sources_of :: "nat \<Rightarrow> MemTable \<Rightarrow> VertexId_t list" where
  "sources_of vertex_num mt = filter (\<lambda>v. mt_vertex_adjs mt v \<noteq> None) (map word_of_nat [0 ..< vertex_num])"

definition sorted_edges :: "(VertexId_t \<times> Edge) list \<Rightarrow> VertexId_t \<Rightarrow> Edge list" where
  "sorted_edges es v = sort_key edge_key (log_of es v)"

text \<open>The tables a flush is meant for: filled with edges of registered vertices, the versions of each
  source in order, and small enough for the 32-bit offsets of the index.\<close>

definition flushable :: "nat \<Rightarrow> nat \<Rightarrow> MemTable \<Rightarrow> (VertexId_t \<times> Edge) list \<Rightarrow> bool" where
  "flushable reserve_node vertex_num mt es \<longleftrightarrow>
     mt_holds reserve_node mt es \<and> es \<noteq> [] \<and> length es \<le> mt_max_edge_num mt \<and> 16 * (length es + 1) < 2 ^ 31 \<and>
     vertex_num \<le> unat kInvalidVertexId \<and>
     (\<forall>(v, e) \<in> set es. unat v < vertex_num \<and> e_dst e \<le> kInvalidVertexId \<and> 0 \<le> sint (e_seq e) \<and> increasing (log_of es v))"

lemma kInvalidVertexId_nat: "unat kInvalidVertexId = 2 ^ 48 - 1"
  by (simp add: kInvalidVertexId_def)

lemma increasing_Nil [simp]: "increasing []"
  by (simp add: increasing_def seqs_ok_def)

lemma flushableD:
  assumes "flushable reserve_node vertex_num mt es"
  shows "mt_holds reserve_node mt es" "es \<noteq> []" "length es \<le> mt_max_edge_num mt" "16 * (length es + 1) < 2 ^ 31"
    "vertex_num \<le> unat kInvalidVertexId" "v \<in> fst ` set es \<Longrightarrow> unat v < vertex_num" "increasing (log_of es v)"
    "e \<in> set (log_of es v) \<Longrightarrow> e_dst e \<le> kInvalidVertexId \<and> e_seq e \<le> kMaxSequence \<and> uint (e_seq e) = sint (e_seq e)"
proof -
  show "mt_holds reserve_node mt es" "es \<noteq> []" "length es \<le> mt_max_edge_num mt" "16 * (length es + 1) < 2 ^ 31"
    "vertex_num \<le> unat kInvalidVertexId" using assms by (simp_all add: flushable_def)
  show "unat v < vertex_num" if "v \<in> fst ` set es" using assms that by (auto simp: flushable_def)
  show inc: "increasing (log_of es v)"
    using assms log_of_Nil_iff [of es v] by (cases "v \<in> fst ` set es") (auto simp: flushable_def)
  show "e_dst e \<le> kInvalidVertexId \<and> e_seq e \<le> kMaxSequence \<and> uint (e_seq e) = sint (e_seq e)" if e: "e \<in> set (log_of es v)"
  proof -
    have "(v, e) \<in> set es" using e by (auto simp: log_of_def)
    then have "e_dst e \<le> kInvalidVertexId" "0 \<le> sint (e_seq e)" using assms by (auto simp: flushable_def)
    moreover from this have "uint (e_seq e) = sint (e_seq e)" using sint_less [of "e_seq e"] by (simp add: uint_sint take_bit_int_eq_self)
    moreover have "sint (e_seq e) < sint kMaxSequence" using inc e by (simp add: increasing_def seqs_ok_def)
    moreover have "sint kMaxSequence = uint kMaxSequence" by (simp add: kMaxSequence_def)
    ultimately show ?thesis by (simp add: word_le_def)
  qed
qed

lemma mt_holds_None: "mt_holds reserve_node mt es \<Longrightarrow> mt_vertex_adjs mt v \<noteq> None \<longleftrightarrow> v \<in> fst ` set es"
  using log_of_Nil_iff [of es v] unfolding mt_holds_def
  by (metis adj_holds_simps(1) adj_holds_simps(2) option.exhaust option.distinct(1))

lemma word_upt_sorted: "n \<le> 2 ^ 48 \<Longrightarrow> sorted_wrt (<) (map (word_of_nat :: nat \<Rightarrow> VertexId_t) [0 ..< n])"
  by (auto simp: sorted_wrt_iff_nth_less word_less_nat_alt unat_of_nat)

lemma sources_of_flushable:
  assumes "flushable reserve_node vertex_num mt es"
  shows "set (sources_of vertex_num mt) = fst ` set es" "sorted_wrt (<) (sources_of vertex_num mt)"
    "distinct (sources_of vertex_num mt)" "length (sources_of vertex_num mt) = card (fst ` set es)"
proof -
  note f = flushableD [OF assms]
  have "v \<in> set (map word_of_nat [0 ..< vertex_num])" if "v \<in> fst ` set es" for v
    using f(6) [OF that] by (auto intro!: image_eqI [of _ _ "unat v"])
  then show set: "set (sources_of vertex_num mt) = fst ` set es"
    using mt_holds_None [OF f(1)] by (auto simp: sources_of_def)
  show sorted: "sorted_wrt (<) (sources_of vertex_num mt)"
    unfolding sources_of_def using f(5) by (intro sorted_wrt_filter word_upt_sorted) (simp add: kInvalidVertexId_nat)
  then show dist: "distinct (sources_of vertex_num mt)" using strict_sorted_iff by blast
  show "length (sources_of vertex_num mt) = card (fst ` set es)" using distinct_card [OF dist] set by simp
qed

lemma log_of_total: "finite S \<Longrightarrow> fst ` set es \<subseteq> S \<Longrightarrow> (\<Sum>v \<in> S. length (log_of es v)) = length es"
proof (induction es rule: rev_induct)
  case Nil
  then show ?case by (simp add: log_of_def)
next
  case (snoc x es)
  obtain w e where x: "x = (w, e)" by fastforce
  have "(\<Sum>v \<in> S. length (log_of (es @ [x]) v)) = (\<Sum>v \<in> S. length (log_of es v) + (if v = w then 1 else 0))"
    by (intro sum.cong) (simp_all add: x log_of_snoc)
  also have "\<dots> = length es + 1" using snoc x by (simp add: sum.distrib)
  finally show ?case by simp
qed

lemma flushable_adjs:
  assumes "flushable reserve_node vertex_num mt es"
  shows "adjs_hold (mt_vertex_adjs mt) (sorted_edges es) (sources_of vertex_num mt)"
    "length (flat (sorted_edges es) (sources_of vertex_num mt)) = length es"
proof -
  note f = flushableD [OF assms] and s = sources_of_flushable [OF assms]
  have "\<exists>ne. mt_vertex_adjs mt v = Some ne \<and> NE_iterate (sort_edges ne) = Some (sorted_edges es v) \<and>
      getEdgeNum ne = length (sorted_edges es v)" if "v \<in> set (sources_of vertex_num mt)" for v
  proof -
    have "v \<in> fst ` set es" using that s(1) by simp
    then obtain ne where ne: "mt_vertex_adjs mt v = Some ne" using mt_holds_None [OF f(1), of v] by blast
    have "adj_holds reserve_node (mt_vertex_adjs mt v) (log_of es v)" using f(1) by (simp add: mt_holds_def)
    then have "ne_holds reserve_node ne (log_of es v)" by (simp add: ne)
    from sorted_iterate [OF this increasing_keys(1) [OF f(7)]] this ne show ?thesis by (simp add: sorted_edges_def)
  qed
  then show "adjs_hold (mt_vertex_adjs mt) (sorted_edges es) (sources_of vertex_num mt)" by (simp add: adjs_hold_def)
  have "length (flat (sorted_edges es) (sources_of vertex_num mt)) = (\<Sum>v \<in> set (sources_of vertex_num mt). length (sorted_edges es v))"
    by (simp add: flat_def length_concat comp_def sum_list_distinct_conv_sum_set [OF s(3)])
  also have "\<dots> = length es" using log_of_total [of "set (sources_of vertex_num mt)" es] s(1) by (simp add: sorted_edges_def)
  finally show "length (flat (sorted_edges es) (sources_of vertex_num mt)) = length es" .
qed

lemma sort_edges_idem: "sort_edges (sort_edges ne) = sort_edges ne"
proof -
  have "stable_sort sort_less es = sort_key edge_key es" for es by (rule stable_sort_sort_key) (rule sort_less_key)
  then show ?thesis by (simp add: sort_edges_def sort_key_id_if_sorted sorted_sort_key)
qed

text \<open>The table a flush leaves, as a function of the edges alone.\<close>

definition header_of :: "MemTable \<Rightarrow> (VertexId_t \<Rightarrow> Edge list) \<Rightarrow> VertexId_t list \<Rightarrow> Header" where
  "header_of mt E vs =
     \<lparr>hdr_timeStamp = ucast (mt_fid mt), hdr_size = word_of_nat (length (flat E vs) + 1),
      hdr_index_size = word_of_nat (length vs + 1), hdr_minKey = vs ! 0, hdr_maxKey = vs ! (length vs - 1)\<rparr>"

definition flushed :: "layout_env \<Rightarrow> MemTable \<Rightarrow> (VertexId_t \<Rightarrow> Edge list) \<Rightarrow> VertexId_t list \<Rightarrow> flushed_table" where
  "flushed env mt E vs =
     (let T = target env (mt_vertex_adjs mt) E vs (header_of mt E vs) in
      \<lparr>ft_header = header_of mt E vs, ft_indexes = indexes_of E vs @ [end_index (length (flat E vs))],
       ft_efile = fs_efile T, ft_pfiles = fs_pfiles T, ft_newest_edge = mt_newest_edge mt, ft_seq = mt_start_time mt\<rparr>)"

lemma flush_plan_done:
  assumes f: "flushable reserve_node vertex_num mt es" and "subcompactions \<ge> 1"
  shows "\<exists>p S. flush_plan env mt vertex_num subcompactions = Inr (length es, p) \<and>
    plan_done (sorted_edges es) (sources_of vertex_num mt) (col_len env 0) p S \<and> (subcompactions \<le> 1 \<longrightarrow> S = [0])"
proof -
  let ?vs = "sources_of vertex_num mt" and ?E = "sorted_edges es"
  note D = flushableD [OF f] and s = sources_of_flushable [OF f] and a = flushable_adjs [OF f]
  have m: "mt_src_vertex_num mt = length ?vs" using D(1) s(4) by (simp add: mt_holds_def)
  have vs: "?vs \<noteq> []" using s(1) D(2) by (metis image_is_empty set_empty)
  define p where "p = finish_plan (plan_sources (length es div subcompactions) (length ?vs) (col_len env 0) (mt_vertex_adjs mt)
      (map word_of_nat [0 ..< vertex_num]) new_plan)"
  obtain S where S: "plan_done ?E ?vs (col_len env 0) p S" "length (flat ?E ?vs) \<le> length es div subcompactions \<longrightarrow> S = [0]"
    using plan_done [OF a(1) _ vs p_def] by (auto simp: sources_of_def)
  have capacity: "mt_remain_capacity mt = int (mt_max_edge_num mt) - int (length es)" "mt_listLength mt = length es"
    using D(1) by (simp_all add: mt_holds_def)
  have edge_total: "(if mt_remain_capacity mt > 0 then nat (int (mt_max_edge_num mt) - mt_remain_capacity mt)
      else mt_max_edge_num mt) = length es" using D(3) by (simp add: capacity(1))
  have "flush_plan env mt vertex_num subcompactions = Inr (length es, p)"
    using S(1) a(2) vs D(3) edge_total unfolding flush_plan_def Let_def edge_total m p_def [symmetric]
    by (simp add: plan_done_def capacity p_def)
  moreover have "S = [0]" if "subcompactions \<le> 1" proof -
    have "subcompactions = 1" using that assms(2) by simp
    then show ?thesis using S(2) a(2) by simp
  qed
  ultimately show ?thesis using S(1) by blast
qed

text \<open>The writes, in any order, turn the buffers into the target.\<close>

lemma flush_run:
  assumes f: "flushable reserve_node vertex_num mt es" and vs: "vs = sources_of vertex_num mt" and E: "E = sorted_edges es"
    and plan: "plan_done E vs (col_len env 0) p S"
    and ops: "set ops = (\<Union>i < length vs. source_op_set env E vs i) \<union> set (tail_ops mt (length (flat E vs)) p)"
    and T: "T = target env (mt_vertex_adjs mt) E vs (flush_header mt (length (flat E vs)) p)"
  shows "run_ops env ops (flush_buffers env garbage mt (length (flat E vs))) = Some T"
proof -
  note D = flushableD [OF f] and s = sources_of_flushable [OF f, folded vs]
  let ?n = "length (flat E vs)" and ?fs0 = "flush_buffers env garbage mt (length (flat E vs))"
  have m: "mt_src_vertex_num mt = length vs" using D(1) s(4) by (simp add: mt_holds_def)
  have agree: "\<forall>op \<in> set ops. agrees env T op"
    using source_ops_agree tail_ops_agree [OF plan m] unfolding ops T by blast
  have col: "length (column_of len q (flat E vs)) = ?n * len" for len q
    unfolding column_of_def by (rule length_concat_const) simp
  have efile: "length (fs_efile T) = 16 * (?n + 1) + 12 * (length vs + 1) + 40" unfolding T by (rule target_efile)
  have pfiles: "length (fs_pfiles T) = nat (GetActiveSubPropertyNum env)"
    "q < nat (GetActiveSubPropertyNum env) \<Longrightarrow> length (fs_pfiles T ! q) = ?n * col_len env q" for q
    by (simp_all add: T target_def col)
  have tw: "towards T ?fs0"
    unfolding towards_def efile by (simp add: flush_buffers_def HEADER_SIZE_def m)
      (simp add: T target_def col option.map_comp comp_def sort_edges_idem)
  obtain fs where fs: "run_ops env ops ?fs0 = Some fs" "towards T fs"
    "\<And>c. same_cell c ?fs0 T \<or> reached env (set ops) c \<Longrightarrow> same_cell c fs T"
    using run_ops_agrees [OF tw agree] unfolding reached_def by blast
  have "fs = T"
  proof (rule towards_all_cells [OF fs(2)])
    show "same_cell (ECell k) fs T" if "k < length (fs_efile T)" for k
      using flush_reaches(1) [OF ops m] that unfolding efile by (intro fs(3)) blast
    show "same_cell (PCell q k) fs T" if "q < length (fs_pfiles T)" "k < length (fs_pfiles T ! q)" for q k
      using flush_reaches(2) [OF ops m] that unfolding pfiles(1) by (intro fs(3)) (simp add: pfiles(2))
    show "same_cell (ICell v) fs T" if "v < length (fs_indexes T)" for v
      using flush_reaches(3) [OF ops m] that by (intro fs(3)) (simp add: T target_def)
    show "same_cell (ACell v) fs T" for v
    proof (cases "v \<in> set vs")
      case True
      then show ?thesis using flush_reaches(4) [OF ops m] by (intro fs(3)) blast
    next
      case False
      then have "mt_vertex_adjs mt v = None" using s(1) mt_holds_None [OF D(1), of v] by simp
      then show ?thesis by (intro fs(3)) (simp add: flush_buffers_def T target_def)
    qed
  qed
  with fs(1) show ?thesis by simp
qed

lemma flush_result:
  assumes f: "flushable reserve_node vertex_num mt es" and sub: "subcompactions \<ge> 1"
    and sched: "\<And>ls. interleaves ls (sched ls)"
  shows "save2eSSTable_split_property env garbage sched subcompactions vertex_num mt =
    Inr (flushed env mt (sorted_edges es) (sources_of vertex_num mt),
         mt\<lparr>mt_vertex_adjs := \<lambda>v. map_option sort_edges (mt_vertex_adjs mt v)\<rparr>)"
proof -
  define vs where "vs = sources_of vertex_num mt"
  define E where "E = sorted_edges es"
  note D = flushableD [OF f] and s = sources_of_flushable [OF f, folded vs_def] and a = flushable_adjs [OF f, folded vs_def E_def]
  have m: "mt_src_vertex_num mt = length vs" using D(1) s(4) by (simp add: mt_holds_def)
  have m_le: "length vs \<le> length es" unfolding s(4) using card_image_le [of "set es" fst] card_length [of es] by simp
  obtain p S where p: "flush_plan env mt vertex_num subcompactions = Inr (length es, p)"
    "plan_done E vs (col_len env 0) p S" "subcompactions \<le> 1 \<longrightarrow> S = [0]"
    using flush_plan_done [OF f sub, of env] unfolding vs_def E_def by blast
  obtain ls where ls: "map (build_sstable env (mt_vertex_adjs mt) (length es) p) (chunk_ids subcompactions p) = map Some ls"
    "(\<Union>l \<in> set ls. set l) = (\<Union>i < length vs. source_op_set env E vs i)"
    using chunks_set [OF a(1) p(2), of subcompactions] p(3) D(4) m_le unfolding a(2) by auto
  have h: "flush_header mt (length es) p = header_of mt E vs"
    using p(2) by (simp add: flush_header_def header_of_def plan_done_def m a(2))
  have "set (sched ls @ tail_ops mt (length es) p) =
      (\<Union>i < length vs. source_op_set env E vs i) \<union> set (tail_ops mt (length (flat E vs)) p)"
    using interleaves_set [OF sched, of ls] ls(2) by (simp add: a(2))
  from flush_run [OF f vs_def E_def p(2) this refl, of garbage]
  have run: "run_ops env (sched ls @ tail_ops mt (length es) p) (flush_buffers env garbage mt (length es)) =
      Some (target env (mt_vertex_adjs mt) E vs (header_of mt E vs))" unfolding a(2) h .
  have "None \<notin> set (map Some ls)" "map the (map Some ls) = ls" by (auto simp: comp_def)
  then have "save2eSSTable_split_property env garbage sched subcompactions vertex_num mt =
      Inr (flushed env mt E vs, mt\<lparr>mt_vertex_adjs := \<lambda>v. map_option sort_edges (mt_vertex_adjs mt v)\<rparr>)"
    unfolding save2eSSTable_split_property_def p(1) sum.case prod.case Let_def ls(1) run
    by (simp add: run h flushed_def Let_def a(2)) (simp add: target_def end_index_def)
  then show ?thesis by (simp add: vs_def E_def)
qed

section \<open>Reading a flushed table\<close>

lemma read_index_image: "slice (12 * i) 12 buf = ix_image ix \<Longrightarrow> read_Index buf i = ix"
  by (frule index_parts(1), drule index_parts(2)) (simp add: read_Index_def)

text \<open>The file gives back the header and the index the flush kept in memory.\<close>

lemma load_flushed:
  assumes small: "length (flat E vs) + 1 < 2 ^ 64" "length vs + 1 < 2 ^ 64" and ft: "ft = flushed env mt E vs"
  shows "load_SSTableCache (ft_efile ft) = (ft_header ft, ft_indexes ft)"
proof -
  define n where "n = length (flat E vs)"
  define m where "m = length vs"
  define h where "h = header_of mt E vs"
  define T where "T = fs_efile (target env (mt_vertex_adjs mt) E vs h)"
  note e = target_efile(1) [of env "mt_vertex_adjs mt" E vs h, folded T_def n_def m_def]
    target_efile(4) [of E vs env "mt_vertex_adjs mt" h, folded T_def n_def m_def]
  note e_ix = target_efile(3) [of _ vs E env "mt_vertex_adjs mt" h, folded T_def n_def m_def]
  have "drop (length T - 40) T = Header_image h"
    using e(2) by (simp add: e(1) slice_def)
  then have "read_Header T = h" by (simp add: read_Header_def HEADER_SIZE_def Header_image_def layout)
  moreover have sizes: "unat (hdr_size h) = n + 1" "unat (hdr_index_size h) = m + 1"
    using small by (simp_all add: h_def header_of_def n_def m_def unat_of_nat del: of_nat_Suc of_nat_add)
  moreover have "map (read_Index (take ((m + 1) * 12) (drop (16 * (n + 1)) T))) [0 ..< m + 1] = indexes_of E vs @ [end_index n]"
  proof (rule nth_equalityI)
    fix i assume "i < length (map (read_Index (take ((m + 1) * 12) (drop (16 * (n + 1)) T))) [0 ..< m + 1])"
    then have i: "i < m + 1" by simp
    then have "12 * i + 12 \<le> (m + 1) * 12" by simp
    then have "slice (12 * i) 12 (take ((m + 1) * 12) (drop (16 * (n + 1)) T)) = slice (16 * (n + 1) + 12 * i) 12 T"
      using slice_slice [of "12 * i" 12 "(m + 1) * 12" "16 * (n + 1)" T] by (simp add: slice_def)
    with e_ix [OF i] i show "map (read_Index (take ((m + 1) * 12) (drop (16 * (n + 1)) T))) [0 ..< m + 1] ! i =
        (indexes_of E vs @ [end_index n]) ! i" by (simp add: read_index_image del: upt_Suc)
  qed (simp add: m_def)
  ultimately show ?thesis
    by (simp add: load_SSTableCache_def Let_def ft flushed_def h_def [symmetric] T_def [symmetric] n_def [symmetric] del: upt_Suc)
qed

text \<open>The fields a body keeps of an edge.\<close>

lemma body_of_fields:
  assumes "e_dst e \<le> kInvalidVertexId \<and> e_seq e \<le> kMaxSequence \<and> uint (e_seq e) = sint (e_seq e)"
  shows "get_marker (body_of slot0 k e) = e_marker e" "(get_dst (body_of slot0 k e), - uint (get_seq (body_of slot0 k e))) = edge_key e"
    "edge_matches dst is_out et (body_of slot0 k e) \<longleftrightarrow> edge_match dst is_out et e"
  using assms by (simp_all add: body_of_def get_mk_EdgeBody edge_key_def edge_matches_def edge_match_def)

lemma bodies_nth:
  assumes "i < length vs" "j < length (E (vs ! i))"
  shows "bodies_of slot0 (flat E vs) ! (start_of E vs i + j) = body_of slot0 (start_of E vs i + j) (E (vs ! i) ! j)"
  using flat_nth [where E = E, OF assms] by (simp add: bodies_of_def nth_append)

lemma flushed_run_ok:
  assumes f: "flushable reserve_node vertex_num mt es" and i: "i < length vs" and E: "E = sorted_edges es"
  shows "sst_run_ok (bodies_of slot0 (flat E vs)) (start_of E vs i) (start_of E vs (Suc i))"
proof -
  let ?a = "start_of E vs i" and ?B = "bodies_of slot0 (flat E vs)" and ?v = "vs ! i"
  have b: "start_of E vs (Suc i) = ?a + length (E ?v)" by (rule start_of_Suc [OF i])
  have le: "start_of E vs (Suc i) \<le> length (flat E vs)"
    using start_of_mono [of "Suc i" "length vs" E vs] i by (simp add: start_of_all)
  have fields: "e_dst e \<le> kInvalidVertexId \<and> e_seq e \<le> kMaxSequence \<and> uint (e_seq e) = sint (e_seq e)" if "e \<in> set (E ?v)" for e
    using flushableD(8) [OF f] that by (simp add: E sorted_edges_def)
  have "\<not> EdgeBody_less (?B ! (?a + k)) (?B ! (?a + j))" if jk: "j < k" "k < length (E ?v)" for j k
  proof -
    have "sorted (map edge_key (E ?v))" by (simp add: E sorted_edges_def)
    then have "edge_key (E ?v ! j) \<le> edge_key (E ?v ! k)" using jk by (simp add: sorted_iff_nth_mono)
    then show ?thesis using jk fields by (simp add: bodies_nth [OF i] EdgeBody_less_key body_of_fields not_less)
  qed
  then show ?thesis using le b
    by (auto simp: sst_run_ok_def sorted_wrt_iff_nth_less)
qed

lemma flushed_table_ok:
  assumes f: "flushable reserve_node vertex_num mt es" and E: "E = sorted_edges es" and vs: "vs = sources_of vertex_num mt"
    and t: "t = mapped_table (flushed env mt E vs)"
  shows "sst_ok t (bodies_of (col_len env 0) (flat E vs)) (map (start_of E vs) [0 ..< Suc (length vs)])"
proof -
  note D = flushableD [OF f] and s = sources_of_flushable [OF f, folded vs] and a = flushable_adjs [OF f, folded E vs]
  let ?B = "bodies_of (col_len env 0) (flat E vs)" and ?m = "length vs"
  have size: "unat (hdr_size (header_of mt E vs)) = length es + 1"
    using D(4) by (simp add: header_of_def a(2) unat_of_nat del: of_nat_Suc of_nat_add)
  have "length (concat (map EdgeBody_image ?B)) = (length es + 1) * 16" by (subst length_concat_const [where n = 16]) (simp_all add: a(2))
  then have data: "s_edge_data t = concat (map EdgeBody_image ?B)"
    by (simp add: t mapped_table_def flushed_def Let_def size) (simp add: target_def)
  have ix: "s_indexes t = indexes_of E vs @ [end_index (length es)]" by (simp add: t mapped_table_def flushed_def Let_def a(2))
  have "v < kInvalidVertexId" if "v \<in> set vs" for v
    using order.strict_trans2 [OF D(6) D(5)] that unfolding s(1) word_less_nat_alt .
  then have "sorted_wrt (<) (map ix_key (s_indexes t))"
    using s(2) by (simp add: ix indexes_of_def end_index_def sorted_wrt_append comp_def map_nth)
  moreover have "map ix_offset (s_indexes t) = map (\<lambda>i. word_of_nat (16 * i)) (map (start_of E vs) [0 ..< Suc ?m])"
    by (simp add: ix indexes_of_def end_index_def comp_def start_of_all a(2))
  moreover have "sst_run_ok ?B (map (start_of E vs) [0 ..< Suc ?m] ! p) (map (start_of E vs) [0 ..< Suc ?m] ! Suc p)" if "p < ?m" for p
    using flushed_run_ok [OF f that E] that by (simp del: upt_Suc)
  ultimately show ?thesis using data D(4) by (simp add: sst_ok_def ix a(2) del: upt_Suc)
qed

lemma find_by_index:
  assumes "\<And>j. j < length xs \<Longrightarrow> Q (a + j) \<longleftrightarrow> P (xs ! j)"
  shows "case List.find Q [a ..< a + length xs] of None \<Rightarrow> List.find P xs = None
    | Some i \<Rightarrow> a \<le> i \<and> i < a + length xs \<and> List.find P xs = Some (xs ! (i - a))"
  using assms
proof (induction xs arbitrary: a)
  case (Cons x xs)
  have upt: "[a ..< a + length (x # xs)] = a # [Suc a ..< Suc a + length xs]" by (simp add: upt_rec)
  have "Q a = P x" using Cons.prems [of 0] by simp
  moreover have "Q (Suc a + j) = P (xs ! j)" if "j < length xs" for j using Cons.prems [of "Suc j"] that by simp
  from Cons.IH [OF this] have IH: "case List.find Q [Suc a ..< Suc a + length xs] of None \<Rightarrow> List.find P xs = None
    | Some i \<Rightarrow> Suc a \<le> i \<and> i < Suc a + length xs \<and> List.find P xs = Some (xs ! (i - Suc a))" .
  ultimately show ?case unfolding upt
    by (cases "Q a") (auto split: option.splits simp: nth_Cons' Suc_diff_le)
qed simp

text \<open>Without a delta view the point read is the one through an empty view.\<close>

lemma find_edge_no_view:
  "find_edge_in_lonely_SStableCache env None t src dst pid is_out et counters =
   find_edge_in_lonely_SStableCache env (Some \<lparr>v_merged_base = None, v_deltas = [], v_generation = 0\<rparr>) t src dst pid is_out et counters"
proof -
  have "fst (ReadView_Lookup \<lparr>v_merged_base = None, v_deltas = [], v_generation = 0\<rparr> k s counters) = None" for k s
    by (subst ReadView_newest) (simp_all add: view_records_def newest_def)
  then show ?thesis by (simp add: find_edge_in_lonely_SStableCache_def BaseDataOr_def cong: if_cong)
qed

text \<open>What a reader gets of one column of an edge.\<close>

definition column_value :: "layout_env \<Rightarrow> int \<Rightarrow> Edge \<Rightarrow> string" where
  "column_value env col e = TrimTrailingZero (take (unat (GetSubPropertyFixedLength env col)) (ExtractSubProperty (e_property e) col))"

lemma column_slot_flushed:
  assumes "k < length es" "16 * length es < 2 ^ 31" "0 \<le> col" "GetSubPropertyFixedLength env col > 0"
  shows "column_slot env col (column_of (col_len env (nat col)) (nat col) es) (word_of_nat k) = Some (column_value env col (es ! k))"
proof -
  let ?L = "GetSubPropertyFixedLength env col"
  have "unat ?L < 2 ^ 32" using unsigned_less [of ?L] by simp
  moreover have "k < 2 ^ 27" using assms(1,2) by simp
  ultimately have "k * unat ?L < 2 ^ 27 * 2 ^ 32" by (intro mult_strict_mono) auto
  then have "unat (word_of_nat k * ucast ?L :: u64) = k * unat ?L"
    using \<open>k < 2 ^ 27\<close> by (simp add: unat_word_ariths unat_of_nat unat_ucast_widen)
  with column_of_slice [OF assms(1), of "unat ?L" "nat col"] assms(3) show ?thesis
    by (simp add: column_slot_def ReadSubPropertyFromSlot_def GetSubPropertyOffsetByEdgeOrdinal_def Let_def slot_image_def column_value_def)
qed

lemma flushed_first_edge:
  assumes f: "flushable reserve_node vertex_num mt es" and E: "E = sorted_edges es" and p: "p < length vs" "vs ! p = src"
    and B: "B = bodies_of slot0 (flat E vs)"
  shows "case first_edge B (start_of E vs p) (start_of E vs (Suc p)) dst is_out et of
      None \<Rightarrow> List.find (edge_match dst is_out et) (E src) = None
    | Some i \<Rightarrow> List.find (edge_match dst is_out et) (E src) = Some (flat E vs ! i) \<and> i < length (flat E vs) \<and>
        get_marker (B ! i) = e_marker (flat E vs ! i)"
proof -
  let ?a = "start_of E vs p"
  have b: "start_of E vs (Suc p) = ?a + length (E src)" using start_of_Suc [OF p(1), of E] p(2) by simp
  have fields: "e_dst e \<le> kInvalidVertexId \<and> e_seq e \<le> kMaxSequence \<and> uint (e_seq e) = sint (e_seq e)" if "e \<in> set (E src)" for e
    using flushableD(8) [OF f] that by (simp add: E sorted_edges_def)
  have at: "B ! (?a + j) = body_of slot0 (?a + j) (E src ! j)" "flat E vs ! (?a + j) = E src ! j" "?a + j < length (flat E vs)"
    if "j < length (E src)" for j
    using bodies_nth [where E = E, OF p(1)] flat_nth [where E = E, OF p(1)] p(2) that by (simp_all add: B)
  have "edge_matches dst is_out et (B ! (?a + j)) \<longleftrightarrow> edge_match dst is_out et (E src ! j)" if "j < length (E src)" for j
    using body_of_fields(3) [OF fields] that by (simp add: at(1))
  from find_by_index [where Q = "\<lambda>i. edge_matches dst is_out et (B ! i)", OF this]
  have first: "case first_edge B ?a (start_of E vs (Suc p)) dst is_out et of
      None \<Rightarrow> List.find (edge_match dst is_out et) (E src) = None
    | Some i \<Rightarrow> ?a \<le> i \<and> i < ?a + length (E src) \<and> List.find (edge_match dst is_out et) (E src) = Some (E src ! (i - ?a))"
    unfolding first_edge_def b .
  show ?thesis
  proof (cases "first_edge B ?a (start_of E vs (Suc p)) dst is_out et")
    case (Some i)
    then have i: "?a \<le> i" "i - ?a < length (E src)" "List.find (edge_match dst is_out et) (E src) = Some (E src ! (i - ?a))"
      using first by auto
    with at [OF i(2)] body_of_fields(1) [OF fields [OF nth_mem [OF i(2)]]] Some show ?thesis by simp
  qed (use first in simp)
qed

lemma flushed_lookup:
  assumes f: "flushable reserve_node vertex_num mt es" and src: "src \<noteq> kInvalidVertexId"
    and col: "0 \<le> col" "col < GetActiveSubPropertyNum env" "GetSubPropertyFixedLength env col > 0"
  shows "find_edge_in_lonely_SStableCache env None
      (mapped_table (flushed env mt (sorted_edges es) (sources_of vertex_num mt))) src dst col is_out et counters =
    (let (st, found) = lookup_result (List.find (edge_match dst is_out et) (rev (log_of es src)))
     in Some (st, map_option (column_value env col) found))"
proof -
  define vs where "vs = sources_of vertex_num mt"
  define E where "E = sorted_edges es"
  define t where "t = mapped_table (flushed env mt E vs)"
  define B where "B = bodies_of (col_len env 0) (flat E vs)"
  note D = flushableD [OF f] and s = sources_of_flushable [OF f, folded vs_def] and a = flushable_adjs [OF f, folded vs_def E_def]
  have ok: "sst_ok t B (map (start_of E vs) [0 ..< Suc (length vs)])"
    unfolding B_def by (rule flushed_table_ok [OF f E_def vs_def t_def])
  have ix: "s_indexes t = indexes_of E vs @ [end_index (length es)]" by (simp add: t_def mapped_table_def flushed_def Let_def a(2))
  have newest: "List.find (edge_match dst is_out et) (rev (log_of es src)) = List.find (edge_match dst is_out et) (E src)"
    using find_sort_newest [OF D(7)] by (simp add: E_def sorted_edges_def)
  show ?thesis
  proof (cases "src \<in> set vs")
    case False
    then have "log_of es src = []" using s(1) log_of_Nil_iff [of es src] by simp
    moreover have "SST_get t src = - 1"
      using False src by (intro SST_get_miss) (auto simp: ix indexes_of_def end_index_def)
    ultimately show ?thesis unfolding t_def [symmetric, unfolded E_def vs_def]
      by (simp add: find_edge_in_lonely_SStableCache_def lookup_result_def)
  next
    case True
    then obtain p where p: "p < length vs" "vs ! p = src" by (auto simp: in_set_conv_nth)
    have key: "Suc p < length (s_indexes t)" "ix_key (s_indexes t ! p) = src" using p by (simp_all add: ix nth_append indexes_of_def)
    have starts: "map (start_of E vs) [0 ..< Suc (length vs)] ! p = start_of E vs p"
      "map (start_of E vs) [0 ..< Suc (length vs)] ! Suc p = start_of E vs (Suc p)"
      using p(1) by (simp_all del: upt_Suc)
    note first = flushed_first_edge [OF f E_def p B_def, of dst is_out et]
    note read = find_edge_in_table [OF ok _ col(3) key, of "\<lparr>v_merged_base = None, v_deltas = [], v_generation = 0\<rparr>" dst is_out et counters,
        folded find_edge_no_view, unfolded starts]
    show ?thesis
    proof (cases "first_edge B (start_of E vs p) (start_of E vs (Suc p)) dst is_out et")
      case None
      with first read show ?thesis by (simp add: newest lookup_result_def t_def E_def vs_def)
    next
      case (Some i)
      then have i: "List.find (edge_match dst is_out et) (E src) = Some (flat E vs ! i)" "i < length (flat E vs)"
        "get_marker (B ! i) = e_marker (flat E vs ! i)" using first by simp_all
      have "s_property_data t ! nat col = column_of (col_len env (nat col)) (nat col) (flat E vs)"
        using col(1,2) by (simp add: t_def mapped_table_def flushed_def Let_def target_def)
      then have "column_slot env col (s_property_data t ! nat col) (word_of_nat i) = Some (column_value env col (flat E vs ! i))"
        using column_slot_flushed [OF i(2) _ col(1,3)] D(4) a(2) by simp
      then show ?thesis using read Some i(1,3)
        by (simp add: newest lookup_result_def t_def [symmetric, unfolded E_def vs_def] edge_value_def view_records_def newest_def BaseDataOr_def)
    qed
  qed
qed

section \<open>Properties\<close>



text \<open>A table with two sources: one edge written twice and one deleted.\<close>

definition sample_inserts :: "(nat list \<times> VertexId_t \<times> Edge) list" where
  "sample_inserts =
     [([], 3, \<lparr>e_dst = 5, e_seq = 1, e_marker = False, e_property = ''old|a'', e_is_out = True, e_edge_type = 0\<rparr>),
      ([], 1, \<lparr>e_dst = 7, e_seq = 2, e_marker = False, e_property = ''x'', e_is_out = True, e_edge_type = 0\<rparr>),
      ([], 3, \<lparr>e_dst = 5, e_seq = 3, e_marker = False, e_property = ''new|bc'', e_is_out = True, e_edge_type = 0\<rparr>),
      ([], 1, \<lparr>e_dst = 7, e_seq = 4, e_marker = True, e_property = ''~DELETED~'', e_is_out = True, e_edge_type = 0\<rparr>)]"

definition two_columns :: layout_env where
  "two_columns = \<lparr>tls_fixed_property_lengths = Some [4, 4], FLAGS_sub_property_num = 1, FLAGS_max_property_length = 8\<rparr>"

lemma sample_flushable:
  "\<exists>mt. fill 1 sample_inserts (new_MemTable 4) = Some mt \<and> flushable 1 8 mt (map snd sample_inserts)"
proof -
  have "\<forall>x \<in> set sample_inserts. storable (snd (snd x))" "length sample_inserts \<le> mt_max_edge_num (new_MemTable 4)"
    by (simp_all add: sample_inserts_def storable_def new_MemTable_def)
  then obtain mt where mt: "fill 1 sample_inserts (new_MemTable 4) = Some mt" "mt_holds 1 mt (map snd sample_inserts)"
    "mt_max_edge_num mt = 4"
    using fill_holds [OF mt_holds_new, of sample_inserts 4 1] by (auto simp: new_MemTable_def)
  have "flushable 1 8 mt (map snd sample_inserts)"
    using mt(2,3) by (simp add: flushable_def) (simp add: sample_inserts_def log_of_def increasing_def seqs_ok_def kInvalidVertexId_def kMaxSequence_def)
  with mt(1) show ?thesis by blast
qed

lemma interleaves_concat: "interleaves ls (concat ls)"
proof (induction "concat ls" arbitrary: ls)
  case Nil
  then show ?case using inter_nil [of ls] by (metis concat_eq_Nil_conv)
next
  case (Cons x s)
  from Cons.hyps(2) obtain a xs b where ls: "ls = a @ (x # xs) # b" "concat a = []" "s = xs @ concat b"
  proof (induction ls)
    case (Cons l ls)
    show ?case
    proof (cases l)
      case Nil
      with Cons.prems(2) have "x # s = concat ls" by simp
      from Cons.IH [OF _ this] Cons.prems(1) [of "[] # _"] Nil show ?thesis by force
    next
      case (Cons y ys)
      with Cons.prems show ?thesis by (intro Cons.prems(1) [of "[]" ys ls]) auto
    qed
  qed simp
  have upd: "ls[length a := xs] = a @ xs # b" by (simp add: ls(1))
  then have "s = concat (ls[length a := xs])" using ls by simp
  from Cons.hyps(1) [OF this] this have "interleaves (ls[length a := xs]) s" by simp
  then have "interleaves ls (x # s)" by (rule inter_step [rotated 2]) (simp_all add: ls(1))
  then show ?case by (simp only: Cons.hyps(2))
qed



end
