(* ===== verification/Spec2Isabelle.thy ===== *)
theory Spec2Isabelle
  imports DeltaStoreProps UpdateProps SchemaRoundtrip MemFlush
begin

text \<open>
  RichGraph, a property-graph storage engine: verification development.
\<close>

end
